(* ===== verification/Prelude.thy ===== *)
theory Prelude
  imports Main "HOL-Library.Code_Target_Numeral" "HOL-Library.Word" "HOL-Library.List_Lexorder" "HOL-Library.Sublist"
begin

unbundle bit_operations_syntax

text \<open>
  What every component of the store shares: the machine types, the errors, the big-endian
  byte codings of Go's \<^verbatim>\<open>encoding/binary\<close>, the lexicographic order of byte strings
  (\<^verbatim>\<open>bytes.Compare\<close>), Go's \<^verbatim>\<open>sort.Search\<close> and the strictly sorted row lists a
  table is made of.

  A Go byte is an \<open>8 word\<close>, a \<^verbatim>\<open>uint64\<close> is a \<open>64 word\<close> (additions wrap), a byte slice or
  an (immutable) Go string is a \<open>bytes\<close> list. The order \<open>(<)\<close> on \<open>bytes\<close> is the library's
  lexicographic one, in which a proper prefix comes first: exactly \<^verbatim>\<open>bytes.Compare\<close>.
\<close>

section \<open>Machine types and errors\<close>

type_synonym byte = "8 word"
type_synonym u16 = "16 word"
type_synonym u32 = "32 word"
type_synonym u64 = "64 word"
type_synonym bytes = "byte list"
type_synonym row = "bytes \<times> bytes"

text \<open>
  The errors the modelled code returns, one constructor per error site. \<open>GoPanic\<close> is a run-time
  panic of the language (a negative slice length, an index out of range), which is no error value.
\<close>

datatype err =
    GoPanic
  | EfCorrupt
  | EmptyContainer | NotAnRlpItem | InnerDecode | EncodePiece | InnerNotSubstring
  | BlockNotList | BlockHeaderElement | BlockTxList | NoRoundTrip
  | PvmTooShort | PvmBadPrefix | PvmBadTxHeader | BareEncode
  | ChainRowGap u64 u64
  | FreshWindowHole u64 u64 | BlockOutOfOrder u64 u64
  | ShortRead
  | FooterSize nat | BadMagic | RunVersion u32
  | SectionOrder | RowsOutOfOrder | RunOpen
  | ManifestVersion nat | NoTiling | WrongChainRoot | BadHashName
  | BlkRowSize nat | NumRowSize nat
  | MergeGap | MergeVerify | MergeSpanMoved
  | Errorf string  \<comment> \<open>an error known by its message\<close>

type_synonym 'a res = "err + 'a"

text \<open>Collections the component proofs extend and use.\<close>

named_theorems byte_simps \<open>lengths and decodings of fixed-width encodings\<close>
named_theorems key_simps \<open>literal key prefixes and their lengths\<close>
named_theorems row_intros \<open>introduction rules for strictly sorted row lists\<close>

section \<open>Byte strings\<close>

definition ascii :: "string \<Rightarrow> bytes" where
  "ascii s = map of_char s"

lemma length_ascii [simp]: "length (ascii s) = length s"
  by (simp add: ascii_def)

text \<open>\<^verbatim>\<open>bytes.HasPrefix(s, p)\<close>, Go's argument order.\<close>

definition HasPrefix :: "bytes \<Rightarrow> bytes \<Rightarrow> bool" where
  "HasPrefix s p = (take (length p) s = p)"

lemma HasPrefix_append [simp]: "HasPrefix (p @ s) p"
  by (simp add: HasPrefix_def)

lemma HasPrefix_iff: "HasPrefix s p \<longleftrightarrow> (\<exists>t. s = p @ t)"
  unfolding HasPrefix_def by (metis append_eq_conv_conj append_take_drop_id)

lemma lex_append_same [simp]: "(p @ xs < p @ ys) = (xs < (ys :: bytes))"
  by (induction p) auto

lemma lex_append_same_le [simp]: "(p @ xs \<le> p @ ys) = (xs \<le> (ys :: bytes))"
  by (simp add: le_less)

lemma lex_append_same_length:
  "length xs = length (ys :: bytes) \<Longrightarrow> (xs @ us < ys @ vs) = (xs < ys \<or> xs = ys \<and> us < vs)"
  by (induction xs ys rule: list_induct2) auto

lemma lex_prefix_less: "b \<noteq> [] \<Longrightarrow> (p :: bytes) < p @ b"
  by (induction p) (auto simp: neq_Nil_conv)

lemma lex_prefix_le: "(p :: bytes) \<le> p @ b"
  by (cases "b = []") (simp_all add: le_less lex_prefix_less)

text \<open>
  The keys that start with a prefix are an interval of the order: whatever lies between two
  of them starts with it too.
\<close>

lemma lex_between_prefix:
  assumes "p @ a \<le> k" and "k \<le> p @ b"
  shows "\<exists>c. k = p @ (c :: bytes)"
  using assms
proof (induction p arbitrary: k)
  case Nil
  then show ?case by simp
next
  case (Cons x p)
  then obtain y k' where k: "k = y # k'"
    by (cases k) auto
  with Cons.prems have "x \<le> y" and "y \<le> x"
    by (auto split: if_splits)
  then have "y = x" by simp
  with k Cons.prems have "p @ a \<le> k'" and "k' \<le> p @ b"
    by auto
  with Cons.IH k \<open>y = x\<close> show ?case by simp
qed

section \<open>Big-endian integers\<close>

text \<open>\<open>binary.BigEndian.PutUint64\<close>, \<open>PutUint32\<close> and \<open>PutUint16\<close> of Go's standard library.\<close>

definition be64 :: "u64 \<Rightarrow> bytes" where
  "be64 n = [ucast (drop_bit 56 n), ucast (drop_bit 48 n), ucast (drop_bit 40 n),
             ucast (drop_bit 32 n), ucast (drop_bit 24 n), ucast (drop_bit 16 n),
             ucast (drop_bit 8 n), ucast n]"

definition be32 :: "u32 \<Rightarrow> bytes" where
  "be32 n = [ucast (drop_bit 24 n), ucast (drop_bit 16 n), ucast (drop_bit 8 n), ucast n]"

definition be16 :: "u16 \<Rightarrow> bytes" where
  "be16 n = [ucast (drop_bit 8 n), ucast n]"

lemma length_be64 [simp, byte_simps]: "length (be64 n) = 8"
  by (simp add: be64_def)

lemma length_be32 [simp, byte_simps]: "length (be32 n) = 4"
  by (simp add: be32_def)

lemma length_be16 [simp, byte_simps]: "length (be16 n) = 2"
  by (simp add: be16_def)

text \<open>The number a byte string stands for, and the machine reads of it.\<close>

definition be_nat :: "bytes \<Rightarrow> nat" where
  "be_nat b = foldl (\<lambda>n c. n * 256 + unat c) 0 b"

definition get64 :: "bytes \<Rightarrow> u64" where
  "get64 b = of_nat (be_nat (take 8 b))"

definition get32 :: "bytes \<Rightarrow> u32" where
  "get32 b = of_nat (be_nat (take 4 b))"

definition get16 :: "bytes \<Rightarrow> u16" where
  "get16 b = of_nat (be_nat (take 2 b))"

lemma be_nat_snoc [simp]: "be_nat (b @ [c]) = be_nat b * 256 + unat c"
  by (simp add: be_nat_def)

lemma be_nat_Nil [simp]: "be_nat [] = 0"
  by (simp add: be_nat_def)

lemma unat_byte_bound: "unat (c :: byte) < 256"
  using unsigned_less [of c] by simp

lemma be_nat_Cons: "be_nat (c # b) = unat c * 256 ^ length b + be_nat b"
proof (induction b rule: rev_induct)
  case Nil
  then show ?case by (simp add: be_nat_def)
next
  case (snoc d b)
  have "be_nat (c # b @ [d]) = be_nat (c # b) * 256 + unat d"
    using be_nat_snoc [of "c # b" d] by simp
  with snoc show ?case by (simp add: algebra_simps)
qed

lemma be_nat_bound: "be_nat b < 256 ^ length b"
proof (induction b)
  case Nil
  then show ?case by simp
next
  case (Cons c b)
  have "unat c * 256 ^ length b + be_nat b < unat c * 256 ^ length b + 256 ^ length b"
    using Cons.IH by simp
  also have "\<dots> = Suc (unat c) * 256 ^ length b" by simp
  also have "\<dots> \<le> 256 * 256 ^ length b"
    using unat_byte_bound [of c] by (intro mult_le_mono1) simp
  finally show ?case by (simp add: be_nat_Cons)
qed

lemma be_nat_less_iff:
  "length xs = length ys \<Longrightarrow> (be_nat xs < be_nat ys) = (xs < ys)"
proof (induction xs ys rule: list_induct2)
  case Nil
  then show ?case by simp
next
  case (Cons x xs y ys)
  have less: "be_nat (a # as) < be_nat (b # bs)"
    if "unat a < unat b" "length as = length bs" for a b as bs
  proof -
    have "be_nat (a # as) < Suc (unat a) * 256 ^ length as"
      using be_nat_bound [of as] by (simp add: be_nat_Cons)
    also have "\<dots> \<le> unat b * 256 ^ length as"
      using that by (intro mult_le_mono1) simp
    finally show ?thesis using that by (simp add: be_nat_Cons)
  qed
  consider "x < y" | "y < x" | "x = y" by (rule linorder_cases)
  then show ?case
  proof cases
    case 1
    then show ?thesis using less [of x y xs ys] Cons.hyps by (simp add: word_less_nat_alt)
  next
    case 2
    then show ?thesis using less [of y x ys xs] Cons.hyps by (auto simp: word_less_nat_alt)
  next
    case 3
    then show ?thesis using Cons by (simp add: be_nat_Cons)
  qed
qed

lemma be_nat_inject: "length xs = length ys \<Longrightarrow> (be_nat xs = be_nat ys) = (xs = ys)"
  using be_nat_less_iff [of xs ys] be_nat_less_iff [of ys xs]
  by (metis linorder_less_linear nat_neq_iff)

text \<open>Writing a machine integer and reading its number back.\<close>

lemma unat_drop_bit: "unat (drop_bit k (n :: 'a::len word)) = unat n div 2 ^ k"
  by (metis drop_bit_eq_div unat_drop_bit_eq)

lemma unat_ucast_byte: "unat (ucast (n :: 'a::len word) :: byte) = unat n mod 256"
  by (simp add: unsigned_ucast_eq take_bit_eq_mod)

lemmas be_unfold = unat_drop_bit unat_ucast_byte

lemma div_byte_step: "(m :: nat) div 2 ^ (k + 8) * 256 + m div 2 ^ k mod 256 = m div 2 ^ k"
  by (simp add: power_add div_mult2_eq)

lemmas div_byte_steps =
  div_byte_step [where k = 48, simplified] div_byte_step [where k = 40, simplified]
  div_byte_step [where k = 32, simplified] div_byte_step [where k = 24, simplified]
  div_byte_step [where k = 16, simplified] div_byte_step [where k = 8, simplified]
  div_mult_mod_eq

lemma be_nat_be64: "be_nat (be64 n) = unat n"
proof -
  have "unat n < 2 ^ 64" using unsigned_less [of n] by simp
  then have top: "unat n div 72057594037927936 mod 256 = unat n div 72057594037927936" by simp
  have "be_nat (be64 n) = ((((((unat n div 72057594037927936 mod 256 * 256
      + unat n div 281474976710656 mod 256) * 256 + unat n div 1099511627776 mod 256) * 256
      + unat n div 4294967296 mod 256) * 256 + unat n div 16777216 mod 256) * 256
      + unat n div 65536 mod 256) * 256 + unat n div 256 mod 256) * 256 + unat n mod 256"
    unfolding be64_def be_nat_def foldl.simps be_unfold by simp
  then show ?thesis by (simp only: top div_byte_steps)
qed

lemma be_nat_be32: "be_nat (be32 n) = unat n"
proof -
  have "unat n < 2 ^ 32" using unsigned_less [of n] by simp
  then have top: "unat n div 16777216 mod 256 = unat n div 16777216" by simp
  have "be_nat (be32 n) = ((unat n div 16777216 mod 256 * 256
      + unat n div 65536 mod 256) * 256 + unat n div 256 mod 256) * 256 + unat n mod 256"
    unfolding be32_def be_nat_def foldl.simps be_unfold by simp
  then show ?thesis by (simp only: top div_byte_steps)
qed

lemma be_nat_be16: "be_nat (be16 n) = unat n"
proof -
  have "unat n < 2 ^ 16" using unsigned_less [of n] by simp
  then show ?thesis
    unfolding be16_def be_nat_def foldl.simps be_unfold by simp
qed

lemma get64_be64 [simp, byte_simps]: "get64 (be64 n @ r) = n"
  by (simp add: get64_def be_nat_be64)

lemma get32_be32 [simp, byte_simps]: "get32 (be32 n @ r) = n"
  by (simp add: get32_def be_nat_be32)

lemma get16_be16 [simp, byte_simps]: "get16 (be16 n @ r) = n"
  by (simp add: get16_def be_nat_be16)

lemma be64_get64: "length b = 8 \<Longrightarrow> be64 (get64 b) = b"
proof -
  assume len: "length b = 8"
  have "unat (get64 b) = be_nat b"
    using be_nat_bound [of b] len by (simp add: get64_def unat_of_nat)
  then show ?thesis
    using be_nat_inject [of "be64 (get64 b)" b] len by (simp add: be_nat_be64)
qed

lemma be64_inject [simp]: "(be64 a = be64 b) = (a = b)"
  by (metis append_Nil2 get64_be64)

lemma be64_less_iff [simp]: "(be64 a < be64 b) = (a < b)"
  using be_nat_less_iff [of "be64 a" "be64 b"] by (simp add: be_nat_be64 word_less_nat_alt)

lemma be64_le_iff [simp]: "(be64 a \<le> be64 b) = (a \<le> b)"
  by (simp add: le_less)

section \<open>Binary search\<close>

text \<open>
  Go's \<^verbatim>\<open>sort.Search(n, f)\<close>: the loop of the standard library, which halves \<open>[i, j)\<close> until
  it is empty.
\<close>

function search_loop :: "(nat \<Rightarrow> bool) \<Rightarrow> nat \<Rightarrow> nat \<Rightarrow> nat" where
  "search_loop f i j =
     (if i < j then (let h = (i + j) div 2 in if \<not> f h then search_loop f (h + 1) j else search_loop f i h)
      else i)"
  by pat_completeness auto
termination
  by (relation "measure (\<lambda>(f, i, j). j - i)") auto

declare search_loop.simps [simp del]

definition sort_Search :: "nat \<Rightarrow> (nat \<Rightarrow> bool) \<Rightarrow> nat" where
  "sort_Search n f = search_loop f 0 n"

lemma search_loop_step:
  "i < j \<Longrightarrow> \<not> f ((i + j) div 2) \<Longrightarrow> search_loop f i j = search_loop f ((i + j) div 2 + 1) j"
  "i < j \<Longrightarrow> f ((i + j) div 2) \<Longrightarrow> search_loop f i j = search_loop f i ((i + j) div 2)"
  "\<not> i < j \<Longrightarrow> search_loop f i j = i"
  by (simp_all add: search_loop.simps [of f i j] Let_def)

lemma search_loop_spec:
  assumes "i \<le> j" and "j \<le> n" and "\<And>a b. \<lbrakk> a \<le> b; b < n; f a \<rbrakk> \<Longrightarrow> f b"
  shows "i \<le> search_loop f i j \<and> search_loop f i j \<le> j
    \<and> (\<forall>k. i \<le> k \<and> k < search_loop f i j \<longrightarrow> \<not> f k)
    \<and> (search_loop f i j < j \<longrightarrow> f (search_loop f i j))"
  using assms
proof (induction f i j rule: search_loop.induct)
  case (1 f i j)
  let ?h = "(i + j) div 2"
  consider "\<not> i < j" | "i < j" "f ?h" | "i < j" "\<not> f ?h" by blast
  then show ?case
  proof cases
    case 1
    with \<open>i \<le> j\<close> show ?thesis by (auto simp: search_loop_step)
  next
    case 2
    have "i \<le> ?h" "?h \<le> n" "?h < j" using 2 "1.prems" by auto
    have IH: "i \<le> search_loop f i ?h \<and> search_loop f i ?h \<le> ?h
        \<and> (\<forall>k. i \<le> k \<and> k < search_loop f i ?h \<longrightarrow> \<not> f k)
        \<and> (search_loop f i ?h < ?h \<longrightarrow> f (search_loop f i ?h))"
      by (rule "1.IH"(2) [OF \<open>i < j\<close> refl]) (use 2 \<open>i \<le> ?h\<close> \<open>?h \<le> n\<close> "1.prems"(3) in simp_all)
    moreover have "f (search_loop f i ?h)"
      using IH \<open>f ?h\<close> by (cases "search_loop f i ?h = ?h") auto
    ultimately show ?thesis using \<open>?h < j\<close> by (simp add: search_loop_step(2) [where f = f and i = i and j = j] 2)
  next
    case 3
    have "?h + 1 \<le> j" "?h < n" using 3 "1.prems" by auto
    have below: "\<not> f k" if "k \<le> ?h" for k
      using that 3(2) "1.prems"(3) \<open>?h < n\<close> by blast
    have IH: "?h + 1 \<le> search_loop f (?h + 1) j \<and> search_loop f (?h + 1) j \<le> j
        \<and> (\<forall>k. ?h + 1 \<le> k \<and> k < search_loop f (?h + 1) j \<longrightarrow> \<not> f k)
        \<and> (search_loop f (?h + 1) j < j \<longrightarrow> f (search_loop f (?h + 1) j))"
      by (rule "1.IH"(1) [OF \<open>i < j\<close> refl 3(2) \<open>?h + 1 \<le> j\<close>]) (use "1.prems"(2,3) in simp_all)
    have "\<not> f k" if "k < search_loop f (?h + 1) j" for k
      using that below IH by (cases "k \<le> ?h") auto
    moreover have "i \<le> ?h + 1" using 3(1) by simp
    ultimately show ?thesis using IH by (simp add: search_loop_step(1) [where f = f and i = i and j = j] 3)
  qed
qed

text \<open>
  On a sorted list the search for the first element past a bound splits the list exactly there:
  before it \<open>takeWhile\<close>, from it on \<open>dropWhile\<close>.
\<close>

lemma sort_Search_takeWhile:
  assumes mono: "\<And>a b. \<lbrakk> a \<le> b; b < length xs; P (xs ! a) \<rbrakk> \<Longrightarrow> P (xs ! b)"
  shows "sort_Search (length xs) (\<lambda>i. P (xs ! i)) = length (takeWhile (\<lambda>x. \<not> P x) xs)"
proof -
  let ?f = "\<lambda>i. P (xs ! i)"
  let ?s = "search_loop ?f 0 (length xs)"
  have "0 \<le> ?s \<and> ?s \<le> length xs \<and> (\<forall>k. 0 \<le> k \<and> k < ?s \<longrightarrow> \<not> P (xs ! k))
      \<and> (?s < length xs \<longrightarrow> P (xs ! ?s))"
    by (rule search_loop_spec [where n = "length xs"]) (use mono in blast)+
  then have *: "?s \<le> length xs" "\<And>k. k < ?s \<Longrightarrow> \<not> P (xs ! k)" "?s < length xs \<Longrightarrow> P (xs ! ?s)"
    by blast+
  have "takeWhile (\<lambda>x. \<not> P x) xs = take ?s xs"
    by (rule takeWhile_eq_take_P_nth) (use * in simp_all)
  with *(1) show ?thesis by (simp add: sort_Search_def)
qed

lemma find_SomeD: "find P xs = Some x \<Longrightarrow> x \<in> set xs \<and> P x"
  by (induction xs) (auto split: if_splits)

lemma take_drop_join:
  assumes "k \<le> m"
  shows "take k (drop a xs) @ take (m - k) (drop (a + k) xs) = take m (drop a xs)"
  using take_add [of k "m - k" "drop a xs"] assms by (simp add: add.commute)

section \<open>Additions that do not wrap\<close>

lemma unat_add1:
  assumes "(a :: u64) < b"
  shows "unat (a + 1) = unat a + 1"
proof -
  have "unat a < unat b" using assms by (simp add: word_less_nat_alt)
  moreover have "unat b < 2 ^ 64" using unsigned_less [of b] by simp
  ultimately have "unat a + unat (1 :: u64) < 2 ^ LENGTH(64)" by simp
  then show ?thesis using unat_add_lem [of a 1] by simp
qed

lemma unat_of_nat_small: "n < 2 ^ 64 \<Longrightarrow> unat (of_nat n :: u64) = n"
  by (simp add: unat_of_nat)

lemma unat_add_below:
  assumes "unat (a :: u64) + unat b \<le> unat (c :: u64)"
  shows "unat (a + b) = unat a + unat b"
proof -
  have "unat a + unat b < 2 ^ LENGTH(64)" using assms unsigned_less [of c, where ?'a = nat] by linarith
  then show ?thesis using unat_add_lem [of a b] by simp
qed

lemma unat_add_small:
  assumes "unat (a :: u64) + unat b < 2 ^ 64"
  shows "unat (a + b) = unat a + unat b"
  using assms unat_add_lem [of a b] by simp

lemma unat_add_of_nat:
  assumes "unat (a :: u64) + k < 2 ^ 64"
  shows "unat (a + of_nat k) = unat a + k"
proof -
  have k: "unat (of_nat k :: u64) = k" using assms by (simp add: unat_of_nat)
  then have "unat a + unat (of_nat k :: u64) < 2 ^ LENGTH(64)" using assms by simp
  then show ?thesis using unat_add_lem [of a "of_nat k"] k by simp
qed

lemma of_nat_u64_eq_iff:
  assumes "a < 2 ^ 64" and "b < 2 ^ 64"
  shows "(of_nat a = (of_nat b :: u64)) = (a = b)"
proof
  assume "of_nat a = (of_nat b :: u64)"
  then have "unat (of_nat a :: u64) = unat (of_nat b :: u64)" by simp
  with assms show "a = b" by (simp add: unat_of_nat)
qed simp

lemma le_add1_u64: "(a :: u64) \<noteq> - 1 \<Longrightarrow> a \<le> a + 1"
  using unat_add1 [of a "- 1"] by (simp add: word_order.not_eq_extremum word_le_nat_alt)

lemma less_add1_u64: "(a :: u64) \<noteq> - 1 \<Longrightarrow> a < a + 1"
  using unat_add1 [of a "- 1"] by (simp add: word_order.not_eq_extremum word_less_nat_alt)

end
