(* ===== verification/Keys.thy ===== *)
theory Keys
  imports Prelude
begin

text \<open>
  The key schema of \<^verbatim>\<open>src/store/format.go\<close>: the key constructors of the chain, state and
  lookup sections, the posting group keys, the \<^verbatim>\<open>split\<close> that cuts a key to its bloom prefix and
  the pinned per-section constants. The lemmas show that the key order inside a group is the
  TxNum order and that \<^verbatim>\<open>split\<close> cuts every well-formed key to the prefix a probe asks for,
  whatever its TxNum suffix.
\<close>

section \<open>Prefixes and bits\<close>

definition StorageVersion :: nat where
  "StorageVersion = 4"

definition PrefixBlk :: bytes where "PrefixBlk = ascii ''blk/''"
definition PrefixHdr :: bytes where "PrefixHdr = ascii ''hdr/''"
definition PrefixItx :: bytes where "PrefixItx = ascii ''itx/''"
definition PrefixPvm :: bytes where "PrefixPvm = ascii ''pvm/''"
definition PrefixRcpt :: bytes where "PrefixRcpt = ascii ''rcpt/''"
definition PrefixTx :: bytes where "PrefixTx = ascii ''tx/''"
definition PrefixCode :: bytes where "PrefixCode = ascii ''code/''"
definition PrefixState :: bytes where "PrefixState = ascii ''state/''"
definition PrefixTxHash :: bytes where "PrefixTxHash = ascii ''txh/''"
definition PrefixBlkHash :: bytes where "PrefixBlkHash = ascii ''blkh/''"
definition PrefixCid :: bytes where "PrefixCid = ascii ''cid/''"
definition PrefixAddr :: bytes where "PrefixAddr = ascii ''addr/''"
definition PrefixELog :: bytes where "PrefixELog = ascii ''elog/''"
definition PrefixTVal :: bytes where "PrefixTVal = ascii ''tval/''"
definition PrefixSig :: bytes where "PrefixSig = ascii ''sig/''"
definition PrefixSet :: bytes where "PrefixSet = ascii ''set/''"

lemmas prefix_defs =
  PrefixBlk_def PrefixHdr_def PrefixItx_def PrefixPvm_def PrefixRcpt_def PrefixTx_def
  PrefixCode_def PrefixState_def PrefixTxHash_def PrefixBlkHash_def PrefixCid_def
  PrefixAddr_def PrefixELog_def PrefixTVal_def PrefixSig_def PrefixSet_def

lemma length_prefixes [simp, key_simps]:
  "length PrefixBlk = 4" "length PrefixHdr = 4" "length PrefixItx = 4" "length PrefixPvm = 4"
  "length PrefixRcpt = 5" "length PrefixTx = 3" "length PrefixCode = 5" "length PrefixState = 6"
  "length PrefixTxHash = 4" "length PrefixBlkHash = 5" "length PrefixCid = 4" "length PrefixAddr = 5"
  "length PrefixELog = 5" "length PrefixTVal = 5" "length PrefixSig = 4" "length PrefixSet = 4"
  by (simp_all add: prefix_defs)

definition Pos1 :: byte where "Pos1 = push_bit 0 1"
definition Pos2 :: byte where "Pos2 = push_bit 1 1"
definition Pos3 :: byte where "Pos3 = push_bit 2 1"

definition RoleSender :: byte where "RoleSender = push_bit 0 1"
definition RoleRecipient :: byte where "RoleRecipient = push_bit 1 1"
definition RoleCreated :: byte where "RoleCreated = push_bit 2 1"
definition RoleEmitter :: byte where "RoleEmitter = push_bit 3 1"
definition RoleFrame :: byte where "RoleFrame = push_bit 4 1"

definition PayloadBits :: "bytes \<Rightarrow> nat" where
  "PayloadBits grp =
     (if HasPrefix grp PrefixAddr then 5
      else if HasPrefix grp PrefixTVal then 3
      else 0)"

section \<open>Key constructors\<close>

definition beU64 :: "u64 \<Rightarrow> bytes" where
  "beU64 n = be64 n"

definition numKey :: "bytes \<Rightarrow> u64 \<Rightarrow> bytes" where
  "numKey pfx n = pfx @ be64 n"

definition BlkKey :: "u64 \<Rightarrow> bytes" where "BlkKey height = numKey PrefixBlk height"
definition HdrKey :: "u64 \<Rightarrow> bytes" where "HdrKey height = numKey PrefixHdr height"
definition ItxKey :: "u64 \<Rightarrow> bytes" where "ItxKey txnum = numKey PrefixItx txnum"
definition PvmKey :: "u64 \<Rightarrow> bytes" where "PvmKey height = numKey PrefixPvm height"
definition RcptKey :: "u64 \<Rightarrow> bytes" where "RcptKey txnum = numKey PrefixRcpt txnum"
definition TxKey :: "u64 \<Rightarrow> bytes" where "TxKey txnum = numKey PrefixTx txnum"
definition TxHashKey :: "bytes \<Rightarrow> bytes" where "TxHashKey h = PrefixTxHash @ h"
definition CodeKey :: "bytes \<Rightarrow> bytes" where "CodeKey hash = PrefixCode @ hash"
definition BlkHashKey :: "bytes \<Rightarrow> bytes" where "BlkHashKey h = PrefixBlkHash @ h"
definition CidKey :: "bytes \<Rightarrow> bytes" where "CidKey cid = PrefixCid @ cid"

definition AccountPrefix :: "bytes \<Rightarrow> bytes" where
  "AccountPrefix addr = PrefixState @ addr @ ascii ''/a/''"

definition CodeRefPrefix :: "bytes \<Rightarrow> bytes" where
  "CodeRefPrefix addr = PrefixState @ addr @ ascii ''/c/''"

definition SlotPrefix :: "bytes \<Rightarrow> bytes \<Rightarrow> bytes" where
  "SlotPrefix addr slot = PrefixState @ addr @ ascii ''/s/'' @ slot @ ascii ''/''"

text \<open>\<^verbatim>\<open>join\<close>: the prefix, then every part closed by a slash.\<close>

fun join_parts :: "bytes list \<Rightarrow> bytes" where
  "join_parts [] = []"
| "join_parts (p # ps) = p @ ascii ''/'' @ join_parts ps"

definition join :: "bytes \<Rightarrow> bytes list \<Rightarrow> bytes" where
  "join pfx parts = pfx @ join_parts parts"

definition AddrPrefix :: "bytes \<Rightarrow> bytes" where "AddrPrefix addr = join PrefixAddr [addr]"
definition ELogPrefix :: "bytes \<Rightarrow> bytes" where "ELogPrefix emitter = join PrefixELog [emitter]"
definition ELogGroup :: "bytes \<Rightarrow> bytes \<Rightarrow> bytes" where
  "ELogGroup emitter topic0 = join PrefixELog [emitter, topic0]"
definition TValPrefix :: "bytes \<Rightarrow> bytes" where "TValPrefix value = join PrefixTVal [value]"
definition TValGroup :: "bytes \<Rightarrow> bytes \<Rightarrow> bytes" where
  "TValGroup value topic0 = join PrefixTVal [value, topic0]"
definition SigGroup :: "bytes \<Rightarrow> bytes" where "SigGroup topic0 = join PrefixSig [topic0]"

definition SetPrefix :: "bytes \<Rightarrow> byte \<Rightarrow> bytes \<Rightarrow> bytes" where
  "SetPrefix topic0 pos value = join PrefixSet [topic0, [pos], value]"

definition SetKey :: "bytes \<Rightarrow> byte \<Rightarrow> bytes \<Rightarrow> bytes \<Rightarrow> bytes" where
  "SetKey topic0 pos value emitter = SetPrefix topic0 pos value @ emitter"

definition setSplit :: nat where
  "setSplit = length PrefixSet + 32 + 1 + 1 + 1 + 32 + 1"

definition setKeyLen :: nat where
  "setKeyLen = setSplit + 20"

definition Suffixed :: "bytes \<Rightarrow> u64 \<Rightarrow> bytes" where
  "Suffixed pfx txnum = pfx @ be64 txnum"

definition TxNumOf :: "bytes \<Rightarrow> u64" where
  "TxNumOf key = get64 (drop (length key - 8) key)"

definition NumOf :: "bytes \<Rightarrow> u64" where
  "NumOf key = get64 (drop (length key - 8) key)"

section \<open>The bloom split\<close>

definition split :: "bytes \<Rightarrow> nat" where
  "split key =
     (if HasPrefix key PrefixState then
        (if length key > 27 \<and> key ! 27 = of_char (CHR ''s'') then
           (if length key \<ge> 62 + 8 then 62 else length key)
         else if length key \<ge> 29 + 8 then 29 else length key)
      else if HasPrefix key PrefixAddr then (if length key \<ge> 26 + 8 then 26 else length key)
      else if HasPrefix key PrefixELog then (if length key \<ge> 26 + 8 then 26 else length key)
      else if HasPrefix key PrefixTVal then (if length key \<ge> 38 + 8 then 38 else length key)
      else if HasPrefix key PrefixSig then (if length key \<ge> 37 + 8 then 37 else length key)
      else if HasPrefix key PrefixSet then (if length key \<ge> setSplit + 20 then setSplit else length key)
      else length key)"

text \<open>What the filter of a table is built from and probed with.\<close>

definition bloom_prefix :: "bytes \<Rightarrow> bytes" where
  "bloom_prefix key = take (split key) key"

section \<open>Sections and their pinned profile\<close>

datatype Section = SecChain | SecState | SecLookup

definition sections :: "Section list" where
  "sections = [SecChain, SecState, SecLookup]"

definition BlockSize :: "Section \<Rightarrow> nat" where
  "BlockSize s = (case s of SecChain \<Rightarrow> 128 * 2 ^ 10 | SecState \<Rightarrow> 32 * 2 ^ 10 | SecLookup \<Rightarrow> 8 * 2 ^ 10)"

definition indexBlockSize :: "Section \<Rightarrow> nat" where
  "indexBlockSize s = max (64 * 2 ^ 10) (2 * BlockSize s)"

text \<open>The bloom gate: a section without a filter may hold anything.\<close>

definition mayContain :: "(bytes \<Rightarrow> bool) option \<Rightarrow> bytes \<Rightarrow> bool" where
  "mayContain flt key = (case flt of None \<Rightarrow> True | Some may \<Rightarrow> may (bloom_prefix key))"

section \<open>Facts about keys\<close>

lemma key_lengths [simp, key_simps]:
  "length (numKey p n) = length p + 8"
  "length (Suffixed p n) = length p + 8"
  "length (AccountPrefix a) = 9 + length a"
  "length (CodeRefPrefix a) = 9 + length a"
  "length (SlotPrefix a s) = 10 + length a + length s"
  "length (AddrPrefix a) = 6 + length a"
  "length (ELogPrefix a) = 6 + length a"
  "length (ELogGroup a t) = 7 + length a + length t"
  "length (TValPrefix v) = 6 + length v"
  "length (TValGroup v t) = 7 + length v + length t"
  "length (SigGroup t) = 5 + length t"
  "length (SetPrefix t pos v) = 8 + length t + length v"
  by (simp_all add: numKey_def Suffixed_def AccountPrefix_def CodeRefPrefix_def SlotPrefix_def join_def
      AddrPrefix_def ELogPrefix_def ELogGroup_def TValPrefix_def TValGroup_def SigGroup_def SetPrefix_def)

lemma TxNumOf_Suffixed [simp]: "TxNumOf (Suffixed p n) = n"
  using get64_be64 [of n "[]"] by (simp add: TxNumOf_def Suffixed_def)

lemma TxNumOf_numKey [simp]: "TxNumOf (numKey p n) = n"
  using get64_be64 [of n "[]"] by (simp add: TxNumOf_def numKey_def)

lemma Suffixed_less_iff [simp]: "(Suffixed p a < Suffixed p b) = (a < b)"
  by (simp add: Suffixed_def)

lemma Suffixed_inject [simp]: "(Suffixed p a = Suffixed q b) = (p = q \<and> a = b)"
  unfolding Suffixed_def by (metis append_eq_append_conv be64_inject length_be64)

lemma numKey_less_iff [simp]: "(numKey p a < numKey p b) = (a < b)"
  by (simp add: numKey_def)

lemma numKey_inject [simp]: "(numKey p a = numKey q b) = (p = q \<and> a = b)"
  unfolding numKey_def by (metis append_eq_append_conv be64_inject length_be64)

text \<open>
  The literal heads decide \<^verbatim>\<open>split\<close>'s first test: no key of one family starts with the
  prefix of another.
\<close>

lemma HasPrefix_families [simp, key_simps]:
  "HasPrefix (PrefixState @ x) PrefixState"
  "HasPrefix (PrefixAddr @ x) PrefixAddr" "\<not> HasPrefix (PrefixAddr @ x) PrefixState"
  "HasPrefix (PrefixELog @ x) PrefixELog" "\<not> HasPrefix (PrefixELog @ x) PrefixState"
  "\<not> HasPrefix (PrefixELog @ x) PrefixAddr"
  "HasPrefix (PrefixTVal @ x) PrefixTVal" "\<not> HasPrefix (PrefixTVal @ x) PrefixState"
  "\<not> HasPrefix (PrefixTVal @ x) PrefixAddr" "\<not> HasPrefix (PrefixTVal @ x) PrefixELog"
  "HasPrefix (PrefixSig @ x) PrefixSig" "\<not> HasPrefix (PrefixSig @ x) PrefixState"
  "\<not> HasPrefix (PrefixSig @ x) PrefixAddr" "\<not> HasPrefix (PrefixSig @ x) PrefixELog"
  "\<not> HasPrefix (PrefixSig @ x) PrefixTVal"
  "HasPrefix (PrefixSet @ x) PrefixSet" "\<not> HasPrefix (PrefixSet @ x) PrefixState"
  "\<not> HasPrefix (PrefixSet @ x) PrefixAddr" "\<not> HasPrefix (PrefixSet @ x) PrefixELog"
  "\<not> HasPrefix (PrefixSet @ x) PrefixTVal" "\<not> HasPrefix (PrefixSet @ x) PrefixSig"
  by (simp_all add: HasPrefix_def prefix_defs ascii_def)

lemma split_other [simp]:
  "split (PrefixTxHash @ x) = 4 + length x"
  "split (PrefixBlkHash @ x) = 5 + length x"
  "split (PrefixCid @ x) = 4 + length x"
  "split (PrefixCode @ x) = 5 + length x"
  by (simp_all add: split_def HasPrefix_def prefix_defs ascii_def)

lemma nth_state_shape: "length a = 20 \<Longrightarrow> (PrefixState @ a @ x # y # z) ! 27 = y"
  by (simp add: nth_append)

lemma split_state:
  assumes "length addr = 20"
  shows "split (Suffixed (AccountPrefix addr) n) = length (AccountPrefix addr)"
    and "split (Suffixed (CodeRefPrefix addr) n) = length (CodeRefPrefix addr)"
    and "length slot = 32 \<Longrightarrow> split (Suffixed (SlotPrefix addr slot) n) = length (SlotPrefix addr slot)"
  using assms
  by (simp_all add: split_def Suffixed_def AccountPrefix_def CodeRefPrefix_def SlotPrefix_def
      ascii_def nth_state_shape)

lemma split_posting:
  shows "length addr = 20 \<Longrightarrow> split (Suffixed (AddrPrefix addr) n) = length (AddrPrefix addr)"
    and "length emitter = 20 \<Longrightarrow> split (Suffixed (ELogPrefix emitter @ r) n) = length (ELogPrefix emitter)"
    and "length val = 32 \<Longrightarrow> split (Suffixed (TValPrefix val @ r) n) = length (TValPrefix val)"
    and "length topic0 = 32 \<Longrightarrow> split (Suffixed (SigGroup topic0) n) = length (SigGroup topic0)"
  by (simp_all add: split_def Suffixed_def AddrPrefix_def ELogPrefix_def TValPrefix_def SigGroup_def join_def)

lemma split_set:
  "\<lbrakk> length topic0 = 32; length val = 32; length emitter = 20 \<rbrakk>
     \<Longrightarrow> split (SetKey topic0 pos val emitter) = length (SetPrefix topic0 pos val)"
  by (simp add: split_def SetKey_def SetPrefix_def join_def setSplit_def)

lemma ELogGroup_prefix: "ELogGroup e t = ELogPrefix e @ t @ ascii ''/''"
  by (simp add: ELogGroup_def ELogPrefix_def join_def)

lemma TValGroup_prefix: "TValGroup v t = TValPrefix v @ t @ ascii ''/''"
  by (simp add: TValGroup_def TValPrefix_def join_def)

lemma bloom_prefix_take: "split (p @ x) = length p \<Longrightarrow> bloom_prefix (p @ x) = p"
  by (simp add: bloom_prefix_def)

text \<open>
  C22. Whatever its TxNum, a well-formed key of a suffixed family is cut by \<^verbatim>\<open>split\<close> to the
  prefix that a probe for its account, slot, address, emitter, value, signature or set triple
  is built from, so two keys of one group share their bloom entry.
\<close>

theorem bloom_prefix_families:
  assumes "length addr = 20" and "length slot = 32" and "length topic0 = 32" and "length val = 32"
  shows "bloom_prefix (Suffixed (AccountPrefix addr) n) = AccountPrefix addr
    \<and> bloom_prefix (Suffixed (CodeRefPrefix addr) n) = CodeRefPrefix addr
    \<and> bloom_prefix (Suffixed (SlotPrefix addr slot) n) = SlotPrefix addr slot
    \<and> bloom_prefix (Suffixed (AddrPrefix addr) n) = AddrPrefix addr
    \<and> bloom_prefix (Suffixed (ELogGroup addr topic0) n) = ELogPrefix addr
    \<and> bloom_prefix (Suffixed (TValGroup val topic0) n) = TValPrefix val
    \<and> bloom_prefix (Suffixed (SigGroup topic0) n) = SigGroup topic0
    \<and> bloom_prefix (SetKey topic0 pos val addr) = SetPrefix topic0 pos val"
  using split_state [OF assms(1)] split_set assms split_posting(1,4)
    split_posting(2) [of addr "topic0 @ ascii ''/''" n] split_posting(3) [of val "topic0 @ ascii ''/''" n]
  by (simp add: bloom_prefix_def ELogGroup_prefix TValGroup_prefix Suffixed_def SetKey_def)

theorem bloom_prefix_families_witness:
  "bloom_prefix (Suffixed (AccountPrefix (replicate 20 7)) 5) = AccountPrefix (replicate 20 7)
   \<and> bloom_prefix (SetKey (replicate 32 1) 2 (replicate 32 3) (replicate 20 7))
      = SetPrefix (replicate 32 1) 2 (replicate 32 3)"
  using bloom_prefix_families [of "replicate 20 7" "replicate 32 9" "replicate 32 1" "replicate 32 3" 5 2]
  by simp

end
