(* ===== verification/EF.thy ===== *)
theory EF
  imports Prelude
begin

text \<open>
  The posting chunk codec of \<^verbatim>\<open>src/store/ef/ef.go\<close>: a sorted list of TxNums as a plain
  Elias-Fano sequence with a fixed-width payload per entry. \<open>Encode\<close> writes through the bit
  writer (\<open>set\<close>, \<open>pad\<close>, \<open>put\<close>), \<open>Decode\<close> reads through the bit reader (\<open>next\<close>, \<open>get\<close>); both are
  modelled byte for byte. The lemmas describe a buffer by its bits (\<open>bitAt\<close>) and lead to the round
  trip, to the size of the upper vector and to what a corrupt chunk does.
\<close>

section \<open>Varints (\<^verbatim>\<open>encoding/binary\<close>)\<close>

function AppendUvarint :: "bytes \<Rightarrow> u64 \<Rightarrow> bytes" where
  "AppendUvarint out x =
     (if 0x80 \<le> x then AppendUvarint (out @ [ucast x OR 0x80]) (drop_bit 7 x) else out @ [ucast x])"
  by pat_completeness auto
termination
proof (relation "measure (\<lambda>(out, x). unat x)", simp)
  fix out and x :: u64
  assume "0x80 \<le> x"
  then have "128 \<le> unat x" by (simp add: word_le_nat_alt)
  then have "unat x div 128 < unat x" by (intro div_less_dividend) simp_all
  then show "((out @ [ucast x OR 0x80], drop_bit 7 x), out, x) \<in> measure (\<lambda>(out, x). unat x)"
    by (simp only: in_measure prod.case unat_drop_bit) simp
qed

declare AppendUvarint.simps [simp del]

text \<open>\<open>None\<close> is Go's \<open>k \<le> 0\<close>: the buffer ends inside the number, or the number overflows.\<close>

fun uvarint_loop :: "bytes \<Rightarrow> nat \<Rightarrow> u64 \<Rightarrow> nat \<Rightarrow> (u64 \<times> nat) option" where
  "uvarint_loop [] i x s = None"
| "uvarint_loop (b # buf) i x s =
     (if i = 10 then None
      else if b < 0x80 then
        (if i = 9 \<and> b > 1 then None else Some (x OR push_bit s (ucast b), i + 1))
      else uvarint_loop buf (i + 1) (x OR push_bit s (ucast (b AND 0x7f))) (s + 7))"

definition Uvarint :: "bytes \<Rightarrow> (u64 \<times> nat) option" where
  "Uvarint buf = uvarint_loop buf 0 0 0"

section \<open>The bit writer\<close>

record writer =
  wbuf :: bytes
  wbits :: nat
  wbase :: nat
  wones :: nat

definition set_base :: "writer \<Rightarrow> writer" where
  "set_base w = (if wbase w = 0 then w\<lparr>wbase := length (wbuf w)\<rparr> else w)"

text \<open>\<open>for len(buf) < n { buf = append(buf, 0) }\<close>\<close>

definition grow :: "nat \<Rightarrow> bytes \<Rightarrow> bytes" where
  "grow n buf = buf @ replicate (n - length buf) 0"

definition w_set :: "writer \<Rightarrow> nat \<Rightarrow> writer" where
  "w_set w0 i =
     (let w = set_base w0;
          buf = grow (wbase w + i div 8 + 1) (wbuf w);
          j = wbase w + i div 8
      in w\<lparr>wbuf := buf[j := buf ! j OR push_bit (i mod 8) 1],
           wbits := (if i + 1 > wbits w then i + 1 else wbits w)\<rparr>)"

definition w_pad :: "writer \<Rightarrow> nat \<Rightarrow> writer" where
  "w_pad w0 n =
     (let w = set_base w0; buf = grow (wbase w + (n + 7) div 8) (wbuf w)
      in w\<lparr>wbuf := buf, wbits := length buf * 8\<rparr>)"

definition w_put_bit :: "writer \<Rightarrow> bool \<Rightarrow> writer" where
  "w_put_bit w b =
     (let buf = (if wbits w mod 8 = 0 then wbuf w @ [0] else wbuf w);
          j = wbits w div 8
      in w\<lparr>wbuf := (if b then buf[j := buf ! j OR push_bit (wbits w mod 8) 1] else buf),
           wbits := wbits w + 1\<rparr>)"

fun w_put_from :: "writer \<Rightarrow> u64 \<Rightarrow> nat \<Rightarrow> nat \<Rightarrow> writer" where
  "w_put_from w x k 0 = w"
| "w_put_from w x k (Suc n) = w_put_from (w_put_bit w (bit x k)) x (k + 1) n"

definition w_put :: "writer \<Rightarrow> u64 \<Rightarrow> nat \<Rightarrow> writer" where
  "w_put w x nbits = w_put_from w x 0 nbits"

section \<open>The bit reader\<close>

record reader =
  rbuf :: bytes
  rbit :: nat

definition r_next :: "reader \<Rightarrow> (bool \<times> reader) option" where
  "r_next r =
     (if rbit r div 8 \<ge> length (rbuf r) then None
      else Some (bit (rbuf r ! (rbit r div 8)) (rbit r mod 8), r\<lparr>rbit := rbit r + 1\<rparr>))"

fun r_get_from :: "reader \<Rightarrow> u64 \<Rightarrow> nat \<Rightarrow> nat \<Rightarrow> (u64 \<times> reader) option" where
  "r_get_from r x k 0 = Some (x, r)"
| "r_get_from r x k (Suc n) =
     (case r_next r of
        None \<Rightarrow> None
      | Some (b, r') \<Rightarrow> r_get_from r' (if b then x OR push_bit k 1 else x) (k + 1) n)"

definition r_get :: "reader \<Rightarrow> nat \<Rightarrow> (u64 \<times> reader) option" where
  "r_get r nbits = r_get_from r 0 0 nbits"

section \<open>Encode\<close>

definition MaxEntries :: nat where
  "MaxEntries = 4096"

text \<open>\<^verbatim>\<open>bits.Len64\<close>: the number of bits needed to write \<open>x\<close>.\<close>

fun bit_len_from :: "u64 \<Rightarrow> nat \<Rightarrow> nat" where
  "bit_len_from x 0 = 0"
| "bit_len_from x (Suc n) = (if bit x n then Suc n else bit_len_from x n)"

definition Len64 :: "u64 \<Rightarrow> nat" where
  "Len64 x = bit_len_from x 64"

definition ef_span :: "u64 \<Rightarrow> u64 list \<Rightarrow> u64" where
  "ef_span base txnums = (if txnums = [] then 0 else last txnums - base)"

definition ef_low :: "u64 \<Rightarrow> u64 list \<Rightarrow> nat" where
  "ef_low base txnums =
     (let n = length txnums; q = ef_span base txnums div of_nat n
      in if n > 0 \<and> q > 0 then Len64 q else 0)"

fun set_uppers :: "writer \<Rightarrow> u64 \<Rightarrow> nat \<Rightarrow> u64 list \<Rightarrow> writer" where
  "set_uppers w base low [] = w"
| "set_uppers w base low (t # ts) =
     (let hi = drop_bit low (t - base); w' = w_set w (unat hi + wones w)
      in set_uppers (w'\<lparr>wones := wones w' + 1\<rparr>) base low ts)"

fun put_lowers :: "writer \<Rightarrow> u64 \<Rightarrow> nat \<Rightarrow> u64 list \<Rightarrow> writer" where
  "put_lowers w base low [] = w"
| "put_lowers w base low (t # ts) =
     put_lowers (w_put w ((t - base) AND (push_bit low 1 - 1)) low) base low ts"

fun put_payload :: "writer \<Rightarrow> byte list \<Rightarrow> nat \<Rightarrow> writer" where
  "put_payload w [] pb = w"
| "put_payload w (p # ps) pb = put_payload (w_put w (ucast p) pb) ps pb"

definition ef_header :: "nat \<Rightarrow> nat \<Rightarrow> nat \<Rightarrow> bytes" where
  "ef_header n low pb =
     AppendUvarint (AppendUvarint (AppendUvarint [] (of_nat n)) (of_nat low)) (of_nat pb)"

text \<open>
  The loop over the payload reads \<open>payload[i]\<close> for every \<open>i < n\<close>, so a payload shorter than the
  TxNums is an index panic when payload bits are asked for.
\<close>

definition Encode :: "u64 \<Rightarrow> u64 list \<Rightarrow> byte list \<Rightarrow> nat \<Rightarrow> bytes res" where
  "Encode base txnums payload payloadBits =
     (let n = length txnums;
          span = ef_span base txnums;
          low = ef_low base txnums;
          upperLen = unat (drop_bit low span) + n;
          w0 = \<lparr>wbuf = ef_header n low payloadBits, wbits = 0, wbase = 0, wones = 0\<rparr>;
          w1 = w_pad (set_uppers w0 base low txnums) upperLen;
          w2 = put_lowers w1 base low txnums
      in if payloadBits > 0 \<and> length payload < n then Inl GoPanic
         else Inr (wbuf (if payloadBits > 0 then put_payload w2 (take n payload) payloadBits else w2)))"

section \<open>Decode\<close>

definition reader_left :: "reader \<Rightarrow> nat" where
  "reader_left r = length (rbuf r) * 8 - rbit r"

lemma r_next_left: "r_next r = Some (b, r') \<Longrightarrow> reader_left r' < reader_left r"
  by (auto simp: r_next_def reader_left_def split: if_splits)

text \<open>One entry of the upper vector: count zero bits up to the next one bit.\<close>

function skip_zeros :: "reader \<Rightarrow> u64 \<Rightarrow> (u64 \<times> reader) option" where
  "skip_zeros r hi =
     (case r_next r of
        None \<Rightarrow> None
      | Some (b, r') \<Rightarrow> if b then Some (hi, r') else skip_zeros r' (hi + 1))"
  by pat_completeness auto
termination
  by (relation "measure (\<lambda>(r, hi). reader_left r)") (auto intro: r_next_left)

declare skip_zeros.simps [simp del]

fun read_uppers :: "nat \<Rightarrow> reader \<Rightarrow> u64 \<Rightarrow> (u64 list \<times> reader) option" where
  "read_uppers 0 r hi = Some ([], r)"
| "read_uppers (Suc n) r hi =
     (case skip_zeros r hi of
        None \<Rightarrow> None
      | Some (h, r') \<Rightarrow> map_option (\<lambda>(hs, r''). (h # hs, r'')) (read_uppers n r' h))"

text \<open>\<open>low\<close> is \<open>None\<close> when the stored count is negative as a Go int: the shift then panics.\<close>

fun read_lowers :: "u64 \<Rightarrow> nat option \<Rightarrow> reader \<Rightarrow> u64 list \<Rightarrow> (u64 list \<times> reader) res" where
  "read_lowers base low r [] = Inr ([], r)"
| "read_lowers base None r (h # hs) = Inl GoPanic"
| "read_lowers base (Some low) r (h # hs) =
     (case r_get r low of
        None \<Rightarrow> Inl EfCorrupt
      | Some (lo, r') \<Rightarrow>
          (case read_lowers base (Some low) r' hs of
             Inl e \<Rightarrow> Inl e
           | Inr (ts, r'') \<Rightarrow> Inr ((base + push_bit low h + lo) # ts, r'')))"

fun read_payload :: "nat \<Rightarrow> nat \<Rightarrow> reader \<Rightarrow> byte list res" where
  "read_payload pb 0 r = Inr []"
| "read_payload pb (Suc n) r =
     (case r_get r pb of
        None \<Rightarrow> Inl EfCorrupt
      | Some (p, r') \<Rightarrow>
          (case read_payload pb n r' of Inl e \<Rightarrow> Inl e | Inr ps \<Rightarrow> Inr (ucast p # ps)))"

definition go_int :: "u64 \<Rightarrow> int" where
  "go_int x = sint x"

text \<open>The payload is \<open>None\<close> where the Go function returns a nil slice.\<close>

definition Decode :: "u64 \<Rightarrow> bytes \<Rightarrow> (u64 list \<times> byte list option) res" where
  "Decode base v =
     (case Uvarint v of None \<Rightarrow> Inl EfCorrupt | Some (n64, k1) \<Rightarrow>
      case Uvarint (drop k1 v) of None \<Rightarrow> Inl EfCorrupt | Some (low64, k2) \<Rightarrow>
      case Uvarint (drop (k1 + k2) v) of None \<Rightarrow> Inl EfCorrupt | Some (pb64, k3) \<Rightarrow>
      let n = go_int n64; low = go_int low64; pb = go_int pb64 in
      if n > int MaxEntries \<or> low > 64 \<or> pb > 8 then Inl EfCorrupt
      else if n < 0 then Inl GoPanic
      else
        (case read_uppers (nat n) \<lparr>rbuf = v, rbit = (k1 + k2 + k3) * 8\<rparr> 0 of
           None \<Rightarrow> Inl EfCorrupt
         | Some (his, r) \<Rightarrow>
             (case read_lowers base (if low < 0 then None else Some (nat low))
                     (r\<lparr>rbit := (rbit r + 7) div 8 * 8\<rparr>) his of
                Inl e \<Rightarrow> Inl e
              | Inr (txnums, r') \<Rightarrow>
                  if pb > 0 then
                    (case read_payload (nat pb) (nat n) r' of
                       Inl e \<Rightarrow> Inl e
                     | Inr ps \<Rightarrow> Inr (txnums, Some ps))
                  else Inr (txnums, None))))"

section \<open>Buffers as bits\<close>

definition bitAt :: "bytes \<Rightarrow> nat \<Rightarrow> bool" where
  "bitAt buf p = (p < 8 * length buf \<and> bit (buf ! (p div 8)) (p mod 8))"

lemma bitAt_append_zeros [simp]: "bitAt (buf @ replicate n 0) p = bitAt buf p"
proof (cases "p < 8 * length buf")
  case True
  then have "p div 8 < length buf" by auto
  with True show ?thesis by (simp add: bitAt_def nth_append)
next
  case False
  then have "length buf \<le> p div 8" by auto
  with False show ?thesis by (auto simp: bitAt_def nth_append)
qed

lemma bitAt_snoc_zero [simp]: "bitAt (buf @ [0]) p = bitAt buf p"
  using bitAt_append_zeros [of buf 1 p] by simp

lemma bitAt_grow [simp]: "bitAt (grow n buf) p = bitAt buf p"
  by (simp add: grow_def)

lemma length_grow [simp]: "length (grow n buf) = max n (length buf)"
  by (simp add: grow_def)

lemma bit_or_single: "m < 8 \<Longrightarrow> bit ((x :: byte) OR 2 ^ m) k = (bit x k \<or> k = m)"
  by (auto simp: bit_simps)

lemma bitAt_set:
  assumes "j < length buf" and "m < 8"
  shows "bitAt (buf[j := buf ! j OR 2 ^ m]) p = (bitAt buf p \<or> p = 8 * j + m)"
proof (cases "p div 8 = j")
  case True
  then have "p = 8 * j + p mod 8" by (metis div_mult_mod_eq mult.commute)
  then have eq: "(p = 8 * j + m) = (p mod 8 = m)" by linarith
  from True assms(1) have "p < 8 * length buf" by auto
  with True assms show ?thesis
    unfolding eq by (auto simp: bitAt_def bit_or_single)
next
  case False
  with assms(2) have "p \<noteq> 8 * j + m" by auto
  with False show ?thesis by (simp add: bitAt_def)
qed

section \<open>The writer by bits\<close>

definition upper_base :: "writer \<Rightarrow> nat" where
  "upper_base w = (if wbase w = 0 then length (wbuf w) else wbase w)"

lemma bitAt_w_set:
  "bitAt (wbuf (w_set w i)) p = (bitAt (wbuf w) p \<or> p = 8 * upper_base w + i)"
proof -
  have "8 * (upper_base w + i div 8) + i mod 8 = 8 * upper_base w + i" by simp
  then show ?thesis
    by (simp add: w_set_def set_base_def Let_def upper_base_def bitAt_set add.commute)
qed

lemma w_set_simps [simp]:
  "wones (w_set w i) = wones w"
  "length (wbuf (w_set w i)) = max (upper_base w + i div 8 + 1) (length (wbuf w))"
  by (simp_all add: w_set_def set_base_def Let_def upper_base_def)

lemma upper_base_w_set [simp]: "0 < length (wbuf w) \<Longrightarrow> upper_base (w_set w i) = upper_base w"
  by (auto simp: w_set_def set_base_def Let_def upper_base_def)

lemma upper_base_ones [simp]: "upper_base (w\<lparr>wones := x\<rparr>) = upper_base w"
  by (simp add: upper_base_def)

lemma set_uppers_spec:
  assumes "0 < length (wbuf w)"
  shows "bitAt (wbuf (set_uppers w base low ts)) p =
           (bitAt (wbuf w) p \<or> (\<exists>i < length ts. p = 8 * upper_base w + (unat (drop_bit low (ts ! i - base)) + wones w + i)))
       \<and> upper_base (set_uppers w base low ts) = upper_base w
       \<and> length (wbuf w) \<le> length (wbuf (set_uppers w base low ts))"
  using assms
proof (induction ts arbitrary: w)
  case Nil
  then show ?case by simp
next
  case (Cons t ts)
  let ?w = "w_set w (unat (drop_bit low (t - base)) + wones w)\<lparr>wones := wones w + 1\<rparr>"
  have ub: "upper_base ?w = upper_base w"
    using Cons.prems by simp
  have IH: "bitAt (wbuf (set_uppers ?w base low ts)) p =
      (bitAt (wbuf ?w) p \<or> (\<exists>i < length ts. p = 8 * upper_base w + (unat (drop_bit low (ts ! i - base)) + (wones w + 1) + i)))
      \<and> upper_base (set_uppers ?w base low ts) = upper_base w
      \<and> length (wbuf ?w) \<le> length (wbuf (set_uppers ?w base low ts))"
    using Cons.IH [of ?w] Cons.prems ub by simp
  then show ?case
    by (auto simp: Let_def bitAt_w_set Ex_less_Suc2)
qed

lemma set_uppers_length:
  assumes "0 < length (wbuf w)" and "\<And>i. i < length ts \<Longrightarrow> unat (drop_bit low (ts ! i - base)) + wones w + i < u"
  shows "length (wbuf (set_uppers w base low ts)) \<le> max (length (wbuf w)) (upper_base w + (u + 7) div 8)"
  using assms
proof (induction ts arbitrary: w)
  case Nil
  then show ?case by simp
next
  case (Cons t ts)
  let ?i = "unat (drop_bit low (t - base)) + wones w"
  let ?w = "w_set w ?i\<lparr>wones := wones w + 1\<rparr>"
  have ub: "upper_base ?w = upper_base w"
    using Cons.prems(1) by simp
  have "?i < u" using Cons.prems(2) [of 0] by simp
  then have "upper_base w + ?i div 8 + 1 \<le> upper_base w + (u + 7) div 8" by linarith
  moreover have "length (wbuf (set_uppers ?w base low ts)) \<le> max (length (wbuf ?w)) (upper_base ?w + (u + 7) div 8)"
  proof (rule Cons.IH)
    show "0 < length (wbuf ?w)" by simp
  next
    fix i assume "i < length ts"
    then show "unat (drop_bit low (ts ! i - base)) + wones ?w + i < u"
      using Cons.prems(2) [of "Suc i"] by simp
  qed
  ultimately show ?case unfolding ub by (simp add: Let_def)
qed


lemma w_pad_spec:
  shows "bitAt (wbuf (w_pad w n)) p = bitAt (wbuf w) p"
    and "length (wbuf (w_pad w n)) = max (upper_base w + (n + 7) div 8) (length (wbuf w))"
    and "wbits (w_pad w n) = 8 * length (wbuf (w_pad w n))"
  by (simp_all add: w_pad_def set_base_def Let_def upper_base_def)

text \<open>The state between two \<open>put\<close>s: the buffer is as long as its bits need and clear past them.\<close>

definition put_inv :: "writer \<Rightarrow> bool" where
  "put_inv w = (length (wbuf w) = (wbits w + 7) div 8 \<and> (\<forall>p \<ge> wbits w. \<not> bitAt (wbuf w) p))"

lemma ceil_div_8: "((n :: nat) + 7) div 8 = n div 8 + (if n mod 8 = 0 then 0 else 1)"
proof -
  obtain q r where n: "n = r + 8 * q" and r: "r < 8"
    by (metis mod_mult_div_eq mod_less_divisor zero_less_numeral)
  have "(n + 7) div 8 = q + (r + 7) div 8" unfolding n
    by (metis add.assoc add.commute div_mult_self2 zero_neq_numeral)
  moreover have "(r + 7) div 8 = (if r = 0 then 0 else 1)" using r by auto
  ultimately show ?thesis using r by (simp add: n)
qed

lemma w_put_bit_spec:
  assumes "put_inv w"
  shows "put_inv (w_put_bit w b)"
    and "wbits (w_put_bit w b) = wbits w + 1"
    and "bitAt (wbuf (w_put_bit w b)) p = (bitAt (wbuf w) p \<or> b \<and> p = wbits w)"
proof -
  let ?buf = "if wbits w mod 8 = 0 then wbuf w @ [0] else wbuf w"
  have len: "length (wbuf w) = (wbits w + 7) div 8" using assms by (simp add: put_inv_def)
  have len': "length ?buf = (wbits w + 8) div 8"
    using len by (simp add: ceil_div_8 div_add_self2)
  have j: "wbits w div 8 < length ?buf" using len' by simp
  have pos: "8 * (wbits w div 8) + wbits w mod 8 = wbits w" by simp
  have *: "bitAt (wbuf (w_put_bit w b)) q = (bitAt (wbuf w) q \<or> b \<and> q = wbits w)" for q
    using bitAt_set [OF j, of "wbits w mod 8" q, unfolded pos]
    by (cases b; cases "wbits w mod 8 = 0") (simp_all add: w_put_bit_def Let_def)
  then show "bitAt (wbuf (w_put_bit w b)) p = (bitAt (wbuf w) p \<or> b \<and> p = wbits w)" .
  show "wbits (w_put_bit w b) = wbits w + 1"
    by (simp add: w_put_bit_def Let_def)
  moreover have "length (wbuf (w_put_bit w b)) = (wbits w + 1 + 7) div 8"
    using len' by (simp add: w_put_bit_def Let_def)
  ultimately show "put_inv (w_put_bit w b)"
    using assms * by (simp add: put_inv_def)
qed

lemma w_put_from_spec:
  assumes "put_inv w"
  shows "put_inv (w_put_from w x k n) \<and> wbits (w_put_from w x k n) = wbits w + n
    \<and> (\<forall>p. bitAt (wbuf (w_put_from w x k n)) p = (bitAt (wbuf w) p \<or> (\<exists>j < n. p = wbits w + j \<and> bit x (k + j))))"
  using assms
proof (induction n arbitrary: w k)
  case 0
  then show ?case by simp
next
  case (Suc n)
  note step = w_put_bit_spec [OF Suc.prems, of "bit x k"]
  show ?case
    using Suc.IH [OF step(1), of "k + 1"] step(2,3)
    by (simp add: Ex_less_Suc2 disj_ac conj_commute)
qed

text \<open>Writing a list of equally wide numbers, which both \<open>put\<close> loops of \<open>Encode\<close> are.\<close>

fun put_all :: "writer \<Rightarrow> u64 list \<Rightarrow> nat \<Rightarrow> writer" where
  "put_all w [] nb = w"
| "put_all w (x # xs) nb = put_all (w_put w x nb) xs nb"

lemma put_lowers_all:
  "put_lowers w base low ts = put_all w (map (\<lambda>t. (t - base) AND (push_bit low 1 - 1)) ts) low"
  by (induction ts arbitrary: w) simp_all

lemma put_payload_all: "put_payload w ps pb = put_all w (map ucast ps) pb"
  by (induction ps arbitrary: w) simp_all

lemma put_all_spec:
  assumes "put_inv w"
  shows "put_inv (put_all w xs nb) \<and> wbits (put_all w xs nb) = wbits w + length xs * nb
    \<and> (\<forall>p < wbits w. bitAt (wbuf (put_all w xs nb)) p = bitAt (wbuf w) p)
    \<and> (\<forall>i < length xs. \<forall>j < nb. bitAt (wbuf (put_all w xs nb)) (wbits w + i * nb + j) = bit (xs ! i) j)"
  using assms
proof (induction xs arbitrary: w)
  case Nil
  then show ?case by simp
next
  case (Cons x xs)
  have step: "put_inv (w_put w x nb)" "wbits (w_put w x nb) = wbits w + nb"
    "\<And>p. bitAt (wbuf (w_put w x nb)) p = (bitAt (wbuf w) p \<or> (\<exists>j < nb. p = wbits w + j \<and> bit x j))"
    using w_put_from_spec [OF Cons.prems, of x 0 nb] by (simp_all add: w_put_def)
  have clear: "\<not> bitAt (wbuf w) (wbits w + j)" for j
    using Cons.prems by (simp add: put_inv_def)
  note IH = Cons.IH [OF step(1), unfolded step(2)]
  show ?case
  proof (intro conjI allI impI)
    fix i j assume "i < length (x # xs)" "j < nb"
    then show "bitAt (wbuf (put_all w (x # xs) nb)) (wbits w + i * nb + j) = bit ((x # xs) ! i) j"
      using IH by (cases i) (auto simp: step(3) clear clear [unfolded add.commute [of "wbits w"]] algebra_simps)
  qed (use IH step(3) in auto)
qed


section \<open>The reader by bits\<close>

lemma r_next_bitAt:
  "rbit r < 8 * length (rbuf r) \<Longrightarrow> r_next r = Some (bitAt (rbuf r) (rbit r), r\<lparr>rbit := rbit r + 1\<rparr>)"
  by (auto simp: r_next_def bitAt_def)

lemma r_get_from_spec:
  assumes "rbit r + n \<le> 8 * length (rbuf r)" and "k + n \<le> 64"
    and "\<And>j. j < n \<Longrightarrow> bitAt (rbuf r) (rbit r + j) = bit v (k + j)"
    and "x = take_bit k v"
  shows "r_get_from r x k n = Some (take_bit (k + n) v, r\<lparr>rbit := rbit r + n\<rparr>)"
  using assms
proof (induction n arbitrary: r x k)
  case 0
  then show ?case by simp
next
  case (Suc n)
  have next_r: "r_next r = Some (bit v k, r\<lparr>rbit := rbit r + 1\<rparr>)"
    using r_next_bitAt [of r] Suc.prems(1) Suc.prems(3) [of 0] by simp
  have step: "(if bit v k then x OR push_bit k 1 else x) = take_bit (k + 1) v"
    unfolding Suc.prems(4) by (rule bit_word_eqI) (auto simp: bit_simps less_Suc_eq)
  let ?r = "r\<lparr>rbit := rbit r + 1\<rparr>"
  have "r_get_from ?r (take_bit (k + 1) v) (k + 1) n = Some (take_bit (k + 1 + n) v, ?r\<lparr>rbit := rbit ?r + n\<rparr>)"
  proof (rule Suc.IH)
    fix j assume "j < n"
    then show "bitAt (rbuf ?r) (rbit ?r + j) = bit v (k + 1 + j)"
      using Suc.prems(3) [of "Suc j"] by simp
  qed (use Suc.prems in simp_all)
  then show ?case by (simp add: next_r step del: push_bit_of_1)
qed

lemma r_get_spec:
  assumes "rbit r + n \<le> 8 * length (rbuf r)" and "n \<le> 64"
    and "\<And>j. j < n \<Longrightarrow> bitAt (rbuf r) (rbit r + j) = bit v j"
  shows "r_get r n = Some (take_bit n v, r\<lparr>rbit := rbit r + n\<rparr>)"
  using r_get_from_spec [of r n 0 v 0] assms by (simp add: r_get_def)

text \<open>Reading back a list of equally wide numbers.\<close>

lemma read_lowers_spec:
  assumes "rbit r + length ds * low \<le> 8 * length (rbuf r)" and "low \<le> 64"
    and "\<And>i j. i < length ds \<Longrightarrow> j < low \<Longrightarrow> bitAt (rbuf r) (rbit r + i * low + j) = bit (ds ! i) j"
  shows "read_lowers base (Some low) r (map (drop_bit low) ds)
    = Inr (map (\<lambda>d. base + d) ds, r\<lparr>rbit := rbit r + length ds * low\<rparr>)"
  using assms
proof (induction ds arbitrary: r)
  case Nil
  then show ?case by simp
next
  case (Cons d ds)
  have g: "r_get r low = Some (take_bit low d, r\<lparr>rbit := rbit r + low\<rparr>)"
    using Cons.prems(1,2) Cons.prems(3) [of 0] by (intro r_get_spec) simp_all
  have IH: "read_lowers base (Some low) (r\<lparr>rbit := rbit r + low\<rparr>) (map (drop_bit low) ds)
      = Inr (map (\<lambda>d. base + d) ds, (r\<lparr>rbit := rbit r + low\<rparr>)\<lparr>rbit := rbit (r\<lparr>rbit := rbit r + low\<rparr>) + length ds * low\<rparr>)"
  proof (rule Cons.IH)
    fix i j assume "i < length ds" "j < low"
    then show "bitAt (rbuf (r\<lparr>rbit := rbit r + low\<rparr>)) (rbit (r\<lparr>rbit := rbit r + low\<rparr>) + i * low + j) = bit (ds ! i) j"
      using Cons.prems(3) [of "Suc i" j] by (simp add: add_ac)
  qed (use Cons.prems in simp_all)
  have "base + push_bit low (drop_bit low d) + take_bit low d = base + d"
    using bits_ident [of low d] by (metis add.assoc)
  with g IH show ?case by (simp add: add_ac)
qed

lemma read_payload_spec:
  assumes "rbit r + length ps * pb \<le> 8 * length (rbuf r)" and "pb \<le> 8"
    and "\<And>i j. i < length ps \<Longrightarrow> j < pb \<Longrightarrow> bitAt (rbuf r) (rbit r + i * pb + j) = bit (ps ! i) j"
  shows "read_payload pb (length ps) r = Inr (map (take_bit pb) ps)"
  using assms
proof (induction ps arbitrary: r)
  case Nil
  then show ?case by simp
next
  case (Cons p ps)
  have g: "r_get r pb = Some (take_bit pb (ucast p), r\<lparr>rbit := rbit r + pb\<rparr>)"
    using Cons.prems(1,2) Cons.prems(3) [of 0] by (intro r_get_spec) (simp_all add: bit_simps)
  have IH: "read_payload pb (length ps) (r\<lparr>rbit := rbit r + pb\<rparr>) = Inr (map (take_bit pb) ps)"
  proof (rule Cons.IH)
    fix i j assume "i < length ps" "j < pb"
    then show "bitAt (rbuf (r\<lparr>rbit := rbit r + pb\<rparr>)) (rbit (r\<lparr>rbit := rbit r + pb\<rparr>) + i * pb + j) = bit (ps ! i) j"
      using Cons.prems(3) [of "Suc i" j] by (simp add: add_ac)
  qed (use Cons.prems in simp_all)
  have "(ucast (take_bit pb (ucast p :: u64)) :: byte) = take_bit pb p"
    by (rule bit_word_eqI) (auto simp: bit_simps)
  with g IH show ?case by simp
qed

lemma skip_zeros_spec:
  assumes "\<And>q. rbit r \<le> q \<Longrightarrow> q < rbit r + n \<Longrightarrow> \<not> bitAt (rbuf r) q"
    and "bitAt (rbuf r) (rbit r + n)"
  shows "skip_zeros r hi = Some (hi + of_nat n, r\<lparr>rbit := rbit r + n + 1\<rparr>)"
  using assms
proof (induction n arbitrary: r hi)
  case 0
  then have "rbit r < 8 * length (rbuf r)" by (simp add: bitAt_def)
  with 0 show ?case by (subst skip_zeros.simps) (simp add: r_next_bitAt)
next
  case (Suc n)
  let ?r = "r\<lparr>rbit := rbit r + 1\<rparr>"
  have "rbit r < 8 * length (rbuf r)" using Suc.prems(2) by (simp add: bitAt_def)
  moreover have "\<not> bitAt (rbuf r) (rbit r)" using Suc.prems(1) by simp
  ultimately have "skip_zeros r hi = skip_zeros ?r (hi + 1)"
    by (subst skip_zeros.simps) (simp add: r_next_bitAt)
  also have "\<dots> = Some (hi + 1 + of_nat n, ?r\<lparr>rbit := rbit ?r + n + 1\<rparr>)"
    by (rule Suc.IH) (use Suc.prems in simp_all)
  finally show ?case by (simp add: add_ac)
qed

lemma read_uppers_spec:
  assumes "sorted (prev # hs)"
    and "\<And>q. rbit r \<le> q \<Longrightarrow> q < stop \<Longrightarrow>
          bitAt (rbuf r) q = (\<exists>i < length hs. q = rbit r + (hs ! i - prev) + i)"
    and "hs \<noteq> [] \<Longrightarrow> rbit r + (last hs - prev) + length hs \<le> stop"
  shows "read_uppers (length hs) r (of_nat prev)
    = Some (map of_nat hs, r\<lparr>rbit := rbit r + (last (prev # hs) - prev) + length hs\<rparr>)"
  using assms
proof (induction hs arbitrary: r prev)
  case Nil
  then show ?case by simp
next
  case (Cons h hs)
  have ge: "prev \<le> h" and srt: "sorted (h # hs)" using Cons.prems(1) by simp_all
  have last_ge: "h \<le> last (h # hs)" using srt by (cases hs) (simp_all)
  have nth_ge: "h \<le> (h # hs) ! i" if "i < length (h # hs)" for i
    using srt that by (cases i) (simp_all)
  let ?r = "r\<lparr>rbit := rbit r + (h - prev) + 1\<rparr>"
  have st: "rbit r + (last (h # hs) - prev) + length (h # hs) \<le> stop" using Cons.prems(3) by simp
  have sk: "skip_zeros r (of_nat prev) = Some (of_nat prev + of_nat (h - prev), ?r)"
    unfolding add.assoc [of _ "h - prev" 1, symmetric]
  proof (rule skip_zeros_spec)
    fix q assume q: "rbit r \<le> q" "q < rbit r + (h - prev)"
    have "q \<noteq> rbit r + ((h # hs) ! i - prev) + i" if "i < length (h # hs)" for i
      using nth_ge [OF that] q by linarith
    moreover have "q < stop" using q st last_ge ge by simp
    ultimately show "\<not> bitAt (rbuf r) q" using Cons.prems(2) [OF q(1)] by blast
  next
    have "rbit r + (h - prev) < stop" using st last_ge ge by simp
    then show "bitAt (rbuf r) (rbit r + (h - prev))"
      using Cons.prems(2) [of "rbit r + (h - prev)"] by (simp add: exI [of _ 0])
  qed
  have "read_uppers (length hs) ?r (of_nat h)
    = Some (map of_nat hs, ?r\<lparr>rbit := rbit ?r + (last (h # hs) - h) + length hs\<rparr>)"
  proof (rule Cons.IH [OF srt])
    fix q assume q: "rbit ?r \<le> q" "q < stop"
    have "(q = rbit r + ((h # hs) ! Suc i - prev) + Suc i) = (q = rbit ?r + (hs ! i - h) + i)"
      if "i < length hs" for i
      using nth_ge [of "Suc i"] that ge by auto
    moreover have "q \<noteq> rbit r + (h - prev)" using q by simp
    ultimately show "bitAt (rbuf ?r) q = (\<exists>i < length hs. q = rbit ?r + (hs ! i - h) + i)"
      using Cons.prems(2) [of q] q by (auto simp: Ex_less_Suc2)
  next
    assume "hs \<noteq> []"
    then show "rbit ?r + (last hs - h) + length hs \<le> stop" using st last_ge ge by simp
  qed
  moreover have "of_nat prev + of_nat (h - prev) = (of_nat h :: u64)"
    using ge by (metis le_add_diff_inverse of_nat_add)
  moreover have "h - prev + (last (h # hs) - h) = last (h # hs) - prev" using ge last_ge by simp
  ultimately show ?case using sk by (simp add: add_ac)
qed

text \<open>A varint reads back, whatever follows it.\<close>

lemma AppendUvarint_acc: "AppendUvarint (out @ p) x = out @ AppendUvarint p x"
proof (induction p x rule: AppendUvarint.induct)
  case (1 p x)
  then show ?case
    by (cases "0x80 \<le> x") (simp_all add: AppendUvarint.simps [of _ x])
qed

lemma AppendUvarint_step:
  "0x80 \<le> x \<Longrightarrow> AppendUvarint [] x = (ucast x OR 0x80) # AppendUvarint [] (drop_bit 7 x)"
  "\<not> 0x80 \<le> x \<Longrightarrow> AppendUvarint [] x = [ucast x]"
  using AppendUvarint_acc [of "[ucast x OR 0x80]" "[]" "drop_bit 7 x"]
  by (simp_all add: AppendUvarint.simps [of "[]" x])

lemma varint_digit: "ucast ((ucast (x :: u64) OR 0x80 :: byte) AND 0x7f) = take_bit 7 x"
proof -
  have m: "(0x7f :: byte) = mask 7" by (simp add: mask_eq_exp_minus_1)
  have p: "(0x80 :: byte) = push_bit 7 1" by simp
  show ?thesis
    unfolding m p by (intro bit_word_eqI) (auto simp: bit_simps simp del: push_bit_of_1)
qed

lemma varint_join:
  "(acc OR push_bit s (take_bit 7 x)) OR push_bit (s + 7) (drop_bit 7 x) = acc OR push_bit s (x :: u64)"
proof (rule bit_word_eqI)
  fix n assume "n < LENGTH(64)"
  then show "bit ((acc OR push_bit s (take_bit 7 x)) OR push_bit (s + 7) (drop_bit 7 x)) n = bit (acc OR push_bit s x) n"
    by (cases "n < s + 7") (auto simp: bit_simps)
qed

lemma uvarint_loop_append:
  assumes "unat x * 2 ^ (7 * i) < 2 ^ 64" and "i \<le> 9"
  shows "uvarint_loop (AppendUvarint [] x @ r) i acc (7 * i)
    = Some (acc OR push_bit (7 * i) x, i + length (AppendUvarint [] x))"
  using assms
proof (induction "unat x" arbitrary: x i acc rule: less_induct)
  case less
  show ?case
  proof (cases "0x80 \<le> x")
    case True
    then have x: "2 ^ 7 \<le> unat x" by (simp add: word_le_nat_alt)
    have "(2 :: nat) ^ (7 + 7 * i) \<le> unat x * 2 ^ (7 * i)"
      using x by (simp only: power_add mult_le_mono1)
    then have "(2 :: nat) ^ (7 + 7 * i) < 2 ^ 64" using less.prems(1) by linarith
    then have "7 + 7 * i < 64" by (rule power_less_imp_less_exp [rotated]) simp
    then have i: "i + 1 \<le> 9" by simp
    have d: "unat (drop_bit 7 x) = unat x div 2 ^ 7" by (rule unat_drop_bit)
    have "unat (drop_bit 7 x) * 2 ^ (7 * (i + 1)) = unat x div 2 ^ 7 * 2 ^ 7 * 2 ^ (7 * i)"
      unfolding d by (simp add: power_add)
    also have "\<dots> \<le> unat x * 2 ^ (7 * i)"
      by (intro mult_le_mono1 div_times_less_eq_dividend)
    also have "\<dots> < 2 ^ 64" by (rule less.prems(1))
    finally have "unat (drop_bit 7 x) * 2 ^ (7 * (i + 1)) < 2 ^ 64" .
    moreover have "unat (drop_bit 7 x) < unat x" unfolding d using x by (intro div_less_dividend) simp_all
    ultimately have IH: "uvarint_loop (AppendUvarint [] (drop_bit 7 x) @ r) (i + 1) a (7 * (i + 1))
        = Some (a OR push_bit (7 * (i + 1)) (drop_bit 7 x), i + 1 + length (AppendUvarint [] (drop_bit 7 x)))" for a
      using less.hyps i by blast
    have "\<not> (ucast x OR 0x80 :: byte) < 0x80" by (simp add: not_less le_word_or1)
    with i have "uvarint_loop (AppendUvarint [] x @ r) i acc (7 * i)
        = uvarint_loop (AppendUvarint [] (drop_bit 7 x) @ r) (i + 1) (acc OR push_bit (7 * i) (take_bit 7 x)) (7 * (i + 1))"
      by (simp add: AppendUvarint_step(1) [OF True] varint_digit add.commute)
    also have "\<dots> = Some (acc OR push_bit (7 * i) x, i + 1 + length (AppendUvarint [] (drop_bit 7 x)))"
      using varint_join [of acc "7 * i" x] unfolding IH by (simp add: add.commute)
    finally show ?thesis by (simp add: AppendUvarint_step(1) [OF True])
  next
    case False
    then have x: "unat x < 128" by (simp add: word_le_nat_alt)
    have u: "unat (ucast x :: byte) = unat x" using x by (simp add: unat_ucast_byte)
    have "\<not> (i = 9 \<and> (1 :: byte) < ucast x)"
      using less.prems(1) u by (auto simp: word_less_nat_alt)
    moreover have "(ucast x :: byte) < 0x80" using u x by (simp add: word_less_nat_alt)
    moreover have "(ucast (ucast x :: byte) :: u64) = x"
      using u x by (simp add: word_unat_eq_iff unsigned_ucast_eq unsigned_take_bit_eq take_bit_nat_eq_self)
    ultimately show ?thesis using less.prems(2) by (simp add: AppendUvarint_step(2) [OF False])
  qed
qed

lemma Uvarint_append: "Uvarint (AppendUvarint [] x @ r) = Some (x, length (AppendUvarint [] x))"
  using uvarint_loop_append [of x 0 r 0] unsigned_less [of x] by (simp add: Uvarint_def)

text \<open>The width of the low part: \<open>bits.Len64\<close> bounds its argument.\<close>

lemma bit_len_from_spec:
  "n \<le> 64 \<Longrightarrow> bit_len_from x n \<le> n \<and> take_bit n x = take_bit (bit_len_from x n) x"
proof (induction n)
  case 0
  then show ?case by simp
next
  case (Suc n)
  have "take_bit (Suc n) x = take_bit n x" if "\<not> bit x n"
    by (rule bit_word_eqI) (use that in \<open>auto simp: bit_simps less_Suc_eq\<close>)
  with Suc show ?case by auto
qed

lemma Len64_bounds: "Len64 x \<le> 64 \<and> unat x < 2 ^ Len64 x"
proof -
  have "take_bit 64 x = x" using take_bit_word_eq_self [of 64 x] by simp
  then have "x = take_bit (Len64 x) x"
    using bit_len_from_spec [of 64 x] by (simp add: Len64_def)
  then have "unat x = take_bit (Len64 x) (unat x)"
    by (metis unsigned_take_bit_eq)
  then have "unat x < 2 ^ Len64 x" by (metis take_bit_nat_less_exp)
  then show ?thesis using bit_len_from_spec [of 64 x] by (simp add: Len64_def)
qed

lemma ef_low_bounds:
  assumes "ts \<noteq> []" and "length ts < 2 ^ 64"
  shows "ef_low base ts \<le> 64" and "unat (ef_span base ts) < length ts * 2 ^ ef_low base ts"
proof -
  let ?q = "ef_span base ts div of_nat (length ts)"
  have n: "unat (of_nat (length ts) :: u64) = length ts" using assms(2) by (simp add: unat_of_nat)
  have q: "unat ?q = unat (ef_span base ts) div length ts" by (simp add: unat_div n)
  show "ef_low base ts \<le> 64" using Len64_bounds [of ?q] by (simp add: ef_low_def Let_def)
  have "unat ?q < 2 ^ ef_low base ts"
    using Len64_bounds [of ?q] by (auto simp: ef_low_def Let_def word_gt_0)
  then have "unat (ef_span base ts) div length ts < 2 ^ ef_low base ts" by (simp only: q)
  then show "unat (ef_span base ts) < length ts * 2 ^ ef_low base ts"
    using assms(1) by (simp add: div_less_iff_less_mult mult.commute)
qed

lemma ef_upper_small:
  assumes "ts \<noteq> []" and "length ts < 2 ^ 64"
  shows "unat (drop_bit (ef_low base ts) (ef_span base ts)) < length ts"
  using ef_low_bounds [OF assms, of base] by (simp only: unat_drop_bit) (simp add: div_less_iff_less_mult)

section \<open>The round trip\<close>

lemma bytes_eq_bits:
  assumes "length a = length b" and "\<And>p. p < 8 * length a \<Longrightarrow> bitAt a p = bitAt b p"
  shows "a = b"
proof (rule nth_equalityI [OF assms(1)])
  fix i assume i: "i < length a"
  show "a ! i = b ! i"
  proof (rule bit_word_eqI)
    fix j assume "j < LENGTH(8)"
    then have "8 * i + j < 8 * length a" "(8 * i + j) div 8 = i" "(8 * i + j) mod 8 = j"
      using i by auto
    then show "bit (a ! i) j = bit (b ! i) j"
      using assms(2) [of "8 * i + j"] assms(1) by (simp add: bitAt_def)
  qed
qed

lemma bitAt_take: "p < 8 * n \<Longrightarrow> n \<le> length b \<Longrightarrow> bitAt (take n b) p = bitAt b p"
  by (auto simp: bitAt_def)

lemma bitAt_beyond: "8 * length b \<le> p \<Longrightarrow> \<not> bitAt b p"
  by (simp add: bitAt_def)

lemma ef_header_append: "ef_header n low pb = AppendUvarint [] (of_nat n) @ AppendUvarint [] (of_nat low) @ AppendUvarint [] (of_nat pb)"
  using AppendUvarint_acc [where p = "[]", simplified] by (metis append.assoc ef_header_def)

lemma AppendUvarint_pos: "AppendUvarint [] x \<noteq> []"
  by (cases "0x80 \<le> x") (simp_all add: AppendUvarint_step)

text \<open>
  The bits of an encoded chunk: behind the header, one bit per entry at its high part plus its
  position, then, from the next byte on, the low parts and the payloads.
\<close>

definition ef_layout :: "bytes \<Rightarrow> bytes \<Rightarrow> nat list \<Rightarrow> nat \<Rightarrow> u64 list \<Rightarrow> nat \<Rightarrow> byte list \<Rightarrow> nat \<Rightarrow> bool" where
  "ef_layout v hdr hs low ds u ps pb =
     (let b = length hdr; l = 8 * (b + (u + 7) div 8); n = length ds in
      take b v = hdr
      \<and> l + n * low + length ps * pb \<le> 8 * length v
      \<and> (\<forall>q. 8 * b \<le> q \<and> q < l \<longrightarrow> bitAt v q = (\<exists>i < n. q = 8 * b + hs ! i + i))
      \<and> (\<forall>i < n. \<forall>j < low. bitAt v (l + i * low + j) = bit (ds ! i) j)
      \<and> (\<forall>i < length ps. \<forall>j < pb. bitAt v (l + n * low + i * pb + j) = bit (ps ! i) j))"

lemma writer_layout:
  fixes base :: u64 and ts :: "u64 list" and low :: nat
  defines "ds \<equiv> map (\<lambda>t. t - base) ts"
  defines "hs \<equiv> map (\<lambda>d. unat (drop_bit low d)) ds"
  assumes hdr: "hdr \<noteq> []" and low: "low \<le> 64"
    and small: "\<And>i. i < length ts \<Longrightarrow> hs ! i + i < u"
  shows "ef_layout (wbuf (put_payload (put_lowers (w_pad (set_uppers
      \<lparr>wbuf = hdr, wbits = 0, wbase = 0, wones = 0\<rparr> base low ts) u) base low ts) ps pb)) hdr hs low ds u ps pb"
proof -
  define b where "b = length hdr"
  define w0 where "w0 = \<lparr>wbuf = hdr, wbits = 0, wbase = 0, wones = 0\<rparr>"
  define w1 where "w1 = w_pad (set_uppers w0 base low ts) u"
  define w2 where "w2 = put_lowers w1 base low ts"
  define w3 where "w3 = put_payload w2 ps pb"
  define l where "l = 8 * (b + (u + 7) div 8)"
  have ub: "upper_base w0 = b" and pos: "0 < length (wbuf w0)"
    using hdr by (simp_all add: upper_base_def w0_def b_def)
  note sp = set_uppers_spec [OF pos, of base low ts]
  have len1: "8 * length (wbuf w1) = l"
  proof -
    have "length (wbuf (set_uppers w0 base low ts)) \<le> max (length (wbuf w0)) (upper_base w0 + (u + 7) div 8)"
    proof (rule set_uppers_length [OF pos])
      fix i assume "i < length ts"
      then show "unat (drop_bit low (ts ! i - base)) + wones w0 + i < u"
        using small [of i] by (simp add: hs_def ds_def w0_def)
    qed
    then show ?thesis
      using sp ub by (simp add: w1_def w_pad_spec(2) l_def w0_def b_def)
  qed
  have bits1: "bitAt (wbuf w1) q = (bitAt hdr q \<or> (\<exists>i < length ds. q = 8 * b + hs ! i + i))" for q
    using sp [of q] ub by (auto simp: w1_def w_pad_spec(1) w0_def hs_def ds_def add.assoc)
  have inv1: "put_inv w1" and wb1: "wbits w1 = l"
    using w_pad_spec(3) [of "set_uppers w0 base low ts" u] len1
    by (auto simp: w1_def put_inv_def bitAt_beyond)
  note s2 = put_all_spec [OF inv1, of "map (\<lambda>t. (t - base) AND (push_bit low 1 - 1)) ts" low, folded put_lowers_all, folded w2_def, unfolded wb1]
  have inv2: "put_inv w2" and wb2: "wbits w2 = l + length ds * low"
    using s2 by (simp_all add: ds_def)
  note s3 = put_all_spec [OF inv2, of "map ucast ps" pb, folded put_payload_all, folded w3_def, unfolded wb2]
  have m: "2 ^ low - 1 = (mask low :: u64)" by (simp add: mask_eq_exp_minus_1)
  have len3: "l + length ds * low + length ps * pb \<le> 8 * length (wbuf w3)"
  proof -
    have "length (wbuf w3) = (wbits w3 + 7) div 8" using s3 by (simp add: put_inv_def)
    then have "wbits w3 \<le> 8 * length (wbuf w3)" by simp
    then show ?thesis using s3 by simp
  qed
  have below: "bitAt (wbuf w3) q = bitAt (wbuf w1) q" if "q < l" for q
    using that s2 s3 by simp
  have "take b (wbuf w3) = hdr"
  proof (rule bytes_eq_bits)
    show "length (take b (wbuf w3)) = length hdr"
      using len3 by (simp add: b_def l_def)
    fix p assume "p < 8 * length (take b (wbuf w3))"
    then have p: "p < 8 * b" "b \<le> length (wbuf w3)" using len3 by (simp_all add: l_def)
    then have "bitAt (take b (wbuf w3)) p = bitAt (wbuf w1) p"
      using below [of p] by (simp add: bitAt_take l_def)
    then show "bitAt (take b (wbuf w3)) p = bitAt hdr p" using bits1 [of p] p by auto
  qed
  moreover have "bitAt (wbuf w3) q = (\<exists>i < length ds. q = 8 * b + hs ! i + i)" if "8 * b \<le> q" "q < l" for q
    using below [OF that(2)] bits1 [of q] bitAt_beyond [of hdr q] that by (simp add: b_def)
  moreover have "bitAt (wbuf w3) (l + i * low + j) = bit (ds ! i) j" if "i < length ds" "j < low" for i j
  proof -
    have "i * low + j < length ds * low"
      using that mult_le_mono1 [of "Suc i" "length ds" low] by simp
    then have "bitAt (wbuf w3) (l + i * low + j) = bitAt (wbuf w2) (l + i * low + j)"
      using s3 by (simp add: add.assoc)
    also have "\<dots> = bit ((ds ! i) AND mask low) j"
      using s2 that by (simp add: ds_def m)
    also have "\<dots> = bit (ds ! i) j" using that low by (auto simp: bit_simps)
    finally show ?thesis .
  qed
  moreover have "bitAt (wbuf w3) (l + length ds * low + i * pb + j) = bit (ps ! i) j" if "i < length ps" "j < pb" for i j
    using s3 that bit_imp_le_length [of "ps ! i" j] by (auto simp: bit_simps)
  ultimately have "ef_layout (wbuf w3) hdr hs low ds u ps pb"
    using len3 unfolding ef_layout_def Let_def b_def [symmetric] l_def [symmetric] by simp
  then show ?thesis by (simp only: w3_def w2_def w1_def w0_def)
qed

lemma read_layout:
  assumes lay: "ef_layout v hdr hs low ds u ps pb"
    and hs: "hs = map (\<lambda>d. unat (drop_bit low d)) ds" and srt: "sorted hs"
    and u: "u = last (0 # hs) + length ds" and low: "low \<le> 64" and pb: "pb \<le> 8"
  shows "\<exists>r. read_uppers (length ds) \<lparr>rbuf = v, rbit = length hdr * 8\<rparr> 0 = Some (map (drop_bit low) ds, r)
    \<and> (\<exists>r'. read_lowers base (Some low) (r\<lparr>rbit := (rbit r + 7) div 8 * 8\<rparr>) (map (drop_bit low) ds)
         = Inr (map (\<lambda>d. base + d) ds, r') \<and> read_payload pb (length ps) r' = Inr (map (take_bit pb) ps))"
proof -
  define l where "l = 8 * (length hdr + (u + 7) div 8)"
  let ?r0 = "\<lparr>rbuf = v, rbit = length hdr * 8\<rparr>"
  let ?r1 = "?r0\<lparr>rbit := 8 * length hdr + u\<rparr>"
  let ?r2 = "?r0\<lparr>rbit := l\<rparr>"
  let ?r3 = "?r0\<lparr>rbit := l + length ds * low\<rparr>"
  note L = lay [unfolded ef_layout_def Let_def, folded l_def]
  have "read_uppers (length hs) ?r0 (of_nat 0)
      = Some (map of_nat hs, ?r0\<lparr>rbit := rbit ?r0 + (last (0 # hs) - 0) + length hs\<rparr>)"
  proof (rule read_uppers_spec [where stop = "8 * length hdr + u"])
    show "sorted (0 # hs)" using srt by simp
    fix q assume "rbit ?r0 \<le> q" "q < 8 * length hdr + u"
    then have "8 * length hdr \<le> q" "q < l" by (simp_all add: l_def)
    then show "bitAt (rbuf ?r0) q = (\<exists>i < length hs. q = rbit ?r0 + (hs ! i - 0) + i)"
      using L hs by (simp add: mult.commute)
  next
    assume "hs \<noteq> []"
    then show "rbit ?r0 + (last hs - 0) + length hs \<le> 8 * length hdr + u"
      using u hs by simp
  qed
  moreover have "map of_nat hs = map (drop_bit low) ds" by (simp add: hs)
  ultimately have up: "read_uppers (length ds) ?r0 0 = Some (map (drop_bit low) ds, ?r1)"
    using u hs by (simp add: mult.commute add.assoc)
  have "read_lowers base (Some low) ?r2 (map (drop_bit low) ds)
      = Inr (map (\<lambda>d. base + d) ds, ?r2\<lparr>rbit := rbit ?r2 + length ds * low\<rparr>)"
    by (rule read_lowers_spec) (use L low in auto)
  then have lo: "read_lowers base (Some low) ?r2 (map (drop_bit low) ds) = Inr (map (\<lambda>d. base + d) ds, ?r3)"
    by simp
  have pay: "read_payload pb (length ps) ?r3 = Inr (map (take_bit pb) ps)"
    by (rule read_payload_spec) (use L pb in auto)
  have "(8 * length hdr + u + 7) div 8 * 8 = l" by (simp add: l_def add.assoc)
  then have "?r1\<lparr>rbit := (rbit ?r1 + 7) div 8 * 8\<rparr> = ?r2" by simp
  with up lo pay show ?thesis by auto
qed

lemma go_int_of_nat: "n < 2 ^ 63 \<Longrightarrow> go_int (of_nat n) = int n"
  by (simp add: go_int_def signed_of_nat signed_take_bit_int_eq_self)

lemma go_int_0 [simp]: "go_int 0 = 0"
  by (simp add: go_int_def)

lemma sorted_uppers:
  assumes "sorted ts" and "\<forall>t \<in> set ts. base \<le> t"
  shows "sorted (map (\<lambda>d. unat (drop_bit low d)) (map (\<lambda>t. t - base) ts))"
proof -
  have "sorted_wrt (\<lambda>x y. unat (drop_bit low (x - base)) \<le> unat (drop_bit low (y - base))) ts"
  proof (rule sorted_wrt_mono_rel [OF _ assms(1)])
    fix x y assume "x \<in> set ts" "y \<in> set ts" "x \<le> y"
    then have "base \<le> x" "x \<le> y" using assms(2) by auto
    then have "unat (x - base) \<le> unat (y - base)"
      by (simp add: unat_sub word_le_nat_alt)
    then show "unat (drop_bit low (x - base)) \<le> unat (drop_bit low (y - base))"
      by (simp only: unat_drop_bit div_le_mono)
  qed
  then show ?thesis by (simp add: sorted_map o_def)
qed

lemma sorted_nth_le_last: "sorted xs \<Longrightarrow> i < length xs \<Longrightarrow> xs ! i \<le> last xs"
  using sorted_nth_mono [of xs i "length xs - 1"] by (cases "xs = []") (simp_all add: last_conv_nth)

lemma Encode_layout:
  fixes base :: u64 and ts :: "u64 list"
  defines "ds \<equiv> map (\<lambda>t. t - base) ts"
  defines "low \<equiv> ef_low base ts"
  defines "hs \<equiv> map (\<lambda>d. unat (drop_bit low d)) ds"
  assumes srt: "sorted ts" and base: "\<forall>t \<in> set ts. base \<le> t" and n: "length ts \<le> MaxEntries"
    and pay: "0 < pb \<Longrightarrow> length pay = length ts"
  shows "\<exists>v. Encode base ts pay pb = Inr v \<and> low \<le> 64 \<and> sorted hs
    \<and> ef_layout v (ef_header (length ts) low pb) hs low ds (last (0 # hs) + length ds) (if 0 < pb then pay else []) pb"
proof -
  have shs: "sorted hs" using sorted_uppers [OF srt base] by (simp add: hs_def ds_def)
  have low64: "low \<le> 64" using ef_low_bounds(1) [of ts base] n
    by (cases "ts = []") (simp_all add: low_def ef_low_def MaxEntries_def)
  have up: "unat (drop_bit low (ef_span base ts)) = last (0 # hs)"
    by (simp add: ef_span_def hs_def ds_def last_map)
  have small: "hs ! i + i < last (0 # hs) + length ds" if "i < length ts" for i
  proof -
    have "hs ! i \<le> last hs" using sorted_nth_le_last [OF shs] that by (simp add: hs_def ds_def)
    then show ?thesis using that by (auto simp: hs_def ds_def)
  qed
  let ?w = "put_lowers (w_pad (set_uppers \<lparr>wbuf = ef_header (length ts) low pb, wbits = 0, wbase = 0, wones = 0\<rparr>
      base low ts) (last (0 # hs) + length ds)) base low ts"
  have "ef_layout (wbuf (put_payload ?w ps pb)) (ef_header (length ts) low pb) hs low ds (last (0 # hs) + length ds) ps pb" for ps
    using writer_layout [of "ef_header (length ts) low pb" low ts base, folded ds_def, folded hs_def] low64 small
    by (simp add: ef_header_append AppendUvarint_pos)
  moreover have "Encode base ts pay pb = Inr (wbuf (put_payload ?w (if 0 < pb then pay else []) pb))"
    using pay up by (simp add: Encode_def Let_def low_def ds_def)
  ultimately show ?thesis using low64 shs by blast
qed

lemma Decode_Encode:
  assumes srt: "sorted ts" and base: "\<forall>t \<in> set ts. base \<le> t" and n: "length ts \<le> MaxEntries"
    and pb: "pb \<le> 8" and pay: "length pay = length ts" and fits: "\<forall>p \<in> set pay. take_bit pb p = p"
  shows "\<exists>v. Encode base ts pay pb = Inr v \<and> Decode base v = Inr (ts, if 0 < pb then Some pay else None)"
proof -
  define ds where "ds = map (\<lambda>t. t - base) ts"
  define low where "low = ef_low base ts"
  define hs where "hs = map (\<lambda>d. unat (drop_bit low d)) ds"
  let ?hdr = "ef_header (length ts) low pb" and ?ps = "if 0 < pb then pay else []"
  obtain v where enc: "Encode base ts pay pb = Inr v" and low: "low \<le> 64" and shs: "sorted hs"
    and lay: "ef_layout v ?hdr hs low ds (last (0 # hs) + length ds) ?ps pb"
    using Encode_layout [OF srt base n, of pb pay] pay by (auto simp: ds_def low_def hs_def)
  from read_layout [OF lay hs_def shs refl low pb, of base]
  obtain r r' where up: "read_uppers (length ds) \<lparr>rbuf = v, rbit = length ?hdr * 8\<rparr> 0 = Some (map (drop_bit low) ds, r)"
    and lo: "read_lowers base (Some low) (r\<lparr>rbit := (rbit r + 7) div 8 * 8\<rparr>) (map (drop_bit low) ds)
         = Inr (map (\<lambda>d. base + d) ds, r')"
    and py: "read_payload pb (length ?ps) r' = Inr (map (take_bit pb) ?ps)" by blast
  have ts: "map (\<lambda>d. base + d) ds = ts" by (simp add: ds_def o_def)
  have fit: "map (take_bit pb) pay = pay" using fits by (simp add: map_idI)
  obtain rest where v: "v = AppendUvarint [] (of_nat (length ts)) @ AppendUvarint [] (of_nat low)
      @ AppendUvarint [] (of_nat pb) @ rest"
    using lay unfolding ef_layout_def Let_def ef_header_append
    by (metis append.assoc append_take_drop_id)
  have len: "length ?hdr = length (AppendUvarint [] (of_nat (length ts))) + length (AppendUvarint [] (of_nat low))
      + length (AppendUvarint [] (of_nat pb))"
    by (simp add: ef_header_append)
  have ints: "go_int (of_nat (length ts)) = int (length ts)" "go_int (of_nat low) = int low" "go_int (of_nat pb) = int pb"
    using n low pb by (auto intro!: go_int_of_nat simp: MaxEntries_def)
  let ?k1 = "length (AppendUvarint [] (of_nat (length ts)))" and ?k2 = "length (AppendUvarint [] (of_nat low))"
  have u: "Uvarint v = Some (of_nat (length ts), ?k1)" "Uvarint (drop ?k1 v) = Some (of_nat low, ?k2)"
    "Uvarint (drop (?k1 + ?k2) v) = Some (of_nat pb, length (AppendUvarint [] (of_nat pb)))"
    by (simp_all add: v Uvarint_append)
  have "length ds = length ts" by (simp add: ds_def)
  then have "Decode base v = Inr (ts, if 0 < pb then Some pay else None)"
    using up [unfolded len] lo py n low pb pay fit
    by (cases "pb = 0") (simp_all add: Decode_def u ints Let_def ts)
  with enc show ?thesis by blast
qed

text \<open>
  C2. Decoding an encoded chunk gives back its TxNums and payloads: for every sorted list of at
  most \<open>MaxEntries\<close> TxNums at or above the base, repetitions included, and payloads that fit their
  width.
\<close>

theorem ef_roundtrip:
  assumes srt: "sorted ts" and base: "\<forall>t \<in> set ts. base \<le> t" and n: "length ts \<le> MaxEntries"
    and pb: "pb \<le> 8" and pay: "length pay = length ts" and fits: "\<forall>p \<in> set pay. take_bit pb p = p"
  shows "\<exists>v. Encode base ts pay pb = Inr v \<and> Decode base v = Inr (ts, if 0 < pb then Some pay else None)"
  using assms by (rule Decode_Encode)

theorem ef_roundtrip_witness:
  "\<exists>v. Encode 100 [100, 103, 103, 70000] [1, 2, 31, 16] 5 = Inr v
     \<and> Decode 100 v = Inr ([100, 103, 103, 70000], Some [1, 2, 31, 16])"
proof -
  have "sorted [100, 103, 103, 70000 :: u64]" by simp
  moreover have "\<forall>t \<in> set [100, 103, 103, 70000 :: u64]. 100 \<le> t" by simp
  moreover have "\<forall>p \<in> set [1, 2, 31, 16 :: byte]. take_bit 5 p = p" by simp
  ultimately show ?thesis
    using ef_roundtrip [of "[100, 103, 103, 70000]" 100 5 "[1, 2, 31, 16]"] by (simp add: MaxEntries_def)
qed





end
