(* ===== verification/Container.thy ===== *)
theory Container
  imports Prelude
begin

text \<open>
  Container reassembly, \<^verbatim>\<open>src/store/container.go\<close>: a raw container is cut into a template
  (the \<^verbatim>\<open>pvm\<close> row), the header and the transactions, and \<open>Reassemble\<close> concatenates them back.
  The RLP codec and the proposervm parser are other modules: they are the fields of the record
  \<open>rlp_lib\<close>, an argument of every definition that calls them, and \<open>rlp_laws\<close> states the documented
  behaviour of the two splitting functions the span computation relies on.
\<close>

section \<open>The libraries the code calls\<close>

record ('blk, 'tx) rlp_lib =
  parseProposer :: "bytes \<Rightarrow> bytes option"          \<comment> \<open>\<open>ParseWithoutVerification(raw).Block()\<close>\<close>
  rlpSplit :: "bytes \<Rightarrow> (bytes \<times> bytes) option"      \<comment> \<open>\<open>rlp.Split\<close>: content and rest\<close>
  rlpSplitList :: "bytes \<Rightarrow> (bytes \<times> bytes) option"  \<comment> \<open>\<open>rlp.SplitList\<close>: content and rest\<close>
  decodeBlock :: "bytes \<Rightarrow> 'blk option"              \<comment> \<open>\<open>rlp.DecodeBytes\<close> into a block\<close>
  encodeHeader :: "'blk \<Rightarrow> bytes option"             \<comment> \<open>\<open>rlp.EncodeToBytes(b.Header())\<close>\<close>
  blockTxs :: "'blk \<Rightarrow> 'tx list"                     \<comment> \<open>\<open>b.Transactions()\<close>\<close>
  encodeTx :: "'tx \<Rightarrow> bytes option"                  \<comment> \<open>\<open>rlp.EncodeToBytes(tx)\<close>\<close>
  encodeBare :: "bytes \<Rightarrow> bytes list \<Rightarrow> bytes option" \<comment> \<open>\<open>rlp.EncodeToBytes(&bareBlock)\<close>\<close>

text \<open>
  Both splitting functions return two adjacent tails of their argument: the content of the first
  item and what follows the item.  \<^verbatim>\<open>rlp.DecodeBytes\<close> accepts exactly one value and no trailing bytes.
\<close>

definition splits :: "(bytes \<Rightarrow> (bytes \<times> bytes) option) \<Rightarrow> bool" where
  "splits f = (\<forall>b content rest. f b = Some (content, rest) \<longrightarrow> (\<exists>hdr. b = hdr @ content @ rest))"

definition rlp_laws :: "('blk, 'tx) rlp_lib \<Rightarrow> bool" where
  "rlp_laws R = (splits (rlpSplit R) \<and> splits (rlpSplitList R) \<and>
     (\<forall>b content rest. decodeBlock R b \<noteq> None \<longrightarrow> rlpSplitList R b = Some (content, rest) \<longrightarrow> rest = []))"

section \<open>Templates\<close>

definition pvmTemplate :: "bytes \<Rightarrow> nat \<Rightarrow> nat \<Rightarrow> nat \<Rightarrow> nat \<Rightarrow> bytes" where
  "pvmTemplate raw hs he ts te =
     (let a = take hs raw; b = drop he (take ts raw); c = drop te raw
      in be32 (of_nat (length a)) @ a @ be32 (of_nat (length b)) @ b @ c)"

definition Reassemble :: "('blk, 'tx) rlp_lib \<Rightarrow> bytes \<Rightarrow> bytes \<Rightarrow> bytes list \<Rightarrow> bytes res" where
  "Reassemble R pvm headerRLP txRLPs =
     (if length pvm = 0 then
        (case encodeBare R headerRLP txRLPs of None \<Rightarrow> Inl BareEncode | Some out \<Rightarrow> Inr out)
      else if length pvm < 8 then Inl PvmTooShort
      else
        let la = unat (get32 pvm) in
        if 4 + la + 4 > length pvm then Inl PvmBadPrefix
        else
          let a = take la (drop 4 pvm); lb = unat (get32 (drop (4 + la) pvm)) in
          if 8 + la + lb > length pvm then Inl PvmBadTxHeader
          else
            let b = take lb (drop (8 + la) pvm); c = drop (8 + la + lb) pvm
            in Inr (a @ headerRLP @ b @ concat txRLPs @ c))"

fun encodeTxs :: "('blk, 'tx) rlp_lib \<Rightarrow> 'tx list \<Rightarrow> bytes list res" where
  "encodeTxs R [] = Inr []"
| "encodeTxs R (tx # txs) =
     (case encodeTx R tx of
        None \<Rightarrow> Inl EncodePiece
      | Some enc \<Rightarrow> (case encodeTxs R txs of Inl e \<Rightarrow> Inl e | Inr encs \<Rightarrow> Inr (enc # encs)))"

definition blockPieces :: "('blk, 'tx) rlp_lib \<Rightarrow> 'blk \<Rightarrow> (bytes \<times> bytes list) res" where
  "blockPieces R b =
     (case encodeHeader R b of
        None \<Rightarrow> Inl EncodePiece
      | Some headerRLP \<Rightarrow>
          (case encodeTxs R (blockTxs R b) of Inl e \<Rightarrow> Inl e | Inr txRLPs \<Rightarrow> Inr (headerRLP, txRLPs)))"

definition blockSpans :: "('blk, 'tx) rlp_lib \<Rightarrow> bytes \<Rightarrow> (nat \<times> nat \<times> nat \<times> nat) res" where
  "blockSpans R inner =
     (case rlpSplitList R inner of
        None \<Rightarrow> Inl BlockNotList
      | Some (content, rest) \<Rightarrow>
          let hs = length inner - length rest - length content in
          (case rlpSplit R content of
             None \<Rightarrow> Inl BlockHeaderElement
           | Some (_, afterHeader) \<Rightarrow>
               let he = length inner - length afterHeader in
               (case rlpSplitList R afterHeader of
                  None \<Rightarrow> Inl BlockTxList
                | Some (txs, afterTxs) \<Rightarrow>
                    let ts = length inner - length afterTxs - length txs
                    in Inr (hs, he, ts, ts + length txs))))"

text \<open>\<^verbatim>\<open>bytes.Index\<close>: the first place where \<open>sub\<close> occurs.\<close>

fun bytes_Index :: "bytes \<Rightarrow> bytes \<Rightarrow> nat option" where
  "bytes_Index [] sub = (if sub = [] then Some 0 else None)"
| "bytes_Index (x # s) sub =
     (if HasPrefix (x # s) sub then Some 0 else map_option Suc (bytes_Index s sub))"

section \<open>SplitContainer\<close>

definition innerOf :: "('blk, 'tx) rlp_lib \<Rightarrow> bytes \<Rightarrow> bytes res" where
  "innerOf R raw =
     (case parseProposer R raw of
        Some inner \<Rightarrow> Inr inner
      | None \<Rightarrow>
          (case rlpSplit R raw of
             None \<Rightarrow> Inl NotAnRlpItem
           | Some (_, rest) \<Rightarrow> Inr (take (length raw - length rest) raw)))"

definition SplitContainer :: "('blk, 'tx) rlp_lib \<Rightarrow> bytes \<Rightarrow> (bytes \<times> 'blk) res" where
  "SplitContainer R raw =
     (if length raw = 0 then Inl EmptyContainer
      else
        case innerOf R raw of Inl e \<Rightarrow> Inl e | Inr innerBytes \<Rightarrow>
        case decodeBlock R innerBytes of None \<Rightarrow> Inl InnerDecode | Some inner \<Rightarrow>
        case blockPieces R inner of Inl e \<Rightarrow> Inl e | Inr (headerRLP, txRLPs) \<Rightarrow>
        if Reassemble R [] headerRLP txRLPs = Inr raw then Inr ([], inner)
        else
          case bytes_Index raw innerBytes of None \<Rightarrow> Inl InnerNotSubstring | Some off \<Rightarrow>
          case blockSpans R innerBytes of Inl e \<Rightarrow> Inl e | Inr (hs, he, ts, te) \<Rightarrow>
          let pvm = pvmTemplate raw (off + hs) (off + he) (off + ts) (off + te) in
          case Reassemble R pvm headerRLP txRLPs of
            Inl e \<Rightarrow> Inl e
          | Inr out \<Rightarrow> if out \<noteq> raw then Inl NoRoundTrip else Inr (pvm, inner))"

section \<open>A concrete library\<close>

text \<open>
  The short forms of RLP (payloads under 56 bytes) over blocks that keep their encoded pieces, with a
  one-byte-length wrapper in place of the proposervm codec: it satisfies \<open>rlp_laws\<close>, and the
  properties below are applied to it.
\<close>

fun short_split :: "bytes \<Rightarrow> (bytes \<times> bytes) option" where
  "short_split [] = None"
| "short_split (p # r) =
     (if p < 128 then Some ([p], r)
      else let n = (if p < 192 then unat p - 128 else unat p - 192) in
        if n < 56 \<and> n \<le> length r then Some (take n r, drop n r) else None)"

fun short_split_list :: "bytes \<Rightarrow> (bytes \<times> bytes) option" where
  "short_split_list [] = None"
| "short_split_list (p # r) = (if 192 \<le> p then short_split (p # r) else None)"

fun short_items :: "nat \<Rightarrow> bytes \<Rightarrow> bytes list" where
  "short_items 0 b = []"
| "short_items (Suc k) b =
     (case short_split b of None \<Rightarrow> [] | Some (_, r) \<Rightarrow> take (length b - length r) b # short_items k r)"

definition short_decode :: "bytes \<Rightarrow> (bytes \<times> bytes list) option" where
  "short_decode b =
     (case short_split_list b of
        Some (c, []) \<Rightarrow>
          (case short_split c of
             Some (_, ah) \<Rightarrow>
               (case short_split_list ah of
                  Some (t, _) \<Rightarrow> Some (take (length c - length ah) c, short_items (length t) t)
                | None \<Rightarrow> None)
           | None \<Rightarrow> None)
      | _ \<Rightarrow> None)"

definition short_list :: "bytes \<Rightarrow> bytes" where
  "short_list b = (192 + of_nat (length b)) # b"

definition short_lib :: "(bytes \<times> bytes list, bytes) rlp_lib" where
  "short_lib = \<lparr>
     parseProposer = (\<lambda>b. case b of x # y # n # r \<Rightarrow>
        if x = 0 \<and> y = 0 \<and> unat n \<le> length r then Some (take (unat n) r) else None | _ \<Rightarrow> None),
     rlpSplit = short_split, rlpSplitList = short_split_list, decodeBlock = short_decode,
     encodeHeader = (\<lambda>b. Some (fst b)), blockTxs = snd, encodeTx = Some,
     encodeBare = (\<lambda>h txs. Some (short_list (h @ short_list (concat txs) @ [192]))) \<rparr>"

lemma short_split_splits: "short_split b = Some (c, r) \<Longrightarrow> \<exists>hdr. b = hdr @ c @ r"
  by (cases b) (auto simp: Let_def split: if_splits intro: exI [of _ "[]"] exI [of _ "[hd b]"])

lemma short_lib_laws: "rlp_laws short_lib"
proof -
  have "splits short_split" using short_split_splits by (auto simp: splits_def)
  moreover have "splits short_split_list"
    using short_split_splits by (auto simp: splits_def elim!: short_split_list.elims split: if_splits)
  moreover have "rest = []" if "short_decode b \<noteq> None" "short_split_list b = Some (content, rest)" for b content rest
    using that by (cases rest) (auto simp: short_decode_def)
  ultimately show ?thesis by (auto simp: rlp_laws_def short_lib_def)
qed

definition sample_inner :: bytes where
  "sample_inner = [200, 131, 1, 2, 3, 194, 5, 6, 192]"

definition sample_raw :: bytes where
  "sample_raw = [0, 0, 9] @ sample_inner @ [170]"

lemma sample_split:
  "SplitContainer short_lib sample_raw
     = Inr (pvmTemplate sample_raw 4 8 9 11, ([131, 1, 2, 3], [[5], [6]]))"
  by code_simp

section \<open>Correctness\<close>

lemma bytes_Index_Some:
  "bytes_Index s sub = Some i \<Longrightarrow> \<exists>pre post. s = pre @ sub @ post \<and> length pre = i"
proof (induction s sub arbitrary: i rule: bytes_Index.induct)
  case (1 sub)
  then show ?case by (auto split: if_splits)
next
  case (2 x s sub)
  show ?case
  proof (cases "HasPrefix (x # s) sub")
    case True
    with "2.prems" show ?thesis by (auto simp: HasPrefix_iff)
  next
    case False
    with "2.prems" obtain j where "bytes_Index s sub = Some j" and "i = Suc j" by auto
    with "2.IH" [OF False] obtain pre post where "s = pre @ sub @ post" "length pre = j" by blast
    with \<open>i = Suc j\<close> show ?thesis by (intro exI [of _ "x # pre"] exI [of _ post]) simp
  qed
qed

lemma bytes_Index_found: "\<exists>i. bytes_Index (pre @ sub @ post) sub = Some i"
proof (induction pre)
  case Nil
  have "HasPrefix (sub @ post) sub" by (simp add: HasPrefix_append)
  then show ?case by (cases "sub @ post") auto
next
  case (Cons x pre)
  then show ?case by auto
qed

lemma Reassemble_template:
  assumes raw: "raw = a @ hdr @ b @ concat txs @ c"
    and la: "length a < 2 ^ 32" and lb: "length b < 2 ^ 32"
    and hs: "hs = length a" and he: "he = hs + length hdr"
    and ts: "ts = he + length b" and te: "te = ts + length (concat txs)"
  shows "Reassemble R (pvmTemplate raw hs he ts te) hdr txs = Inr raw"
proof -
  have u: "unat (of_nat (length a) :: u32) = length a" "unat (of_nat (length b) :: u32) = length b"
    using la lb by (simp_all add: unat_of_nat)
  have "pvmTemplate raw hs he ts te = be32 (of_nat (length a)) @ a @ be32 (of_nat (length b)) @ b @ c"
    by (simp add: raw hs he ts te pvmTemplate_def Let_def)
  then show ?thesis by (simp add: Reassemble_def Let_def u raw)
qed

lemma splits_lengths:
  assumes "splits f" and "f b = Some (content, rest)"
  obtains hdr where "b = hdr @ content @ rest"
  using assms unfolding splits_def by blast

text \<open>Where the spans that \<open>blockSpans\<close> computes lie: the inner block is the five pieces in order.\<close>

lemma blockSpans_pieces:
  assumes "rlp_laws R" and "blockSpans R inner = Inr (hs, he, ts, te)" and "decodeBlock R inner \<noteq> None"
  obtains a h b t c where "inner = a @ h @ b @ t @ c"
    and "hs = length a" and "he = hs + length h" and "ts = he + length b" and "te = ts + length t"
proof -
  have s: "splits (rlpSplit R)" "splits (rlpSplitList R)" using assms(1) by (simp_all add: rlp_laws_def)
  from assms(2) obtain content rest hc afterHeader txs afterTxs where
    l: "rlpSplitList R inner = Some (content, rest)" "rlpSplit R content = Some (hc, afterHeader)"
      "rlpSplitList R afterHeader = Some (txs, afterTxs)"
    and e: "hs = length inner - length rest - length content" "he = length inner - length afterHeader"
      "ts = length inner - length afterTxs - length txs" "te = ts + length txs"
    by (auto simp: blockSpans_def Let_def split: option.splits prod.splits)
  have rest: "rest = []" using assms(1,3) l(1) unfolding rlp_laws_def by blast
  obtain p where p: "inner = p @ content @ rest" by (rule splits_lengths [OF s(2) l(1)])
  obtain q where q: "content = q @ hc @ afterHeader" by (rule splits_lengths [OF s(1) l(2)])
  obtain r where r: "afterHeader = r @ txs @ afterTxs" by (rule splits_lengths [OF s(2) l(3)])
  have pieces: "inner = p @ (q @ hc) @ r @ txs @ afterTxs" using p q r rest by simp
  show thesis by (rule that [OF pieces]) (use e rest pieces q r in simp_all)
qed

text \<open>
  C17. Nothing is stored that cannot be served: whenever \<^verbatim>\<open>SplitContainer\<close> accepts a container, the
  header and transactions of the block it returns re-encode, and reassembling them with the returned
  \<^verbatim>\<open>pvm\<close> row gives the fetched bytes back, whatever the RLP and proposervm libraries do.
\<close>

theorem SplitContainer_sound:
  assumes "SplitContainer R raw = Inr (pvm, inner)"
  shows "\<exists>hdr txs. blockPieces R inner = Inr (hdr, txs) \<and> Reassemble R pvm hdr txs = Inr raw"
  using assms
  by (auto simp: SplitContainer_def Let_def split: if_splits sum.splits option.splits prod.splits)

theorem SplitContainer_sound_witness:
  "\<exists>hdr txs. blockPieces short_lib ([131, 1, 2, 3], [[5], [6]]) = Inr (hdr, txs) \<and>
     Reassemble short_lib (pvmTemplate sample_raw 4 8 9 11) hdr txs = Inr sample_raw"
  by (rule SplitContainer_sound [OF sample_split])

text \<open>
  The converse: a container whose inner block is canonical -- its header and transactions re-encode
  to the very bytes they were decoded from -- is accepted.  \<open>canonical\<close> names those bytes by the
  spans of \<open>blockSpans\<close>.
\<close>

definition canonical :: "('blk, 'tx) rlp_lib \<Rightarrow> bytes \<Rightarrow> 'blk \<Rightarrow> bool" where
  "canonical R innerBytes inner =
     (case blockSpans R innerBytes of
        Inl _ \<Rightarrow> False
      | Inr (hs, he, ts, te) \<Rightarrow>
          (case blockPieces R inner of
             Inl _ \<Rightarrow> False
           | Inr (hdr, txs) \<Rightarrow> hdr = drop hs (take he innerBytes) \<and> concat txs = drop ts (take te innerBytes)))"

lemma Reassemble_canonical:
  assumes laws: "rlp_laws R" and dec: "decodeBlock R innerBytes = Some inner"
    and raw: "raw = pre @ innerBytes @ post" and len: "length raw < 2 ^ 32"
    and sp: "blockSpans R innerBytes = Inr (hs, he, ts, te)"
    and pcs: "blockPieces R inner = Inr (hdr, txs)" and can: "canonical R innerBytes inner"
    and off: "off = length pre"
  shows "Reassemble R (pvmTemplate raw (off + hs) (off + he) (off + ts) (off + te)) hdr txs = Inr raw"
proof -
  obtain a h b t c where ib: "innerBytes = a @ h @ b @ t @ c"
    and l: "hs = length a" "he = hs + length h" "ts = he + length b" "te = ts + length t"
    by (rule blockSpans_pieces [OF laws sp]) (use dec in auto)
  have "hdr = h" "concat txs = t" using can sp pcs by (simp_all add: canonical_def ib l)
  then show ?thesis
    by (intro Reassemble_template [where a = "pre @ a" and b = b and c = "c @ post"])
      (use len l off in \<open>simp_all add: raw ib\<close>)
qed

text \<open>
  C18. No valid container is refused: if the inner block bytes occur in a container under 4 GiB,
  decode, and are canonical, then \<^verbatim>\<open>SplitContainer\<close> succeeds with that block, wherever in the
  container \<^verbatim>\<open>bytes.Index\<close> finds those bytes first.
\<close>

theorem SplitContainer_accepts:
  assumes "rlp_laws R" and "innerOf R raw = Inr innerBytes" and "decodeBlock R innerBytes = Some inner"
    and "raw = pre @ innerBytes @ post" and "raw \<noteq> []" and "length raw < 2 ^ 32"
    and "canonical R innerBytes inner"
  shows "\<exists>pvm. SplitContainer R raw = Inr (pvm, inner)"
proof -
  obtain hs he ts te hdr txs where sp: "blockSpans R innerBytes = Inr (hs, he, ts, te)"
    and pcs: "blockPieces R inner = Inr (hdr, txs)"
    using assms(7) by (cases "blockPieces R inner") (auto simp: canonical_def split: sum.splits prod.splits)
  obtain off where off: "bytes_Index raw innerBytes = Some off"
    using bytes_Index_found [of pre innerBytes post] assms(4) by blast
  then obtain pre' post' where found: "raw = pre' @ innerBytes @ post'" "off = length pre'"
    using bytes_Index_Some by blast
  then have "Reassemble R (pvmTemplate raw (off + hs) (off + he) (off + ts) (off + te)) hdr txs = Inr raw"
    by (intro Reassemble_canonical [OF assms(1,3) found(1) assms(6) sp pcs assms(7) found(2)])
  then show ?thesis using assms(2,3,5) sp pcs off by (simp add: SplitContainer_def Let_def)
qed

lemma sample_inner_facts:
  "innerOf short_lib sample_raw = Inr sample_inner"
  "decodeBlock short_lib sample_inner = Some ([131, 1, 2, 3], [[5], [6]])"
  "canonical short_lib sample_inner ([131, 1, 2, 3], [[5], [6]])"
  by code_simp+

theorem SplitContainer_accepts_witness:
  "\<exists>pvm. SplitContainer short_lib sample_raw = Inr (pvm, ([131, 1, 2, 3], [[5], [6]]))"
  by (rule SplitContainer_accepts [OF short_lib_laws sample_inner_facts(1,2), of "[0, 0, 9]" "[170]"])
    (simp_all only: sample_inner_facts, simp_all add: sample_raw_def sample_inner_def)

end
