(* ===== verification/Memtable.thy ===== *)
theory Memtable
  imports Keys Container "HOL-Library.AList"
begin

text \<open>
  The unflushed window, \<^verbatim>\<open>src/store/mem.go\<close>: the chain-row index, the window log with its buffered
  writer, the block writer \<open>add_block\<close> (Go's \<^verbatim>\<open>memtable.add\<close>), the replay \<open>recover\<close> and the reads.

  The Go maps are association lists without duplicate keys (\<open>AList.update\<close>), the file is its bytes,
  and the buffered writer is the bytes it still holds.  An operation that can fail half way returns
  the state it leaves behind together with the error (\<open>mres\<close>).  Disk operations succeed; a write of
  the operating system that fails stops the program and is not a branch of the model.
\<close>

section \<open>The chain-row index\<close>

record chainIndex =
  ci_base :: u64
  ci_set :: bool
  ci_off :: "u64 list"
  ci_n :: "u32 list"

definition ci_empty :: chainIndex where
  "ci_empty = \<lparr>ci_base = 0, ci_set = False, ci_off = [], ci_n = []\<rparr>"

definition ci_next :: "chainIndex \<Rightarrow> u64" where
  "ci_next c = ci_base c + of_nat (length (ci_off c))"

definition ci_add :: "u64 \<Rightarrow> u64 \<Rightarrow> nat \<Rightarrow> chainIndex \<Rightarrow> chainIndex \<times> err option" where
  "ci_add num off n c =
     (let c = (if \<not> ci_set c then c\<lparr>ci_base := num, ci_set := True\<rparr> else c) in
      if num \<noteq> ci_next c then (c, Some (ChainRowGap num (ci_next c)))
      else (c\<lparr>ci_off := ci_off c @ [off], ci_n := ci_n c @ [of_nat n]\<rparr>, None))"

definition ci_find :: "u64 \<Rightarrow> chainIndex \<Rightarrow> (u64 \<times> u32) option" where
  "ci_find num c =
     (if \<not> ci_set c \<or> num < ci_base c \<or> num \<ge> ci_next c then None
      else let i = unat (num - ci_base c) in
        if ci_off c ! i = 0 then None else Some (ci_off c ! i, ci_n c ! i))"

lemma ci_next_append:
  "ci_next (c\<lparr>ci_off := ci_off c @ [x], ci_n := y\<rparr>) = ci_next c + 1"
  by (simp add: ci_next_def)

function ci_pad_loop :: "u64 \<Rightarrow> chainIndex \<Rightarrow> chainIndex" where
  "ci_pad_loop next c =
     (if ci_next c < next
      then ci_pad_loop next (c\<lparr>ci_off := ci_off c @ [0], ci_n := ci_n c @ [0]\<rparr>)
      else c)"
  by pat_completeness auto

termination
proof (relation "measure (\<lambda>(next, c). unat next - unat (ci_next c))")
  fix "next" :: u64 and c
  assume lt: "ci_next c < next"
  then have "unat (ci_next c + 1) = unat (ci_next c) + 1"
    by (rule unat_add1)
  with lt show "((next, c\<lparr>ci_off := ci_off c @ [0], ci_n := ci_n c @ [0]\<rparr>), next, c)
      \<in> measure (\<lambda>(next, c). unat next - unat (ci_next c))"
    by (simp add: ci_next_append word_less_nat_alt)
qed simp

declare ci_pad_loop.simps [simp del]

definition ci_padTo :: "u64 \<Rightarrow> chainIndex \<Rightarrow> chainIndex" where
  "ci_padTo next c =
     ci_pad_loop next (if \<not> ci_set c then c\<lparr>ci_base := next - 1, ci_set := True\<rparr> else c)"

definition ci_reset :: "chainIndex \<Rightarrow> chainIndex" where
  "ci_reset c = \<lparr>ci_base = 0, ci_set = False, ci_off = [], ci_n = []\<rparr>"

section \<open>Families, records and the window\<close>

datatype fam = FamBlk | FamHdr | FamItx | FamPvm | FamRcpt | FamTx

definition famPrefix :: "fam \<Rightarrow> bytes" where
  "famPrefix f = (case f of FamBlk \<Rightarrow> PrefixBlk | FamHdr \<Rightarrow> PrefixHdr | FamItx \<Rightarrow> PrefixItx
     | FamPvm \<Rightarrow> PrefixPvm | FamRcpt \<Rightarrow> PrefixRcpt | FamTx \<Rightarrow> PrefixTx)"

definition allFams :: "fam list" where
  "allFams = [FamBlk, FamHdr, FamItx, FamPvm, FamRcpt, FamTx]"

definition txKeyedFams :: "fam list" where
  "txKeyedFams = [FamItx, FamRcpt, FamTx]"

text \<open>The record kinds are the code's letters.\<close>

definition recState :: byte where "recState = of_char (CHR ''S'')"
definition recPost :: byte where "recPost = of_char (CHR ''L'')"
definition recNum :: byte where "recNum = of_char (CHR ''X'')"
definition recSet :: byte where "recSet = of_char (CHR ''K'')"
definition recCode :: byte where "recCode = of_char (CHR ''C'')"
definition recEnd :: byte where "recEnd = of_char (CHR ''E'')"

definition famRec :: "fam \<Rightarrow> byte" where
  "famRec f = (case f of FamBlk \<Rightarrow> of_char (CHR ''B'') | FamHdr \<Rightarrow> of_char (CHR ''H'')
     | FamItx \<Rightarrow> of_char (CHR ''I'') | FamPvm \<Rightarrow> of_char (CHR ''P'')
     | FamRcpt \<Rightarrow> of_char (CHR ''R'') | FamTx \<Rightarrow> of_char (CHR ''T''))"

definition recHeader :: nat where "recHeader = 1 + 8 + 4"

record posting =
  p_group :: bytes
  p_txnum :: u64
  p_payload :: byte

type_synonym memVal = "u64 \<times> bytes"

record memtable =
  logFile :: bytes          \<comment> \<open>the bytes of the file \<open>m.f\<close>\<close>
  logOpen :: bool           \<comment> \<open>\<open>m.f != nil\<close>\<close>
  logBuf :: bytes           \<comment> \<open>what \<open>m.bw\<close> still holds\<close>
  readOnly :: bool
  pos :: u64
  flushed :: u64
  baseTx :: u64
  nextTx :: u64
  baseHeight :: u64
  nextHeight :: u64
  started :: bool
  chain :: "chainIndex list"  \<comment> \<open>the array \<open>[6]chainIndex\<close>\<close>
  mstate :: "(bytes \<times> memVal list) list"
  mcode :: "(bytes \<times> bytes) list"
  mnums :: "(bytes \<times> u64) list"
  mpost :: "posting list"
  msets :: "bytes list"

fun famIdx :: "fam \<Rightarrow> nat" where
  "famIdx FamBlk = 0" | "famIdx FamHdr = 1" | "famIdx FamItx = 2"
| "famIdx FamPvm = 3" | "famIdx FamRcpt = 4" | "famIdx FamTx = 5"

definition chainOf :: "fam \<Rightarrow> memtable \<Rightarrow> chainIndex" where
  "chainOf f m = chain m ! famIdx f"

definition setChain :: "fam \<Rightarrow> chainIndex \<Rightarrow> memtable \<Rightarrow> memtable" where
  "setChain f c m = m\<lparr>chain := (chain m)[famIdx f := c]\<rparr>"

type_synonym mres = "memtable \<times> err option"

text \<open>Sequencing: the next statement runs only when the previous one returned no error.\<close>

fun and_then :: "mres \<Rightarrow> (memtable \<Rightarrow> mres) \<Rightarrow> mres" where
  "and_then (m, None) k = k m"
| "and_then (m, Some e) k = (m, Some e)"

fun for_each :: "('a \<Rightarrow> memtable \<Rightarrow> mres) \<Rightarrow> 'a list \<Rightarrow> memtable \<Rightarrow> mres" where
  "for_each g [] m = (m, None)"
| "for_each g (x # xs) m = and_then (g x m) (for_each g xs)"

definition clear :: "memtable \<Rightarrow> memtable" where
  "clear m = m\<lparr>mstate := [], mcode := [], mnums := [], mpost := [], msets := [],
     chain := map ci_reset (chain m), pos := 0, flushed := 0, started := False\<rparr>"

definition newMemtableAt :: "bytes \<Rightarrow> bool \<Rightarrow> memtable" where
  "newMemtableAt file ro =
     clear \<lparr>logFile = file, logOpen = True, logBuf = [], readOnly = ro, pos = 0, flushed = 0,
       baseTx = 0, nextTx = 0, baseHeight = 0, nextHeight = 0, started = False,
       chain = replicate 6 ci_empty, mstate = [], mcode = [], mnums = [], mpost = [], msets = []\<rparr>"

section \<open>The window log\<close>

text \<open>
  Go's \<^verbatim>\<open>bufio.Writer\<close> of \<^verbatim>\<open>1<<20\<close> bytes: what fits is buffered; what does not fit fills the buffer,
  which goes to the file, and a rest larger than the buffer goes to the file directly.
\<close>

definition bufSize :: nat where "bufSize = 1048576"

definition bw_Write :: "bytes \<Rightarrow> memtable \<Rightarrow> memtable" where
  "bw_Write p m =
     (if length p \<le> bufSize - length (logBuf m) then m\<lparr>logBuf := logBuf m @ p\<rparr>
      else if logBuf m = [] then m\<lparr>logFile := logFile m @ p\<rparr>
      else
        let k = bufSize - length (logBuf m); rest = drop k p;
            m' = m\<lparr>logFile := logFile m @ logBuf m @ take k p, logBuf := []\<rparr>
        in if length rest \<le> bufSize then m'\<lparr>logBuf := rest\<rparr> else m'\<lparr>logFile := logFile m' @ rest\<rparr>)"

definition bw_Flush :: "memtable \<Rightarrow> memtable" where
  "bw_Flush m = m\<lparr>logFile := logFile m @ logBuf m, logBuf := []\<rparr>"

definition flushLocked :: "memtable \<Rightarrow> memtable" where
  "flushLocked m = (if flushed m = pos m then m else (bw_Flush m)\<lparr>flushed := pos m\<rparr>)"

definition recHdr :: "byte \<Rightarrow> u64 \<Rightarrow> nat \<Rightarrow> bytes" where
  "recHdr kind num n = kind # be64 num @ be32 (of_nat n)"

text \<open>\<open>write_rec\<close> is \<^verbatim>\<open>memtable.write\<close>; the result is the body offset and the payload length.\<close>

definition write_rec :: "byte \<Rightarrow> u64 \<Rightarrow> bytes list \<Rightarrow> memtable \<Rightarrow> memtable \<times> u64 \<times> nat" where
  "write_rec kind num payload m =
     (let n = sum_list (map length payload);
          m' = bw_Write (recHdr kind num n) m;
          body = pos m' + of_nat recHeader;
          m'' = fold bw_Write payload m'
      in (m''\<lparr>pos := body + of_nat n\<rparr>, body, n))"

definition putState :: "bytes \<Rightarrow> u64 \<Rightarrow> bytes \<Rightarrow> memtable \<Rightarrow> memtable" where
  "putState key txnum val m =
     (let h = (case map_of (mstate m) key of None \<Rightarrow> [] | Some h \<Rightarrow> h) in
      if h \<noteq> [] \<and> fst (last h) = txnum
      then m\<lparr>mstate := AList.update key (butlast h @ [(txnum, val)]) (mstate m)\<rparr>
      else m\<lparr>mstate := AList.update key (h @ [(txnum, val)]) (mstate m)\<rparr>)"

definition chainRow :: "fam \<Rightarrow> u64 \<Rightarrow> bytes \<Rightarrow> memtable \<Rightarrow> mres" where
  "chainRow f num val m =
     (let (m', off, n) = write_rec (famRec f) num [val] m;
          (c, e) = ci_add num off n (chainOf f m')
      in (setChain f c m', e))"

definition numRow :: "bytes \<Rightarrow> u64 \<Rightarrow> memtable \<Rightarrow> mres" where
  "numRow key num m =
     (let m' = fst (write_rec recNum num [key] m) in (m'\<lparr>mnums := AList.update key num (mnums m')\<rparr>, None))"

definition postRow :: "bytes \<Rightarrow> u64 \<Rightarrow> byte \<Rightarrow> memtable \<Rightarrow> mres" where
  "postRow g txnum payload m =
     (let m' = fst (write_rec recPost txnum [[payload], g] m)
      in (m'\<lparr>mpost := mpost m' @ [\<lparr>p_group = g, p_txnum = txnum, p_payload = payload\<rparr>]\<rparr>, None))"

section \<open>The block writer\<close>

record StateRow =
  Kind :: byte
  Addr :: bytes
  Slot :: bytes
  Val :: bytes

record LogWrite =
  Emitter :: bytes
  Topics :: "bytes list"

record TxWrite =
  TxHash :: bytes
  RLP :: bytes
  Receipt :: bytes
  Frames :: bytes
  FrameAddrs :: "bytes list"
  TxState :: "StateRow list"
  Sender :: bytes
  To :: bytes
  Created :: bytes
  Logs :: "LogWrite list"

text \<open>The map \<^verbatim>\<open>Code\<close> is the list of its entries in the order the loop ranges over them.\<close>

record BlockWrite =
  Height :: u64
  HeaderRLP :: bytes
  Pvm :: bytes
  Txs :: "TxWrite list"
  Code :: "(bytes \<times> bytes) list"
  Tail :: "StateRow list"

definition stateKeyPrefix :: "StateRow \<Rightarrow> bytes" where
  "stateKeyPrefix r =
     (if Kind r = of_char (CHR ''a'') then AccountPrefix (Addr r)
      else if Kind r = of_char (CHR ''c'') then CodeRefPrefix (Addr r)
      else SlotPrefix (Addr r) (Slot r))"

text \<open>\<open>post[k] |= v\<close> on a Go map, whose absent entries read as 0.\<close>

definition or_at :: "bytes \<Rightarrow> byte \<Rightarrow> (bytes \<times> byte) list \<Rightarrow> (bytes \<times> byte) list" where
  "or_at k v post = AList.update k ((case map_of post k of None \<Rightarrow> 0 | Some x \<Rightarrow> x) OR v) post"

definition zeroHash :: bytes where "zeroHash = replicate 32 0"

definition topicPositions :: "bytes list \<Rightarrow> nat list" where
  "topicPositions topics = filter (\<lambda>i. i < length topics \<and> i \<le> 3) [1, 2, 3]"

definition logPostings :: "bytes \<Rightarrow> bytes list \<Rightarrow> (bytes \<times> byte) list \<Rightarrow> (bytes \<times> byte) list" where
  "logPostings emitter topics post =
     (let topic0 = (if length topics > 0 then topics ! 0 else zeroHash);
          post = (if length topics > 0 then or_at (SigGroup topic0) 0 post else post);
          post = or_at (ELogGroup emitter topic0) 0 post
      in fold (\<lambda>i. or_at (TValGroup (topics ! i) topic0) (push_bit (i - 1) 1)) (topicPositions topics) post)"

definition logSets :: "bytes \<Rightarrow> bytes list \<Rightarrow> bytes list" where
  "logSets emitter topics =
     map (\<lambda>i. SetKey (topics ! 0) (of_nat i) (topics ! i) emitter) (topicPositions topics)"

definition sortedKeys :: "(bytes \<times> byte) list \<Rightarrow> bytes list" where
  "sortedKeys post = sort (map fst post)"

definition role :: "bytes \<Rightarrow> byte \<Rightarrow> (bytes \<times> byte) list \<Rightarrow> (bytes \<times> byte) list" where
  "role a r post = (if length a > 0 then or_at (AddrPrefix a) r post else post)"

definition txPostings :: "TxWrite \<Rightarrow> (bytes \<times> byte) list" where
  "txPostings t =
     fold (\<lambda>l post. logPostings (Emitter l) (Topics l) (role (Emitter l) RoleEmitter post)) (Logs t)
       (fold (\<lambda>a. role a RoleFrame) (FrameAddrs t)
         (role (Created t) RoleCreated (role (To t) RoleRecipient (role (Sender t) RoleSender []))))"

definition stateRow :: "u64 \<Rightarrow> StateRow \<Rightarrow> memtable \<Rightarrow> mres" where
  "stateRow n r m =
     (let k = stateKeyPrefix r;
          m' = fst (write_rec recState n [be16 (of_nat (length k)), k, Val r] m)
      in (putState k n (Val r) m', None))"

definition setRow :: "u64 \<Rightarrow> bytes \<Rightarrow> memtable \<Rightarrow> mres" where
  "setRow n k m =
     (if k \<in> set (msets m) then (m, None)
      else let m' = fst (write_rec recSet n [k] m) in (m'\<lparr>msets := List.insert k (msets m')\<rparr>, None))"

definition codeRow :: "bytes \<times> bytes \<Rightarrow> memtable \<Rightarrow> mres" where
  "codeRow hb m =
     (if map_of (mcode m) (fst hb) \<noteq> None then (m, None)
      else let m' = fst (write_rec recCode 0 [fst hb, snd hb] m)
        in (m'\<lparr>mcode := AList.update (fst hb) (snd hb) (mcode m')\<rparr>, None))"

text \<open>The body of the loop over the transactions, at TxNum \<open>n\<close>.\<close>

definition txRows :: "u64 \<times> TxWrite \<Rightarrow> memtable \<Rightarrow> mres" where
  "txRows nt m =
     (let n = fst nt; t = snd nt; post = txPostings t in
      and_then (and_then (and_then (and_then (and_then (and_then (chainRow FamItx n (Frames t) m)
        (chainRow FamRcpt n (Receipt t)))
        (chainRow FamTx n (RLP t)))
        (numRow (TxHashKey (TxHash t)) n))
        (for_each (\<lambda>g. postRow g n (case map_of post g of None \<Rightarrow> 0 | Some v \<Rightarrow> v)) (sortedKeys post)))
        (for_each (\<lambda>l. for_each (setRow n) (logSets (Emitter l) (Topics l))) (Logs t)))
        (for_each (stateRow n) (TxState t)))"

record hash_lib =
  Keccak256 :: "bytes \<Rightarrow> bytes"
  Sum256 :: "bytes \<Rightarrow> bytes"

definition cidRow :: "('blk, 'tx) rlp_lib \<Rightarrow> hash_lib \<Rightarrow> BlockWrite \<Rightarrow> memtable \<Rightarrow> mres" where
  "cidRow R H b m =
     (case Reassemble R (Pvm b) (HeaderRLP b) (map RLP (Txs b)) of
        Inl e \<Rightarrow> (m, Some e)
      | Inr container \<Rightarrow> numRow (CidKey (Sum256 H container)) (Height b) m)"

text \<open>The transactions with their TxNums, \<open>first + uint64(i)\<close>.\<close>

definition numbered :: "u64 \<Rightarrow> 'a list \<Rightarrow> (u64 \<times> 'a) list" where
  "numbered first xs = zip (map (\<lambda>i. first + of_nat i) [0..<length xs]) xs"

definition blkVal :: "u64 \<Rightarrow> BlockWrite \<Rightarrow> bytes" where
  "blkVal first b = be64 first @ be32 (of_nat (length (Txs b)))"

definition padFam :: "u64 \<Rightarrow> fam \<Rightarrow> memtable \<Rightarrow> memtable" where
  "padFam next f m = setChain f (ci_padTo next (chainOf f m)) m"

definition padFams :: "u64 \<Rightarrow> memtable \<Rightarrow> memtable" where
  "padFams next m = fold (padFam next) txKeyedFams m"

definition blockRows :: "('blk, 'tx) rlp_lib \<Rightarrow> hash_lib \<Rightarrow> BlockWrite \<Rightarrow> memtable \<Rightarrow> mres" where
  "blockRows R H b m =
     (let first = nextTx m; tailAt = first + of_nat (length (Txs b)) in
      and_then (and_then (and_then (and_then (and_then (and_then (and_then (chainRow FamBlk (Height b) (blkVal first b) m)
        (chainRow FamHdr (Height b) (HeaderRLP b)))
        (chainRow FamPvm (Height b) (Pvm b)))
        (numRow (BlkHashKey (Keccak256 H (HeaderRLP b))) (Height b)))
        (cidRow R H b))
        (for_each codeRow (Code b)))
        (for_each txRows (numbered first (Txs b))))
        (for_each (stateRow tailAt) (Tail b)))"

definition endBlock :: "u64 \<Rightarrow> u64 \<Rightarrow> memtable \<Rightarrow> memtable" where
  "endBlock h next m =
     flushLocked (fst (write_rec recEnd h [be64 next] ((padFams next m)\<lparr>nextTx := next, nextHeight := h + 1\<rparr>)))"

definition finishBlock :: "u64 \<Rightarrow> u64 \<Rightarrow> memtable \<Rightarrow> mres" where
  "finishBlock h next m = (endBlock h next m, None)"

definition addStarted :: "('blk, 'tx) rlp_lib \<Rightarrow> hash_lib \<Rightarrow> BlockWrite \<Rightarrow> memtable \<Rightarrow> mres" where
  "addStarted R H b m =
     (if Height b \<noteq> nextHeight m then (m, Some (BlockOutOfOrder (Height b) (nextHeight m)))
      else and_then (blockRows R H b m) (finishBlock (Height b) (nextTx m + of_nat (length (Txs b)) + 1)))"

definition add_block :: "('blk, 'tx) rlp_lib \<Rightarrow> hash_lib \<Rightarrow> BlockWrite \<Rightarrow> memtable \<Rightarrow> mres" where
  "add_block R H b m =
     (if Height b < nextHeight m then (m, None)
      else if \<not> started m \<and> nextHeight m \<noteq> 0 \<and> Height b \<noteq> nextHeight m
        then (m, Some (FreshWindowHole (Height b) (nextHeight m)))
      else addStarted R H b
        (if \<not> started m then m\<lparr>baseHeight := Height b, nextHeight := Height b, started := True\<rparr> else m))"

section \<open>Replay\<close>

text \<open>A deferred mutation of the replay: the closures \<open>pend\<close> collects.\<close>

datatype pend =
    PChain fam u64 u64 nat
  | PState bytes u64 bytes
  | PPost bytes u64 byte
  | PNum bytes u64
  | PSet bytes
  | PCode bytes bytes
  | PPad u64

fun run_pend :: "pend \<Rightarrow> memtable \<Rightarrow> mres" where
  "run_pend (PChain f num body n) m =
     (let (c, e) = ci_add num body n (chainOf f m) in (setChain f c m, e))"
| "run_pend (PState key num val) m = (putState key num val m, None)"
| "run_pend (PPost g num v) m =
     (m\<lparr>mpost := mpost m @ [\<lparr>p_group = g, p_txnum = num, p_payload = v\<rparr>]\<rparr>, None)"
| "run_pend (PNum k num) m = (m\<lparr>mnums := AList.update k num (mnums m)\<rparr>, None)"
| "run_pend (PSet k) m = (m\<lparr>msets := List.insert k (msets m)\<rparr>, None)"
| "run_pend (PCode h blob) m = (m\<lparr>mcode := AList.update h blob (mcode m)\<rparr>, None)"
| "run_pend (PPad nt) m = (padFams nt m, None)"

definition famOf :: "byte \<Rightarrow> fam option" where
  "famOf kind = find (\<lambda>f. famRec f = kind) allFams"

text \<open>
  What one record contributes: \<open>None\<close> is \<^verbatim>\<open>break replay\<close>.  The end record is treated by the loop.
\<close>

definition pend_of :: "byte \<Rightarrow> u64 \<Rightarrow> bytes \<Rightarrow> u64 \<Rightarrow> pend option" where
  "pend_of kind num payload body =
     (case famOf kind of
        Some f \<Rightarrow> Some (PChain f num body (length payload))
      | None \<Rightarrow>
          if kind = recState then
            (if length payload < 2 then None
             else let kl = unat (get16 payload) in
               if length payload < 2 + kl then None
               else Some (PState (take kl (drop 2 payload)) num (drop (2 + kl) payload)))
          else if kind = recPost then
            (case payload of [] \<Rightarrow> None | v # g \<Rightarrow> Some (PPost g num v))
          else if kind = recNum then Some (PNum payload num)
          else if kind = recSet then Some (PSet payload)
          else if kind = recCode then
            (if length payload < 32 then None else Some (PCode (take 32 payload) (drop 32 payload)))
          else None)"

text \<open>One record off the reader: header, then payload; a short read or an absurd length ends the replay.\<close>

definition read_rec :: "bytes \<Rightarrow> (byte \<times> u64 \<times> bytes \<times> bytes) option" where
  "read_rec r =
     (if length r < recHeader then None
      else
        let kind = r ! 0; num = get64 (drop 1 r); n = unat (get32 (drop 9 r)); r' = drop recHeader r in
        if n > 2 ^ 30 then None
        else if length r' < n then None
        else Some (kind, num, take n r', drop n r'))"

lemma read_rec_shorter: "read_rec r = Some (kind, num, payload, r') \<Longrightarrow> length r' < length r"
  by (auto simp: read_rec_def recHeader_def Let_def split: if_splits)

definition commit :: "pend list \<Rightarrow> memtable \<Rightarrow> mres" where
  "commit = for_each run_pend"

function replay :: "bytes \<Rightarrow> u64 \<Rightarrow> u64 \<Rightarrow> pend list \<Rightarrow> memtable \<Rightarrow> (memtable \<times> u64) \<times> err option" where
  "replay r off good pend m =
     (case read_rec r of
        None \<Rightarrow> ((m, good), None)
      | Some (kind, num, payload, r') \<Rightarrow>
          let body = off + of_nat recHeader; off = body + of_nat (length payload) in
          if kind = recEnd then
            if length payload \<noteq> 8 then ((m, good), None)
            else if num < baseHeight m then replay r' off off [] m
            else
              let m = (if \<not> started m then m\<lparr>baseHeight := num, started := True\<rparr> else m);
                  nt = get64 payload
              in (case commit (pend @ [PPad nt]) m of
                    (m, Some e) \<Rightarrow> ((m, good), Some e)
                  | (m, None) \<Rightarrow> replay r' off off [] (m\<lparr>nextHeight := num + 1, nextTx := nt\<rparr>))
          else
            (case pend_of kind num payload body of
               None \<Rightarrow> ((m, good), None)
             | Some p \<Rightarrow> replay r' off good (pend @ [p]) m))"
  by pat_completeness auto
termination
  by (relation "measure (\<lambda>(r, _). length r)") (auto dest: read_rec_shorter)

declare replay.simps [simp del]

definition Truncate :: "nat \<Rightarrow> bytes \<Rightarrow> bytes" where
  "Truncate n file = take n file @ replicate (n - length file) 0"

definition recover :: "u64 \<Rightarrow> u64 \<Rightarrow> memtable \<Rightarrow> mres" where
  "recover tx h m =
     (let m = bw_Flush ((clear m)\<lparr>baseTx := tx, nextTx := tx, baseHeight := h, nextHeight := h\<rparr>) in
      case replay (logFile m) 0 0 [] m of
        ((m, good), Some e) \<Rightarrow> (m, Some e)
      | ((m, good), None) \<Rightarrow>
          let m = (if \<not> readOnly m then m\<lparr>logFile := Truncate (unat good) (logFile m), logBuf := []\<rparr> else m)
          in (m\<lparr>pos := good, flushed := good\<rparr>, None))"

definition reset :: "u64 \<Rightarrow> u64 \<Rightarrow> memtable \<Rightarrow> memtable" where
  "reset tx h m =
     (clear m)\<lparr>baseTx := tx, nextTx := tx, baseHeight := h, nextHeight := h, logFile := [], logBuf := []\<rparr>"

definition close_log :: "memtable \<Rightarrow> memtable" where
  "close_log m = (if \<not> logOpen m then m else (bw_Flush m)\<lparr>logOpen := False\<rparr>)"

definition sync :: "memtable \<Rightarrow> memtable" where
  "sync m = flushLocked m"

section \<open>Reads\<close>

definition readRow :: "(u64 \<times> u32) option \<Rightarrow> memtable \<Rightarrow> bytes option res" where
  "readRow on m =
     (case on of
        None \<Rightarrow> Inr None
      | Some (off, n) \<Rightarrow>
          if n = 0 then Inr (Some [])
          else if unat off + unat n \<le> length (logFile m)
            then Inr (Some (take (unat n) (drop (unat off) (logFile m))))
            else Inl ShortRead)"

text \<open>
  \<open>chainGet\<close> reads under the read lock when the row is below the watermark and otherwise drops the
  lock, takes the write lock and flushes.  \<open>other\<close> is whatever the other goroutines do to the memtable
  between the two locks.
\<close>

definition chainGet :: "(memtable \<Rightarrow> memtable) \<Rightarrow> fam \<Rightarrow> u64 \<Rightarrow> memtable \<Rightarrow> memtable \<times> bytes option res" where
  "chainGet other f num m =
     (if \<not> logOpen m then (m, Inr None)
      else
        let r = ci_find num (chainOf f m) in
        if (case r of None \<Rightarrow> True | Some (off, n) \<Rightarrow> n = 0 \<or> off + ucast n \<le> flushed m)
        then (m, readRow r m)
        else
          let m = other m in
          if \<not> logOpen m then (m, Inr None)
          else
            let r = ci_find num (chainOf f m);
                m = (case r of None \<Rightarrow> m | Some (off, n) \<Rightarrow> if n > 0 then flushLocked m else m)
            in (m, readRow r m))"

definition latestState :: "bytes \<Rightarrow> u64 \<Rightarrow> memtable \<Rightarrow> (bytes \<times> u64) option" where
  "latestState key at m =
     (let h = (case map_of (mstate m) key of None \<Rightarrow> [] | Some h \<Rightarrow> h);
          i = sort_Search (length h) (\<lambda>i. fst (h ! i) > at)
      in if i = 0 then None else Some (snd (h ! (i - 1)), fst (h ! (i - 1))))"

definition codeBlob :: "bytes \<Rightarrow> memtable \<Rightarrow> bytes option" where
  "codeBlob hash m = map_of (mcode m) hash"

definition mem_lookupNum :: "bytes \<Rightarrow> memtable \<Rightarrow> u64 option" where
  "mem_lookupNum key m = map_of (mnums m) key"

text \<open>\<open>eachChain\<close>: the rows of one family in number order, for the flush.\<close>

fun readRows :: "u64 \<Rightarrow> (u64 \<times> u32) list \<Rightarrow> memtable \<Rightarrow> (u64 \<times> bytes) list res" where
  "readRows num [] m = Inr []"
| "readRows num ((off, n) # rows) m =
     (if off = 0 then readRows (num + 1) rows m
      else
        case readRow (Some (off, n)) m of
          Inl e \<Rightarrow> Inl e
        | Inr v \<Rightarrow>
            (case readRows (num + 1) rows m of
               Inl e \<Rightarrow> Inl e
             | Inr rest \<Rightarrow> Inr ((num, (case v of None \<Rightarrow> [] | Some p \<Rightarrow> p)) # rest)))"

definition eachChain :: "fam \<Rightarrow> memtable \<Rightarrow> memtable \<times> (u64 \<times> bytes) list res" where
  "eachChain f m =
     (let m = flushLocked m; c = chainOf f m in (m, readRows (ci_base c) (zip (ci_off c) (ci_n c)) m))"

end
