(* ===== verification/Recover.thy ===== *)
theory Recover
  imports Memtable
begin

text \<open>
  Replay of the window log.  Every row the block writer adds is one log record followed by one
  in-memory mutation, and the replay decodes the record to the same mutation (\<open>emits\<close>); the lemmas
  lift this through the sequencing of \<open>blockRows\<close>, so that replaying the log of a window rebuilds the
  window, and replaying a log cut anywhere rebuilds the window after the last complete block.
\<close>

section \<open>The log as a list of records\<close>

type_synonym wrec = "byte \<times> u64 \<times> bytes"

definition log :: "memtable \<Rightarrow> bytes" where
  "log m = logFile m @ logBuf m"

fun rec_bytes :: "wrec \<Rightarrow> bytes" where
  "rec_bytes (k, n, p) = recHdr k n (length p) @ p"

abbreviation recs_bytes :: "wrec list \<Rightarrow> bytes" where
  "recs_bytes rs \<equiv> concat (map rec_bytes rs)"

fun valid_rec :: "wrec \<Rightarrow> bool" where
  "valid_rec (k, n, p) = (k \<noteq> recEnd \<and> length p \<le> 2 ^ 30)"

fun ops_at :: "u64 \<Rightarrow> wrec list \<Rightarrow> pend list option" where
  "ops_at off [] = Some []"
| "ops_at off ((k, n, p) # rs) =
     (case pend_of k n p (off + of_nat recHeader) of
        None \<Rightarrow> None
      | Some op \<Rightarrow> map_option ((#) op) (ops_at (off + of_nat recHeader + of_nat (length p)) rs))"

lemma length_recHdr [simp]: "length (recHdr k n l) = 13"
  by (simp add: recHdr_def be64_def be32_def)

lemma length_rec_bytes [simp]: "length (rec_bytes (k, n, p)) = 13 + length p"
  by simp

lemma read_rec_bytes:
  assumes "length p \<le> 2 ^ 30"
  shows "read_rec (rec_bytes (k, n, p) @ r) = Some (k, n, p, r)"
proof -
  have "unat (of_nat (length p) :: u32) = length p"
    using assms by (simp add: unat_of_nat)
  moreover have "drop 9 (recHdr k n (length p) @ p @ r) = be32 (of_nat (length p)) @ p @ r"
    by (simp add: recHdr_def be64_def)
  ultimately show ?thesis
    using assms by (simp add: read_rec_def recHeader_def Let_def) (simp add: recHdr_def)
qed

lemma read_rec_torn:
  assumes "length p \<le> 2 ^ 30" and "j < 13 + length p"
  shows "read_rec (take j (rec_bytes (k, n, p) @ r)) = None"
proof (cases "j < 13")
  case True
  then show ?thesis by (simp add: read_rec_def recHeader_def)
next
  case False
  have u: "unat (of_nat (length p) :: u32) = length p"
    using assms by (simp add: unat_of_nat)
  obtain i where j: "j = 13 + i" using False by (metis le_iff_add not_less)
  then have "take j (rec_bytes (k, n, p) @ r) = recHdr k n (length p) @ take i (p @ r)" by simp
  moreover have "drop 9 (recHdr k n (length p) @ take i (p @ r)) = be32 (of_nat (length p)) @ take i (p @ r)"
    by (simp add: recHdr_def be64_def)
  ultimately show ?thesis using assms(2) j u by (simp add: read_rec_def recHeader_def Let_def)
qed

lemma ops_at_append:
  "ops_at off (rs @ rs') =
     (case ops_at off rs of None \<Rightarrow> None
      | Some ops \<Rightarrow> map_option ((@) ops) (ops_at (off + of_nat (length (recs_bytes rs))) rs'))"
proof (induction off rs rule: ops_at.induct)
  case (1 off)
  then show ?case by (cases "ops_at off rs'") simp_all
next
  case (2 off k n p rs)
  show ?case
  proof (cases "pend_of k n p (off + of_nat recHeader)")
    case (Some op)
    have len: "off + of_nat (length (recs_bytes ((k, n, p) # rs))) =
        off + of_nat recHeader + of_nat (length p) + of_nat (length (recs_bytes rs))"
      by (simp add: recHeader_def)
    show ?thesis
      unfolding len
      by (simp add: Some "2" [OF Some] option.map_comp comp_def split: option.splits)
        (auto intro: option.map_cong0)
  qed simp
qed

section \<open>Replaying records\<close>

lemma replay_records:
  assumes "list_all valid_rec rs" and "ops_at off rs = Some ops"
  shows "replay (recs_bytes rs @ r) off good pend m =
    replay r (off + of_nat (length (recs_bytes rs))) good (pend @ ops) m"
  using assms
proof (induction rs arbitrary: off ops pend)
  case Nil
  then show ?case by simp
next
  case (Cons x rs)
  obtain k n p where x: "x = (k, n, p)" by (cases x)
  from Cons.prems x obtain op ops' where op: "pend_of k n p (off + of_nat recHeader) = Some op"
    and ops': "ops_at (off + of_nat recHeader + of_nat (length p)) rs = Some ops'" "ops = op # ops'"
    by (auto split: option.splits)
  have "replay (recs_bytes (x # rs) @ r) off good pend m =
      replay (recs_bytes rs @ r) (off + of_nat recHeader + of_nat (length p)) good (pend @ [op]) m"
    using Cons.prems x op read_rec_bytes [of p k n "recs_bytes rs @ r"]
    by (subst replay.simps) (simp add: Let_def)
  also have "\<dots> = replay r (off + of_nat recHeader + of_nat (length p) + of_nat (length (recs_bytes rs))) good
      ((pend @ [op]) @ ops') m"
    using Cons.prems ops'(1) by (intro Cons.IH) simp_all
  finally show ?case by (simp add: ops' x recHeader_def add.assoc)
qed

text \<open>A cut inside a block, before its end record is complete, changes nothing but the pending list.\<close>

lemma replay_torn:
  assumes "list_all valid_rec rs" and "ops_at off rs = Some ops"
    and "j < length (recs_bytes rs @ rec_bytes (k, n, p))" and "length p \<le> 2 ^ 30"
  shows "replay (take j (recs_bytes rs @ rec_bytes (k, n, p))) off good pend m = ((m, good), None)"
  using assms
proof (induction rs arbitrary: off ops pend j)
  case Nil
  then have "read_rec (take j (rec_bytes (k, n, p))) = None"
    using read_rec_torn [of p j k n "[]"] by simp
  then show ?case by (subst replay.simps) simp
next
  case (Cons x rs)
  obtain k' n' p' where x: "x = (k', n', p')" by (cases x)
  have p': "length p' \<le> 2 ^ 30" "k' \<noteq> recEnd" using Cons.prems x by auto
  show ?case
  proof (cases "j < 13 + length p'")
    case True
    then have "read_rec (take j (rec_bytes (k', n', p') @ recs_bytes rs @ rec_bytes (k, n, p))) = None"
      by (rule read_rec_torn [OF p'(1)])
    then show ?thesis by (subst replay.simps) (simp add: x)
  next
    case False
    then obtain i where j: "j = 13 + length p' + i" by (metis le_iff_add not_less)
    let ?t = "take i (recs_bytes rs @ rec_bytes (k, n, p))"
    have t: "take j (recs_bytes (x # rs) @ rec_bytes (k, n, p)) = rec_bytes (k', n', p') @ ?t"
      by (simp add: x j)
    from Cons.prems x obtain op ops' where op: "pend_of k' n' p' (off + of_nat recHeader) = Some op"
      and ops': "ops_at (off + of_nat recHeader + of_nat (length p')) rs = Some ops'"
      by (auto split: option.splits)
    have "replay (rec_bytes (k', n', p') @ ?t) off good pend m =
        replay ?t (off + of_nat recHeader + of_nat (length p')) good (pend @ [op]) m"
      using op p' read_rec_bytes [of p' k' n' ?t] by (subst replay.simps) (simp add: Let_def)
    also have "\<dots> = ((m, good), None)"
      using Cons.prems(1,3,4) ops' by (intro Cons.IH) (simp_all add: x j)
    finally show ?thesis by (simp only: t)
  qed
qed

section \<open>Every row is a record and its mutation\<close>

text \<open>\<open>put_log s m\<close> is \<open>m\<close> with the log, its counters and the two window ends of \<open>s\<close>.\<close>

definition put_log :: "memtable \<Rightarrow> memtable \<Rightarrow> memtable" where
  "put_log s m = m\<lparr>logFile := logFile s, logBuf := logBuf s, pos := pos s, flushed := flushed s,
     nextTx := nextTx s, nextHeight := nextHeight s\<rparr>"

lemma put_log_simps [simp]:
  "put_log m m = m" "put_log s (put_log s' m) = put_log s m"
  "put_log (put_log s m) m' = put_log s m'"
  "baseHeight (put_log s m) = baseHeight m" "started (put_log s m) = started m"
  "nextTx (put_log s m) = nextTx s" "nextHeight (put_log s m) = nextHeight s"
  "logFile (put_log s m) = logFile s" "readOnly (put_log s m) = readOnly m"
  by (simp_all add: put_log_def)

lemma padFams_put_log: "padFams nt (put_log s m) = put_log s (padFams nt m)"
  by (simp add: padFams_def padFam_def setChain_def chainOf_def txKeyedFams_def put_log_def)

lemma putState_put_log: "putState k n v (put_log s m) = put_log s (putState k n v m)"
  by (simp add: putState_def put_log_def Let_def)

lemma run_pend_put_log: "run_pend op (put_log s m) = map_prod (put_log s) (\<lambda>e. e) (run_pend op m)"
  by (cases op) (simp_all add: padFams_put_log putState_put_log, simp_all add: put_log_def setChain_def chainOf_def split: prod.split)

lemma and_then_map_prod:
  "(\<And>m. k (h m) = map_prod h (\<lambda>e. e) (k m)) \<Longrightarrow>
     and_then (map_prod h (\<lambda>e. e) r) k = map_prod h (\<lambda>e. e) (and_then r k)"
  by (cases r; cases "snd r") auto

lemma commit_put_log: "commit ops (put_log s m) = map_prod (put_log s) (\<lambda>e. e) (commit ops m)"
  unfolding commit_def
  by (induction ops arbitrary: m) (simp_all add: run_pend_put_log and_then_map_prod)

lemma for_each_append: "for_each g (xs @ ys) m = and_then (for_each g xs m) (for_each g ys)"
proof (induction xs arbitrary: m)
  case (Cons x xs)
  then show ?case by (cases "g x m"; cases "snd (g x m)") auto
qed simp

text \<open>
  \<open>emits m m' e\<close>: from \<open>m\<close> to \<open>m'\<close> the log grew by records that are not end records, and, unless
  there was an error, running what the replay decodes from them on \<open>m\<close> gives \<open>m'\<close>.
\<close>

definition emits :: "memtable \<Rightarrow> memtable \<Rightarrow> err option \<Rightarrow> bool" where
  "emits m m' e = (\<exists>rs ops. list_all valid_rec rs \<and> ops_at (pos m) rs = Some ops \<and>
     log m' = log m @ recs_bytes rs \<and> pos m' = pos m + of_nat (length (recs_bytes rs)) \<and>
     flushed m' = flushed m \<and> (e = None \<longrightarrow> commit ops m = (put_log m m', None)))"

definition emitting :: "(memtable \<Rightarrow> mres) \<Rightarrow> bool" where
  "emitting g = (\<forall>m. emits m (fst (g m)) (snd (g m)))"

lemma emits_refl: "emits m m e"
  unfolding emits_def by (intro exI [of _ "[]"]) (simp add: commit_def)

lemma emits_trans:
  assumes "emits m m' None" and "emits m' m'' e"
  shows "emits m m'' e"
proof -
  from assms(1) obtain rs ops where 1: "list_all valid_rec rs" "ops_at (pos m) rs = Some ops"
    "log m' = log m @ recs_bytes rs" "pos m' = pos m + of_nat (length (recs_bytes rs))"
    "flushed m' = flushed m" "commit ops m = (put_log m m', None)"
    unfolding emits_def by blast
  from assms(2) obtain rs' ops' where 2: "list_all valid_rec rs'" "ops_at (pos m') rs' = Some ops'"
    "log m'' = log m' @ recs_bytes rs'" "pos m'' = pos m' + of_nat (length (recs_bytes rs'))"
    "flushed m'' = flushed m'" "e = None \<longrightarrow> commit ops' m' = (put_log m' m'', None)"
    unfolding emits_def by blast
  have "commit (ops @ ops') m = (put_log m m'', None)" if "e = None"
    using 1(6) 2(6) that commit_put_log [of ops' m m'] by (simp add: commit_def for_each_append)
  with 1 2 show ?thesis unfolding emits_def
    by (intro exI [of _ "rs @ rs'"] exI [of _ "ops @ ops'"]) (simp add: ops_at_append)
qed

lemma emitting_and_then:
  assumes "emits m (fst r) (snd r)" and "emitting k"
  shows "emits m (fst (and_then r k)) (snd (and_then r k))"
proof (cases r)
  case (Pair m' e)
  then show ?thesis
    using assms emits_trans by (cases e) (auto simp: emitting_def)
qed

lemma emitting_for_each:
  assumes "\<And>x. x \<in> set xs \<Longrightarrow> emitting (g x)"
  shows "emitting (for_each g xs)"
  using assms
proof (induction xs)
  case Nil
  then show ?case by (simp add: emitting_def emits_refl)
next
  case (Cons x xs)
  then have "emitting (g x)" and "emitting (for_each g xs)" by simp_all
  then show ?case using emitting_and_then by (simp add: emitting_def)
qed

subsection \<open>The writer appends one record\<close>

lemma bw_Write_log: "log (bw_Write p m) = log m @ p"
  by (simp add: log_def bw_Write_def Let_def)

lemma bw_Write_frame:
  "bw_Write p m = m\<lparr>logFile := logFile (bw_Write p m), logBuf := logBuf (bw_Write p m)\<rparr>"
  by (cases m) (simp add: bw_Write_def Let_def)

lemma fold_bw_Write:
  "log (fold bw_Write ps m) = log m @ concat ps \<and>
   fold bw_Write ps m = m\<lparr>logFile := logFile (fold bw_Write ps m), logBuf := logBuf (fold bw_Write ps m)\<rparr>"
proof (induction ps arbitrary: m)
  case Nil
  then show ?case by simp
next
  case (Cons p ps)
  let ?m = "bw_Write p m"
  have "fold bw_Write ps ?m = ?m\<lparr>logFile := logFile (fold bw_Write ps ?m), logBuf := logBuf (fold bw_Write ps ?m)\<rparr>"
    using Cons.IH [of ?m] by blast
  also have "\<dots> = m\<lparr>logFile := logFile (fold bw_Write ps ?m), logBuf := logBuf (fold bw_Write ps ?m)\<rparr>"
    by (subst (1) bw_Write_frame) simp
  finally show ?case using Cons.IH [of ?m] by (simp add: bw_Write_log)
qed

lemma write_rec_frame:
  obtains a b where "write_rec k n ps m =
      (m\<lparr>logFile := a, logBuf := b, pos := pos m + 13 + of_nat (length (concat ps))\<rparr>,
       pos m + 13, length (concat ps))"
    and "a @ b = log m @ rec_bytes (k, n, concat ps)"
proof -
  let ?l = "length (concat ps)"
  let ?w = "bw_Write (recHdr k n ?l) m"
  let ?v = "fold bw_Write ps ?w"
  have l: "sum_list (map length ps) = ?l" by (simp add: length_concat)
  have w: "?w = m\<lparr>logFile := logFile ?w, logBuf := logBuf ?w\<rparr>" by (rule bw_Write_frame)
  have pw: "pos ?w = pos m" by (subst w) simp
  have v: "?v = ?w\<lparr>logFile := logFile ?v, logBuf := logBuf ?v\<rparr>" using fold_bw_Write by blast
  then have v': "?v = m\<lparr>logFile := logFile ?v, logBuf := logBuf ?v\<rparr>" by (subst (asm) (2) w) simp
  have "write_rec k n ps m = (?v\<lparr>pos := pos m + 13 + of_nat ?l\<rparr>, pos m + 13, ?l)"
    by (simp add: write_rec_def Let_def l pw recHeader_def)
  also have "?v\<lparr>pos := pos m + 13 + of_nat ?l\<rparr> =
      m\<lparr>logFile := logFile ?v, logBuf := logBuf ?v, pos := pos m + 13 + of_nat ?l\<rparr>"
    by (subst v') simp
  finally have 1: "write_rec k n ps m =
      (m\<lparr>logFile := logFile ?v, logBuf := logBuf ?v, pos := pos m + 13 + of_nat ?l\<rparr>, pos m + 13, ?l)" .
  have "log ?v = log m @ recHdr k n ?l @ concat ps"
    using fold_bw_Write [of ps ?w] by (simp add: bw_Write_log)
  then show thesis using that [OF 1] by (simp add: log_def)
qed

lemma run_pend_log:
  assumes "run_pend op m = (m', e)"
  shows "logFile m' = logFile m" "logBuf m' = logBuf m" "pos m' = pos m" "flushed m' = flushed m"
  using assms
  by (cases op; auto simp: putState_def padFams_def padFam_def setChain_def chainOf_def txKeyedFams_def Let_def split: prod.splits if_splits)+

lemma emits_record:
  assumes op: "pend_of k n (concat ps) (pos m + 13) = Some op" and k: "k \<noteq> recEnd"
    and len: "length (concat ps) \<le> 2 ^ 30"
    and r: "run_pend op (fst (write_rec k n ps m)) = (m', e)"
  shows "emits m m' e"
proof -
  obtain a b where w: "write_rec k n ps m =
      (m\<lparr>logFile := a, logBuf := b, pos := pos m + 13 + of_nat (length (concat ps))\<rparr>,
       pos m + 13, length (concat ps))"
    and ab: "a @ b = log m @ rec_bytes (k, n, concat ps)" by (rule write_rec_frame)
  let ?w = "fst (write_rec k n ps m)"
  have "put_log m ?w = m" by (simp add: w put_log_def)
  then have c: "commit [op] m = (put_log m m', e)"
    using run_pend_put_log [of op m ?w] r by (cases e) (simp_all add: commit_def)
  have "log m' = a @ b" "pos m' = pos m + 13 + of_nat (length (concat ps))" "flushed m' = flushed m"
    using run_pend_log [OF r] by (simp_all add: log_def w)
  with ab c op k len show ?thesis unfolding emits_def
    by (intro exI [of _ "[(k, n, concat ps)]"] exI [of _ "[op]"]) (simp add: recHeader_def)
qed

lemma rec_values:
  "recState = 83" "recPost = 76" "recNum = 88" "recSet = 75" "recCode = 67" "recEnd = 69"
  by (simp_all add: recState_def recPost_def recNum_def recSet_def recCode_def recEnd_def)

lemma famRec_values:
  "famRec FamBlk = 66" "famRec FamHdr = 72" "famRec FamItx = 73" "famRec FamPvm = 80"
  "famRec FamRcpt = 82" "famRec FamTx = 84"
  by (simp_all add: famRec_def)

lemma rec_kinds [simp]:
  "recState \<noteq> recEnd" "recPost \<noteq> recEnd" "recNum \<noteq> recEnd" "recSet \<noteq> recEnd" "recCode \<noteq> recEnd"
  "recPost \<noteq> recState" "recNum \<noteq> recState" "recSet \<noteq> recState" "recCode \<noteq> recState"
  "recNum \<noteq> recPost" "recSet \<noteq> recPost" "recCode \<noteq> recPost" "recSet \<noteq> recNum" "recCode \<noteq> recNum"
  "recCode \<noteq> recSet"
  by (simp_all add: rec_values)

lemma famRec_kinds [simp]: "famRec f \<noteq> recEnd" 
  by (cases f) (simp_all add: famRec_values rec_values)

lemma famOf_famRec [simp]: "famOf (famRec f) = Some f"
  by (cases f) (simp_all add: famOf_def allFams_def famRec_values)

lemma famOf_kinds [simp]:
  "famOf recState = None" "famOf recPost = None" "famOf recNum = None"
  "famOf recSet = None" "famOf recCode = None" "famOf recEnd = None"
  by (simp_all add: famOf_def allFams_def famRec_values rec_values)

section \<open>The rows of a block\<close>

lemma emitting_chainRow: "length val \<le> 2 ^ 30 \<Longrightarrow> emitting (chainRow f num val)"
  unfolding emitting_def
proof
  fix m
  assume "length val \<le> 2 ^ 30"
  obtain a b where w: "write_rec (famRec f) num [val] m =
      (m\<lparr>logFile := a, logBuf := b, pos := pos m + 13 + of_nat (length (concat [val]))\<rparr>,
       pos m + 13, length (concat [val]))" by (rule write_rec_frame)
  then have "chainRow f num val m =
      run_pend (PChain f num (pos m + 13) (length val)) (fst (write_rec (famRec f) num [val] m))"
    by (simp add: chainRow_def Let_def)
  then show "emits m (fst (chainRow f num val m)) (snd (chainRow f num val m))"
    using \<open>length val \<le> 2 ^ 30\<close>
    by (intro emits_record [of "famRec f" num "[val]" m "PChain f num (pos m + 13) (length val)"])
      (simp_all add: pend_of_def)
qed

lemma emitting_numRow: "length key \<le> 2 ^ 30 \<Longrightarrow> emitting (numRow key num)"
  unfolding emitting_def
  by (intro allI emits_record [of recNum num "[key]" _ "PNum key num"])
    (simp_all add: pend_of_def numRow_def Let_def)

lemma emitting_postRow: "length g < 2 ^ 30 \<Longrightarrow> emitting (postRow g num v)"
  unfolding emitting_def
  by (intro allI emits_record [of recPost num "[[v], g]" _ "PPost g num v"])
    (simp_all add: pend_of_def postRow_def Let_def)

lemma emitting_setRow: "length k \<le> 2 ^ 30 \<Longrightarrow> emitting (setRow n k)"
  unfolding emitting_def
proof
  fix m
  assume "length k \<le> 2 ^ 30"
  then show "emits m (fst (setRow n k m)) (snd (setRow n k m))"
    by (cases "k \<in> set (msets m)", simp_all add: setRow_def emits_refl Let_def)
      (intro emits_record [of recSet n "[k]" _ "PSet k"], simp_all add: pend_of_def)
qed

lemma emitting_codeRow:
  "length (fst hb) = 32 \<Longrightarrow> length (snd hb) + 32 \<le> 2 ^ 30 \<Longrightarrow> emitting (codeRow hb)"
  unfolding emitting_def
proof
  fix m
  assume "length (fst hb) = 32" "length (snd hb) + 32 \<le> 2 ^ 30"
  then show "emits m (fst (codeRow hb m)) (snd (codeRow hb m))"
    by (cases "map_of (mcode m) (fst hb) \<noteq> None", simp_all add: codeRow_def emits_refl Let_def)
      (intro emits_record [of recCode 0 "[fst hb, snd hb]" _ "PCode (fst hb) (snd hb)"], simp_all add: pend_of_def)
qed

lemma emitting_stateRow:
  assumes "length (stateKeyPrefix r) < 2 ^ 16" and "length (Val r) \<le> 2 ^ 29"
  shows "emitting (stateRow n r)"
  unfolding emitting_def
proof
  fix m
  let ?k = "stateKeyPrefix r"
  have u: "unat (of_nat (length ?k) :: u16) = length ?k"
    using assms(1) by (simp add: unat_of_nat)
  have "stateRow n r m = run_pend (PState ?k n (Val r)) (fst (write_rec recState n [be16 (of_nat (length ?k)), ?k, Val r] m))"
    by (simp add: stateRow_def Let_def)
  then show "emits m (fst (stateRow n r m)) (snd (stateRow n r m))"
    using assms u
    by (intro emits_record [of recState n "[be16 (of_nat (length ?k)), ?k, Val r]" _ "PState ?k n (Val r)"])
      (simp_all add: pend_of_def Let_def)
qed

text \<open>
  The sizes the log format can carry: a payload of at most 2^30 bytes (the replay refuses more), a
  state key under 2^16 bytes (its length is a \<^verbatim>\<open>uint16\<close>), a code hash of 32 bytes.
\<close>

definition row_fits :: "StateRow \<Rightarrow> bool" where
  "row_fits r = (length (stateKeyPrefix r) < 2 ^ 16 \<and> length (Val r) \<le> 2 ^ 29)"

definition tx_fits :: "TxWrite \<Rightarrow> bool" where
  "tx_fits t = (length (Frames t) \<le> 2 ^ 30 \<and> length (Receipt t) \<le> 2 ^ 30 \<and> length (RLP t) \<le> 2 ^ 30 \<and>
     length (TxHash t) \<le> 2 ^ 20 \<and> list_all (\<lambda>g. length g < 2 ^ 30) (sortedKeys (txPostings t)) \<and>
     list_all (\<lambda>l. list_all (\<lambda>k. length k \<le> 2 ^ 30) (logSets (Emitter l) (Topics l))) (Logs t) \<and>
     list_all row_fits (TxState t))"

definition block_fits :: "BlockWrite \<Rightarrow> bool" where
  "block_fits b = (Height b \<noteq> - 1 \<and> length (HeaderRLP b) \<le> 2 ^ 30 \<and> length (Pvm b) \<le> 2 ^ 30 \<and>
     list_all (\<lambda>(h, blob). length h = 32 \<and> length blob + 32 \<le> 2 ^ 30) (Code b) \<and>
     list_all tx_fits (Txs b) \<and> list_all row_fits (Tail b))"

text \<open>What the code relies on of its hash functions: 32-byte digests.\<close>

definition hash_laws :: "hash_lib \<Rightarrow> bool" where
  "hash_laws H = (\<forall>b. length (Keccak256 H b) = 32 \<and> length (Sum256 H b) = 32)"

lemma hash_key_lengths [simp, key_simps]:
  "length (CidKey h) = 4 + length h" "length (BlkHashKey h) = 5 + length h" "length (TxHashKey h) = 4 + length h"
  by (simp_all add: CidKey_def BlkHashKey_def TxHashKey_def)

lemma emitting_stateRows: "list_all row_fits rs \<Longrightarrow> emitting (for_each (stateRow n) rs)"
  by (intro emitting_for_each emitting_stateRow) (auto simp: row_fits_def list_all_iff)

lemma emitting_seq: "emitting g \<Longrightarrow> emitting k \<Longrightarrow> emitting (\<lambda>m. and_then (g m) k)"
  using emitting_and_then by (simp add: emitting_def)

lemma emitting_txRows: "tx_fits (snd nt) \<Longrightarrow> emitting (txRows nt)"
  unfolding txRows_def Let_def tx_fits_def
  by (intro emitting_seq emitting_chainRow emitting_numRow emitting_for_each emitting_postRow emitting_setRow
      emitting_stateRow)
    (auto simp: row_fits_def list_all_iff)

lemma emitting_cidRow:
  assumes "hash_laws H"
  shows "emitting (cidRow R H b)"
proof -
  have "emitting (numRow (CidKey (Sum256 H c)) (Height b))" for c
    using assms by (intro emitting_numRow) (simp add: hash_laws_def)
  then show ?thesis by (auto simp: emitting_def cidRow_def emits_refl split: sum.split)
qed

lemma emits_blockRows:
  assumes "hash_laws H" and "block_fits b"
  shows "emits m (fst (blockRows R H b m)) (snd (blockRows R H b m))"
proof -
  have "emitting (\<lambda>m'. and_then (and_then (and_then (and_then (and_then (and_then (and_then (chainRow FamBlk (Height b) (blkVal first b) m')
        (chainRow FamHdr (Height b) (HeaderRLP b)))
        (chainRow FamPvm (Height b) (Pvm b)))
        (numRow (BlkHashKey (Keccak256 H (HeaderRLP b))) (Height b)))
        (cidRow R H b))
        (for_each codeRow (Code b)))
        (for_each txRows (numbered first (Txs b))))
        (for_each (stateRow tailAt) (Tail b)))" for first tailAt
    using assms
    by (intro emitting_seq emitting_chainRow emitting_numRow emitting_cidRow emitting_stateRows
        emitting_for_each emitting_codeRow emitting_txRows)
      (auto simp: block_fits_def hash_laws_def list_all_iff blkVal_def numbered_def dest!: set_zip_rightD)
  then show ?thesis unfolding blockRows_def Let_def emitting_def by blast
qed

section \<open>Whole blocks\<close>

text \<open>At a block boundary the buffer is empty and the counters are the file's length.\<close>

definition log_ok :: "memtable \<Rightarrow> bool" where
  "log_ok m = (logBuf m = [] \<and> flushed m = pos m \<and> pos m = of_nat (length (logFile m)))"

definition start_window :: "u64 \<Rightarrow> memtable \<Rightarrow> memtable" where
  "start_window h m = (if \<not> started m then m\<lparr>baseHeight := h, started := True\<rparr> else m)"

lemma run_pend_window:
  assumes "run_pend op m = (m', e)"
  shows "baseHeight m' = baseHeight m \<and> readOnly m' = readOnly m"
  using assms
  by (cases op; auto simp: putState_def padFams_def padFam_def setChain_def chainOf_def txKeyedFams_def Let_def split: prod.splits if_splits)

lemma commit_window:
  assumes "commit ops m = (m', e)"
  shows "baseHeight m' = baseHeight m \<and> readOnly m' = readOnly m"
  using assms unfolding commit_def
proof (induction ops arbitrary: m)
  case (Cons op ops)
  show ?case
  proof (cases "run_pend op m")
    case (Pair m1 e1)
    then show ?thesis using Cons run_pend_window [OF Pair] by (cases e1) auto
  qed
qed simp

lemma padFams_log [simp]:
  "logFile (padFams nt m) = logFile m" "logBuf (padFams nt m) = logBuf m" "pos (padFams nt m) = pos m"
  "flushed (padFams nt m) = flushed m"
  by (simp_all add: padFams_def padFam_def setChain_def chainOf_def txKeyedFams_def)

lemma endBlock_appends: "log (endBlock h nt m) = log m @ rec_bytes (recEnd, h, be64 nt)"
proof -
  let ?p = "(padFams nt m)\<lparr>nextTx := nt, nextHeight := h + 1\<rparr>"
  obtain a b where w: "write_rec recEnd h [be64 nt] ?p =
      (?p\<lparr>logFile := a, logBuf := b, pos := pos ?p + 13 + of_nat (length (concat [be64 nt]))\<rparr>,
       pos ?p + 13, length (concat [be64 nt]))"
    and ab: "a @ b = log ?p @ rec_bytes (recEnd, h, concat [be64 nt])" by (rule write_rec_frame)
  have "log ?p = log m" by (simp add: padFams_def padFam_def setChain_def chainOf_def txKeyedFams_def log_def)
  with w ab show ?thesis
    by (simp add: endBlock_def Let_def flushLocked_def bw_Flush_def) (simp add: log_def)
qed

lemma endBlock_log:
  assumes "log m = lf @ recs_bytes rs" and "flushed m = of_nat (length lf)"
    and "pos m = of_nat (length (log m))"
    and "length (log m) + 21 < 2 ^ 64" and "m' = endBlock h nt m"
  shows "logFile m' = log m @ rec_bytes (recEnd, h, be64 nt)" and "log_ok m'"
    and "nextTx m' = nt" and "nextHeight m' = h + 1" and "padFams nt (put_log s m) = put_log s m'"
proof -
  let ?p = "(padFams nt m)\<lparr>nextTx := nt, nextHeight := h + 1\<rparr>"
  have p: "log ?p = log m" "pos ?p = pos m" "flushed ?p = flushed m"
    by (simp_all add: padFams_def padFam_def setChain_def chainOf_def txKeyedFams_def log_def)
  obtain a b where w: "write_rec recEnd h [be64 nt] ?p =
      (?p\<lparr>logFile := a, logBuf := b, pos := pos ?p + 13 + of_nat (length (concat [be64 nt]))\<rparr>,
       pos ?p + 13, length (concat [be64 nt]))"
    and ab: "a @ b = log ?p @ rec_bytes (recEnd, h, concat [be64 nt])" by (rule write_rec_frame)
  let ?n = "length (log m) + 21"
  have pos: "pos m + 13 + 8 = of_nat ?n" by (simp add: assms(3))
  have "length lf \<noteq> ?n" "length lf < 2 ^ 64" using assms(1,4) by simp_all
  then have ne: "of_nat (length lf) \<noteq> (of_nat ?n :: u64)"
    using of_nat_u64_eq_iff [OF _ assms(4)] by blast
  have m': "m' = ?p\<lparr>logFile := a @ b, logBuf := [], pos := of_nat ?n, flushed := of_nat ?n\<rparr>"
    unfolding assms(5) endBlock_def Let_def using w ne pos assms(2)
    by (simp add: flushLocked_def bw_Flush_def)
  then show "logFile m' = log m @ rec_bytes (recEnd, h, be64 nt)" using ab p by simp
  then show "log_ok m'" using m' by (simp add: log_ok_def add.commute)
  show "nextTx m' = nt" "nextHeight m' = h + 1" by (simp_all add: m')
  show "padFams nt (put_log s m) = put_log s m'"
    by (simp add: padFams_put_log m') (simp add: put_log_def padFams_def padFam_def setChain_def chainOf_def txKeyedFams_def)
qed

text \<open>
  A block that \<open>add_block\<close> takes is, in the log, its records and one end record; the replay's
  mutations for them, run on the window before the block, give the window after it.
\<close>

lemma add_block_log:
  assumes add: "add_block R H b m = (m', e)" and taken: "\<not> Height b < nextHeight m"
    and laws: "hash_laws H" "block_fits b" and ok: "log_ok m" "length (log m') < 2 ^ 64"
  obtains rs ops where "list_all valid_rec rs" and "ops_at (pos m) rs = Some ops"
    and "e \<noteq> None \<Longrightarrow> log m' = logFile m @ recs_bytes rs"
    and "e = None \<Longrightarrow> logFile m' = logFile m @ recs_bytes rs @ rec_bytes (recEnd, Height b, be64 (nextTx m'))"
    and "e = None \<Longrightarrow> log_ok m' \<and> nextHeight m' = Height b + 1 \<and> (started m \<longrightarrow> nextHeight m = Height b)"
    and "e = None \<Longrightarrow> commit (ops @ [PPad (nextTx m')]) (start_window (Height b) m) = (put_log m m', None)"
proof -
  define m1 where "m1 = (if \<not> started m then m\<lparr>baseHeight := Height b, nextHeight := Height b, started := True\<rparr> else m)"
  define nt where "nt = nextTx m1 + of_nat (length (Txs b)) + 1"
  have same: "log m1 = logFile m" "pos m1 = pos m" "flushed m1 = flushed m" "put_log m m1 = start_window (Height b) m"
    using ok(1) by (auto simp: m1_def log_def log_ok_def start_window_def put_log_def)
  consider (early) "e \<noteq> None" "log m' = logFile m"
    | (rows) "Height b = nextHeight m1" "add_block R H b m = and_then (blockRows R H b m1) (finishBlock (Height b) nt)"
    using add taken same(1) ok(1)
    by (auto simp: add_block_def addStarted_def m1_def nt_def log_def log_ok_def split: if_splits)
  then show thesis
  proof cases
    case early
    then show thesis by (intro that [of "[]" "[]"]) simp_all
  next
    case rows
    obtain m2 e2 where m2: "blockRows R H b m1 = (m2, e2)" by (cases "blockRows R H b m1")
    then have "emits m1 m2 e2" using emits_blockRows [OF laws, of m1 R] by simp
    then obtain rs ops where em: "list_all valid_rec rs" "ops_at (pos m) rs = Some ops"
      "log m2 = logFile m @ recs_bytes rs" "pos m2 = pos m + of_nat (length (recs_bytes rs))"
      "flushed m2 = flushed m" "e2 = None \<longrightarrow> commit ops m1 = (put_log m1 m2, None)"
      unfolding emits_def by (auto simp: same)
    show thesis
    proof (cases e2)
      case (Some e')
      then have "m' = m2" "e = Some e'" using rows(2) m2 add by simp_all
      then show thesis using em by (intro that [of rs ops]) simp_all
    next
      case None
      then have m': "m' = endBlock (Height b) nt m2" "e = None" using rows(2) m2 add by (simp_all add: finishBlock_def)
      have pos: "pos m2 = of_nat (length (log m2))" using em(3,4) ok(1) by (simp add: log_ok_def)
      have "length (log m2) + 21 < 2 ^ 64" using ok(2) m'(1) by (simp add: endBlock_appends)
      note eb = endBlock_log [OF em(3) _ pos this m'(1)]
      have fl: "flushed m2 = of_nat (length (logFile m))" using em(5) ok(1) by (simp add: log_ok_def)
      have "commit ops (put_log m m1) = (put_log m m2, None)"
        using em(6) None commit_put_log [of ops m m1] by simp
      then have "commit (ops @ [PPad nt]) (start_window (Height b) m) = (put_log m m', None)"
        using eb(5) [OF fl, of m] by (simp add: commit_def for_each_append same)
      then show thesis using em eb(1-4) [OF fl] m'(2) rows(1)
        by (intro that [of rs ops]) (auto simp: m1_def)
    qed
  qed
qed

section \<open>Rebuilding the window\<close>

text \<open>
  \<open>view z m\<close> is the replaying memtable \<open>z\<close> once it holds the window of \<open>m\<close>; \<open>rebuilt z m\<close> says that
  the replay started in \<open>z\<close> reaches it after the log of \<open>m\<close>, whatever follows.
\<close>

definition view :: "memtable \<Rightarrow> memtable \<Rightarrow> memtable" where
  "view z m = put_log (z\<lparr>nextTx := nextTx m, nextHeight := nextHeight m\<rparr>) m"

definition rebuilt :: "memtable \<Rightarrow> memtable \<Rightarrow> bool" where
  "rebuilt z m = (log_ok m \<and> baseHeight m \<le> nextHeight m \<and> \<not> readOnly m \<and>
     (\<forall>r. replay (logFile m @ r) 0 0 [] z = replay r (pos m) (pos m) [] (view z m)))"

lemma start_window_view: "start_window h (view z m) = put_log (view z m) (start_window h m)"
  by (simp add: start_window_def view_def put_log_def)

lemma replay_end:
  assumes "replay_m = view z m" and "baseHeight m \<le> h"
    and c: "commit (ops @ [PPad nt]) (start_window h m) = (put_log m m', None)"
    and m': "nextTx m' = nt" "nextHeight m' = h + 1"
  shows "replay (rec_bytes (recEnd, h, be64 nt) @ r) off good ops (view z m) =
    replay r (off + 21) (off + 21) [] (view z m')"
proof -
  let ?v = "view z m"
  have "commit (ops @ [PPad nt]) (start_window h ?v) = (put_log ?v m', None)"
    using c commit_put_log [of "ops @ [PPad nt]" ?v "start_window h m"] by (simp add: start_window_view)
  moreover have "(put_log ?v m')\<lparr>nextHeight := h + 1, nextTx := nt\<rparr> = view z m'"
    by (simp add: view_def put_log_def m')
  moreover have "\<not> h < baseHeight ?v" using assms(2) by (simp add: view_def)
  moreover have "read_rec (rec_bytes (recEnd, h, be64 nt) @ r) = Some (recEnd, h, be64 nt, r)"
    by (rule read_rec_bytes) simp
  moreover have "get64 (be64 nt) = nt" using get64_be64 [of nt "[]"] by simp
  ultimately show ?thesis
    by (subst replay.simps) (simp add: Let_def recHeader_def start_window_def add.commute)
qed

lemma start_window_height:
  "baseHeight m \<le> nextHeight m \<Longrightarrow> nextHeight m \<le> h \<Longrightarrow> baseHeight (start_window h m) \<le> h"
  by (auto simp: start_window_def)

lemma rebuilt_step:
  assumes z: "rebuilt z m" and add: "add_block R H b m = (m', None)"
    and laws: "hash_laws H" "block_fits b" and len: "length (log m') < 2 ^ 64"
  shows "rebuilt z m'"
    and "length (logFile m) \<le> j \<Longrightarrow> j < length (logFile m') \<Longrightarrow>
      replay (take j (logFile m')) 0 0 [] z = ((view z m, pos m), None)"
proof -
  have ok: "log_ok m" "baseHeight m \<le> nextHeight m" "\<not> readOnly m"
    and re: "\<And>r. replay (logFile m @ r) 0 0 [] z = replay r (pos m) (pos m) [] (view z m)"
    using z by (simp_all add: rebuilt_def)
  show "rebuilt z m'"
  proof (cases "Height b < nextHeight m")
    case True
    then show ?thesis using add z by (simp add: add_block_def)
  next
    case False
    obtain rs ops where l: "list_all valid_rec rs" "ops_at (pos m) rs = Some ops"
      and f: "logFile m' = logFile m @ recs_bytes rs @ rec_bytes (recEnd, Height b, be64 (nextTx m'))"
      and n: "log_ok m'" "nextHeight m' = Height b + 1"
      and c: "commit (ops @ [PPad (nextTx m')]) (start_window (Height b) m) = (put_log m m', None)"
      by (rule add_block_log [OF add False laws ok(1) len]) simp_all
    have h: "baseHeight m \<le> Height b" using ok(2) False by simp
    have "baseHeight m' = baseHeight (start_window (Height b) m) \<and> readOnly m' = readOnly (start_window (Height b) m)"
      using commit_window [OF c] by simp
    moreover have "Height b \<le> Height b + 1"
      using laws(2) by (simp add: block_fits_def le_add1_u64)
    ultimately have "baseHeight m' \<le> nextHeight m'" "\<not> readOnly m'"
      using start_window_height [OF ok(2), of "Height b"] False n(2) ok(3)
      by (auto simp: start_window_def not_less split: if_splits elim: order_trans)
    moreover have "replay (logFile m' @ r) 0 0 [] z = replay r (pos m') (pos m') [] (view z m')" for r
    proof -
      have "replay (logFile m' @ r) 0 0 [] z =
          replay (rec_bytes (recEnd, Height b, be64 (nextTx m')) @ r) (pos m + of_nat (length (recs_bytes rs))) (pos m) ops (view z m)"
        using replay_records [OF l, of _ "pos m" "[]"] by (simp add: f re)
      also have "\<dots> = replay r (pos m + of_nat (length (recs_bytes rs)) + 21) (pos m + of_nat (length (recs_bytes rs)) + 21) [] (view z m')"
        by (rule replay_end [OF refl h c refl n(2)])
      also have "pos m + of_nat (length (recs_bytes rs)) + 21 = pos m'"
        using n(1) ok(1) f by (simp add: log_ok_def)
      finally show ?thesis .
    qed
    ultimately show ?thesis using n(1) by (simp add: rebuilt_def)
  qed
  assume j: "length (logFile m) \<le> j" "j < length (logFile m')"
  then have False': "\<not> Height b < nextHeight m" using add by (auto simp: add_block_def)
  obtain rs ops where l: "list_all valid_rec rs" "ops_at (pos m) rs = Some ops"
    and f: "logFile m' = logFile m @ recs_bytes rs @ rec_bytes (recEnd, Height b, be64 (nextTx m'))"
    by (rule add_block_log [OF add False' laws ok(1) len]) simp_all
  obtain i where i: "j = length (logFile m) + i" using j(1) le_iff_add by blast
  let ?t = "recs_bytes rs @ rec_bytes (recEnd, Height b, be64 (nextTx m'))"
  have tk: "take j (logFile m') = logFile m @ take i ?t" by (simp add: f i)
  have il: "i < length ?t" using j(2) f i by simp
  show "replay (take j (logFile m')) 0 0 [] z = ((view z m, pos m), None)"
    unfolding tk re by (rule replay_torn [OF l il]) simp
qed

text \<open>After an error the log holds no further complete block.\<close>

lemma rebuilt_error:
  assumes z: "rebuilt z m" and add: "add_block R H b m = (m', Some e)"
    and laws: "hash_laws H" "block_fits b" and len: "length (log m') < 2 ^ 64"
    and j: "length (logFile m) \<le> j"
  shows "replay (take j (log m')) 0 0 [] z = ((view z m, pos m), None)" and "\<exists>t. log m' = logFile m @ t"
proof -
  have ok: "log_ok m"
    and re: "\<And>r. replay (logFile m @ r) 0 0 [] z = replay r (pos m) (pos m) [] (view z m)"
    using z by (simp_all add: rebuilt_def)
  have taken: "\<not> Height b < nextHeight m" using add by (auto simp: add_block_def)
  obtain rs ops where l: "list_all valid_rec rs" "ops_at (pos m) rs = Some ops"
    and f: "log m' = logFile m @ recs_bytes rs"
    by (rule add_block_log [OF add taken laws ok len]) simp_all
  show "\<exists>t. log m' = logFile m @ t" using f by blast
  obtain i where i: "j = length (logFile m) + i" using j le_iff_add by blast
  let ?e = "rec_bytes (recEnd, 0, [])"
  have "take i (recs_bytes rs) = take (min i (length (recs_bytes rs))) (recs_bytes rs @ ?e)"
    by (simp add: min_def)
  then have "replay (take i (recs_bytes rs)) (pos m) (pos m) [] (view z m) = ((view z m, pos m), None)"
    using replay_torn [OF l, of "min i (length (recs_bytes rs))" recEnd 0 "[]"] by simp
  then show "replay (take j (log m')) 0 0 [] z = ((view z m, pos m), None)"
    by (simp add: f i re)
qed

section \<open>Recovery\<close>

abbreviation fresh :: "u64 \<Rightarrow> u64 \<Rightarrow> memtable" where
  "fresh tx h \<equiv> reset tx h (newMemtableAt [] False)"

text \<open>The state in which \<open>recover\<close> starts its replay of a file.\<close>

definition replay_start :: "u64 \<Rightarrow> u64 \<Rightarrow> bytes \<Rightarrow> memtable" where
  "replay_start tx h file = (fresh tx h)\<lparr>logFile := file\<rparr>"

lemma recover_newMemtableAt:
  "recover tx h (newMemtableAt file False) =
     (case replay file 0 0 [] (replay_start tx h file) of
        ((m, good), Some e) \<Rightarrow> (m, Some e)
      | ((m, good), None) \<Rightarrow>
          let m = (if \<not> readOnly m then m\<lparr>logFile := Truncate (unat good) (logFile m), logBuf := []\<rparr> else m)
          in (m\<lparr>pos := good, flushed := good\<rparr>, None))"
proof -
  have "bw_Flush ((clear (newMemtableAt file False))\<lparr>baseTx := tx, nextTx := tx, baseHeight := h, nextHeight := h\<rparr>) =
      replay_start tx h file"
    by (simp add: bw_Flush_def clear_def newMemtableAt_def replay_start_def reset_def)
  moreover have "logFile (replay_start tx h file) = file" by (simp add: replay_start_def)
  ultimately show ?thesis unfolding recover_def Let_def by simp
qed

lemma view_fresh: "view (replay_start tx h file) (fresh tx h) = replay_start tx h file"
  by (simp add: view_def put_log_def replay_start_def reset_def newMemtableAt_def clear_def)

lemma rebuilt_fresh: "rebuilt (replay_start tx h file) (fresh tx h)"
  unfolding rebuilt_def view_fresh
  by (simp add: log_ok_def reset_def newMemtableAt_def clear_def)

lemma recover_rebuilt:
  assumes z: "rebuilt (replay_start tx h file) m" and fl: "file = logFile m @ t"
    and len: "length (logFile m) < 2 ^ 64"
    and r: "replay file 0 0 [] (replay_start tx h file) = ((view (replay_start tx h file) m, pos m), None)"
  shows "recover tx h (newMemtableAt file False) = (m, None)"
proof -
  have ok: "logBuf m = []" "flushed m = pos m" "pos m = of_nat (length (logFile m))" "\<not> readOnly m"
    using z by (simp_all add: rebuilt_def log_ok_def)
  have "unat (pos m) = length (logFile m)" using len ok(3) by (simp add: unat_of_nat)
  then have t: "Truncate (unat (pos m)) file = logFile m" by (simp add: fl Truncate_def)
  have v: "logFile (view (replay_start tx h file) m) = file" "readOnly (view (replay_start tx h file) m) = readOnly m"
    by (simp_all add: view_def replay_start_def)
  have "(view (replay_start tx h file) m)\<lparr>logFile := logFile m, logBuf := [], pos := pos m, flushed := pos m\<rparr> = m"
    by (rule memtable.equality) (simp_all add: view_def put_log_def ok(1,2))
  then show ?thesis unfolding recover_newMemtableAt r by (simp add: t v ok(4))
qed

lemma fresh_log [simp]: "log (fresh tx h) = []" "logFile (fresh tx h) = []" "pos (fresh tx h) = 0"
  by (simp_all add: log_def reset_def newMemtableAt_def clear_def)

lemma replay_empty [simp]: "replay [] off good pend m = ((m, good), None)"
  by (simp add: replay.simps read_rec_def recHeader_def)

lemma add_block_extends:
  assumes "hash_laws H" and "block_fits b"
  shows "\<exists>t. log (fst (add_block R H b m)) = log m @ t"
proof -
  have ext: "\<exists>t. log (fst (blockRows R H b m1)) = log m1 @ t" for m1
    using emits_blockRows [OF assms, of m1 R] by (auto simp: emits_def)
  have step: "\<exists>t. log (fst (and_then (blockRows R H b m1) (finishBlock h nt))) = log m1 @ t" for m1 h nt
  proof (cases "blockRows R H b m1")
    case (Pair m2 e)
    then show ?thesis using ext [of m1] by (cases e) (auto simp: endBlock_appends finishBlock_def)
  qed
  let ?s = "m\<lparr>baseHeight := Height b, nextHeight := Height b, started := True\<rparr>"
  have s: "log ?s = log m" by (simp add: log_def)
  show ?thesis
  proof (cases "started m")
    case True
    then show ?thesis using step [of m "Height b" "nextTx m + of_nat (length (Txs b)) + 1"]
      by (auto simp: add_block_def addStarted_def)
  next
    case False
    then show ?thesis using step [of ?s "Height b" "nextTx m + of_nat (length (Txs b)) + 1"] s
      by (auto simp: add_block_def addStarted_def)
  qed
qed

lemma for_each_snoc_None:
  assumes "for_each g (xs @ [x]) m = (m', None)"
  obtains m1 where "for_each g xs m = (m1, None)" and "g x m1 = (m', None)"
proof (cases "for_each g xs m")
  case (Pair m1 e)
  then show thesis using assms that
    by (cases e; cases "snd (g x m1)"; cases "g x m1") (auto simp: for_each_append)
qed

lemma adds_rebuilt:
  assumes "for_each (add_block R H) bs (fresh tx h) = (m, None)" and "hash_laws H"
    and "list_all block_fits bs" and "length (log m) < 2 ^ 64"
  shows "rebuilt (replay_start tx h file) m"
  using assms(1,3,4)
proof (induction bs arbitrary: m rule: rev_induct)
  case Nil
  then have "m = fresh tx h" by simp
  then show ?case by (simp only: rebuilt_fresh)
next
  case (snoc b bs)
  obtain m1 where m1: "for_each (add_block R H) bs (fresh tx h) = (m1, None)" "add_block R H b m1 = (m, None)"
    by (rule for_each_snoc_None [OF snoc.prems(1)])
  have b: "block_fits b" "list_all block_fits bs" using snoc.prems by simp_all
  then obtain t where "log m = log m1 @ t" using add_block_extends [OF assms(2), of b R m1] m1(2) by auto
  then have "length (log m1) < 2 ^ 64" using snoc.prems(3) by simp
  then show ?case
    using rebuilt_step(1) [OF snoc.IH [OF m1(1) b(2)] m1(2) assms(2) b(1) snoc.prems(3)] by simp
qed

lemma rebuilt_log: "rebuilt z m \<Longrightarrow> log m = logFile m"
  by (simp add: rebuilt_def log_ok_def log_def)

section \<open>A sample window\<close>

definition sample_hash :: hash_lib where
  "sample_hash = \<lparr>Keccak256 = (\<lambda>b. replicate 32 (of_nat (length b))), Sum256 = (\<lambda>b. replicate 32 1)\<rparr>"

lemma sample_hash_laws: "hash_laws sample_hash"
  by (simp add: hash_laws_def sample_hash_def)

definition sample_tx :: TxWrite where
  "sample_tx = \<lparr>TxHash = [7], RLP = [1], Receipt = [2], Frames = [], FrameAddrs = [],
     TxState = [\<lparr>Kind = of_char (CHR ''a''), Addr = [5], Slot = [], Val = [9]\<rparr>],
     Sender = [5], To = [], Created = [], Logs = []\<rparr>"

definition sample_block :: "u64 \<Rightarrow> TxWrite list \<Rightarrow> BlockWrite" where
  "sample_block h txs = \<lparr>Height = h, HeaderRLP = [192], Pvm = [], Txs = txs, Code = [], Tail = []\<rparr>"

definition sample_blocks :: "BlockWrite list" where
  "sample_blocks = [sample_block 1 [sample_tx]]"

definition sample_window :: mres where
  "sample_window = for_each (add_block short_lib sample_hash) sample_blocks (fresh 0 0)"

lemma sample_fits: "list_all block_fits sample_blocks"
  by code_simp

lemma sample_window_ok: "snd sample_window = None \<and> length (log (fst sample_window)) < 1000"
  by code_simp

lemma sample_window_run:
  "for_each (add_block short_lib sample_hash) sample_blocks (fresh 0 0) = (fst sample_window, None)"
  using sample_window_ok by (simp add: sample_window_def prod_eq_iff)

section \<open>Recovery is exact\<close>

text \<open>
  C1. Crash recovery: the log of a window may be cut at any byte, and replaying what is left yields
  exactly the memtable -- every index, every counter, the truncated file -- after the last block that
  is completely in it; with the whole log it yields the window itself.
\<close>

theorem recover_torn_log:
  assumes "for_each (add_block R H) bs (fresh tx h) = (m, None)" and "hash_laws H"
    and "list_all block_fits bs" and "length (log m) < 2 ^ 64"
  shows "\<exists>k \<le> length bs. \<exists>mk. for_each (add_block R H) (take k bs) (fresh tx h) = (mk, None) \<and>
    recover tx h (newMemtableAt (take j (log m)) False) = (mk, None) \<and> length (log mk) \<le> j \<and>
    (k = length bs \<or> j < length (log (fst (for_each (add_block R H) (take (Suc k) bs) (fresh tx h)))))"
  using assms(1,3,4)
proof (induction bs arbitrary: m rule: rev_induct)
  case Nil
  then have m: "m = fresh tx h" by simp
  have "recover tx h (newMemtableAt [] False) = (fresh tx h, None)"
    by (rule recover_rebuilt [OF rebuilt_fresh, where t = "[]"]) (simp_all add: view_fresh)
  then show ?case unfolding m by simp
next
  case (snoc b bs)
  obtain m1 where m1: "for_each (add_block R H) bs (fresh tx h) = (m1, None)" "add_block R H b m1 = (m, None)"
    by (rule for_each_snoc_None [OF snoc.prems(1)])
  have b: "block_fits b" "list_all block_fits bs" using snoc.prems by simp_all
  obtain t where t: "log m = log m1 @ t" using add_block_extends [OF assms(2) b(1), of R m1] m1(2) by auto
  have l1: "length (log m1) < 2 ^ 64" using t snoc.prems(3) by simp
  let ?z = "replay_start tx h (take j (log m))"
  have z: "rebuilt ?z m1" "rebuilt ?z m"
    using adds_rebuilt [OF m1(1) assms(2) b(2) l1] adds_rebuilt [OF snoc.prems(1) assms(2) snoc.prems(2,3)] by simp_all
  note lf = rebuilt_log [OF z(1)] rebuilt_log [OF z(2)]
  consider "length (log m) \<le> j" | "length (log m1) \<le> j" "j < length (log m)" | "j < length (log m1)" by linarith
  then show ?case
  proof cases
    case 1
    then have tk: "take j (log m) = logFile m @ []" by (simp add: lf(2))
    have "replay (logFile m @ []) 0 0 [] ?z = replay [] (pos m) (pos m) [] (view ?z m)"
      using z(2) unfolding rebuilt_def by blast
    then have r: "replay (take j (log m)) 0 0 [] ?z = ((view ?z m, pos m), None)" unfolding tk by simp
    have "recover tx h (newMemtableAt (take j (log m)) False) = (m, None)"
      by (rule recover_rebuilt [OF z(2) tk _ r]) (use snoc.prems(3) lf(2) in simp)
    then show ?thesis using 1 snoc.prems(1) by (intro exI [of _ "length (bs @ [b])"]) simp
  next
    case 2
    have r: "replay (take j (log m)) 0 0 [] ?z = ((view ?z m1, pos m1), None)"
      using rebuilt_step(2) [OF z(1) m1(2) assms(2) b(1) snoc.prems(3), of j] 2 by (simp only: lf)
    have tk: "take j (log m) = logFile m1 @ take (j - length (log m1)) t" using t 2 lf(1) by simp
    have "recover tx h (newMemtableAt (take j (log m)) False) = (m1, None)"
      by (rule recover_rebuilt [OF z(1) tk _ r]) (use l1 lf(1) in simp)
    then show ?thesis using 2 m1(1) snoc.prems(1) by (intro exI [of _ "length bs"]) simp
  next
    case 3
    then have tk: "take j (log m) = take j (log m1)" using t by simp
    obtain k mk where k: "k \<le> length bs" "for_each (add_block R H) (take k bs) (fresh tx h) = (mk, None)"
      "recover tx h (newMemtableAt (take j (log m1)) False) = (mk, None)" "length (log mk) \<le> j"
      "k = length bs \<or> j < length (log (fst (for_each (add_block R H) (take (Suc k) bs) (fresh tx h))))"
      using snoc.IH [OF m1(1) b(2) l1] by blast
    have "k \<noteq> length bs" using k(2,4) m1(1) 3 by auto
    then show ?thesis using k tk by (intro exI [of _ k]) simp
  qed
qed

theorem recover_torn_log_witness:
  "\<exists>k \<le> length sample_blocks. \<exists>mk.
    for_each (add_block short_lib sample_hash) (take k sample_blocks) (fresh 0 0) = (mk, None) \<and>
    recover 0 0 (newMemtableAt (take 100 (log (fst sample_window))) False) = (mk, None) \<and> length (log mk) \<le> 100 \<and>
    (k = length sample_blocks \<or>
      100 < length (log (fst (for_each (add_block short_lib sample_hash) (take (Suc k) sample_blocks) (fresh 0 0)))))"
  by (rule recover_torn_log [OF sample_window_run sample_hash_laws sample_fits]) (use sample_window_ok in simp)

text \<open>
  C16. A block that fails half way leaves no trace: when \<open>add_block\<close> returns an error, replaying the log
  it left behind (cut anywhere after the blocks before it) gives the window before that block.
\<close>

theorem recover_after_error:
  assumes "for_each (add_block R H) bs (fresh tx h) = (m, None)" and "add_block R H b m = (m', Some e)"
    and "hash_laws H" and "list_all block_fits (b # bs)" and "length (log m') < 2 ^ 64"
    and "length (log m) \<le> j"
  shows "recover tx h (newMemtableAt (take j (log m')) False) = (m, None)"
proof -
  have b: "block_fits b" "list_all block_fits bs" using assms(4) by simp_all
  obtain t where "log m' = log m @ t" using add_block_extends [OF assms(3) b(1), of R m] assms(2) by auto
  then have l: "length (log m) < 2 ^ 64" using assms(5) by simp
  let ?z = "replay_start tx h (take j (log m'))"
  have z: "rebuilt ?z m" by (rule adds_rebuilt [OF assms(1,3) b(2) l])
  have j: "length (logFile m) \<le> j" using assms(6) rebuilt_log [OF z] by simp
  note r = rebuilt_error [OF z assms(2,3) b(1) assms(5) j]
  obtain t where t: "log m' = logFile m @ t" using r(2) by blast
  have "take j (log m') = logFile m @ take (j - length (logFile m)) t" using t j by simp
  then show ?thesis
    by (rule recover_rebuilt [OF z _ _ r(1)]) (use l rebuilt_log [OF z] in simp)
qed

definition bad_block :: BlockWrite where
  "bad_block = \<lparr>Height = 1, HeaderRLP = [192], Pvm = [1, 2, 3], Txs = [], Code = [], Tail = []\<rparr>"

lemma bad_block_fails:
  "block_fits bad_block \<and> snd (add_block short_lib sample_hash bad_block (fresh 0 0)) = Some PvmTooShort \<and>
   length (log (fst (add_block short_lib sample_hash bad_block (fresh 0 0)))) < 1000"
  by code_simp

theorem recover_after_error_witness:
  "recover 0 0 (newMemtableAt (take 50 (log (fst (add_block short_lib sample_hash bad_block (fresh 0 0))))) False)
    = (fresh 0 0, None)"
proof (rule recover_after_error [where bs = "[]"])
  show "add_block short_lib sample_hash bad_block (fresh 0 0) =
      (fst (add_block short_lib sample_hash bad_block (fresh 0 0)), Some PvmTooShort)"
    using bad_block_fails by (simp add: prod_eq_iff)
qed (use bad_block_fails sample_hash_laws in simp_all)

end
