(* ===== verification/Receipts.thy ===== *)
theory Receipts
  imports EF
begin

text \<open>
  The receipt codecs of \<^verbatim>\<open>src/store/receipts.go\<close>: the per-transaction receipt row
  (\<open>EncodeTxReceipt\<close>, \<open>DecodeTxReceipt\<close>) and the older block-level records.  A decoder is a walk over
  the record with a position; the walk is a state-passing function, a bound check that fails is an
  error value, and a slice or an allocation Go refuses is \<open>GoPanic\<close>.

  A Go slice may be re-sliced up to its capacity.  The decoders that slice without comparing with the
  length take the bytes between the length and the capacity as the argument \<open>spare\<close>.
\<close>

section \<open>Receipts\<close>

record LogRec =
  l_Address :: bytes
  l_Topics :: "bytes list"
  l_Data :: bytes

record Rcpt =
  r_Status :: u64
  r_GasUsed :: u64
  r_Logs :: "LogRec list"

text \<open>Addresses are \<^verbatim>\<open>[20]byte\<close> and topics \<^verbatim>\<open>[32]byte\<close>.\<close>

definition wf_log :: "LogRec \<Rightarrow> bool" where
  "wf_log l = (length (l_Address l) = 20 \<and> list_all (\<lambda>t. length t = 32) (l_Topics l))"

definition uv :: "u64 \<Rightarrow> bytes" where
  "uv x = AppendUvarint [] x"

definition encodeLog :: "LogRec \<Rightarrow> bytes" where
  "encodeLog l = l_Address l @ uv (of_nat (length (l_Topics l))) @ concat (l_Topics l)
     @ uv (of_nat (length (l_Data l))) @ l_Data l"

definition EncodeTxReceipt :: "Rcpt \<Rightarrow> u64 \<Rightarrow> bytes" where
  "EncodeTxReceipt r cumulativeGasUsed =
     uv (r_Status r) @ uv (r_GasUsed r) @ uv cumulativeGasUsed @ uv (of_nat (length (r_Logs r)))
       @ concat (map encodeLog (r_Logs r))"

section \<open>Decoding a transaction receipt\<close>

text \<open>
  The largest allocation \<^verbatim>\<open>make\<close> accepts on a 64-bit Linux target; a \<^verbatim>\<open>StoredLog\<close> takes 80 bytes.
\<close>

definition maxAlloc :: nat where "maxAlloc = 2 ^ 48"
definition storedLogSize :: nat where "storedLogSize = 80"

definition next_uv :: "string \<Rightarrow> bytes \<Rightarrow> nat \<Rightarrow> (u64 \<times> nat) res" where
  "next_uv what rec pos =
     (case Uvarint (drop pos rec) of None \<Rightarrow> Inl (Errorf what) | Some (v, k) \<Rightarrow> Inr (v, pos + k))"

fun copyTopics :: "bytes \<Rightarrow> nat \<Rightarrow> nat \<Rightarrow> bytes list" where
  "copyTopics rec pos 0 = []"
| "copyTopics rec pos (Suc k) = take 32 (drop pos rec) # copyTopics rec (pos + 32) k"

text \<open>The \<^verbatim>\<open>int\<close> arithmetic \<open>pos + int(nt)*32\<close> and \<open>pos + int(dl)\<close>, which wraps.\<close>

definition intAt :: "nat \<Rightarrow> u64 \<Rightarrow> int" where
  "intAt pos x = sint (of_nat pos + x :: u64)"

definition topicsAt :: "bytes \<Rightarrow> nat \<Rightarrow> u64 \<Rightarrow> (bytes list \<times> nat) res" where
  "topicsAt rec pos nt =
     (if intAt pos (nt * 32) > int (length rec) then Inl (Errorf ''truncated topics'')
      else if unat nt * 32 > maxAlloc then Inl GoPanic
      else Inr (copyTopics rec pos (unat nt), pos + unat nt * 32))"

definition dataAt :: "bytes \<Rightarrow> nat \<Rightarrow> u64 \<Rightarrow> (bytes \<times> nat) res" where
  "dataAt rec pos dl =
     (if intAt pos dl > int (length rec) then Inl (Errorf ''truncated data'')
      else if intAt pos dl < int pos then Inl GoPanic
      else Inr (take (unat dl) (drop pos rec), pos + unat dl))"

definition bind :: "'a res \<Rightarrow> ('a \<Rightarrow> 'b res) \<Rightarrow> 'b res" where
  "bind r k = (case r of Inl e \<Rightarrow> Inl e | Inr x \<Rightarrow> k x)"

definition logAt :: "bytes \<Rightarrow> nat \<Rightarrow> (LogRec \<times> nat) res" where
  "logAt rec pos =
     (if pos + 20 > length rec then Inl (Errorf ''truncated addr'')
      else
        bind (next_uv ''topic count'' rec (pos + 20)) (\<lambda>(nt, pos1).
        bind (topicsAt rec pos1 nt) (\<lambda>(topics, pos2).
        bind (next_uv ''data len'' rec pos2) (\<lambda>(dl, pos3).
        bind (dataAt rec pos3 dl) (\<lambda>(dat, pos4).
        Inr (\<lparr>l_Address = take 20 (drop pos rec), l_Topics = topics, l_Data = dat\<rparr>, pos4))))))"

fun logsAt :: "bytes \<Rightarrow> nat \<Rightarrow> nat \<Rightarrow> (LogRec list \<times> nat) res" where
  "logsAt rec 0 pos = Inr ([], pos)"
| "logsAt rec (Suc k) pos =
     bind (logAt rec pos) (\<lambda>(l, pos'). bind (logsAt rec k pos') (\<lambda>(ls, p). Inr (l # ls, p)))"

text \<open>The walk with its final position, which the Go function drops.\<close>

definition walkTxReceipt :: "bytes \<Rightarrow> ((u64 \<times> u64 \<times> u64 \<times> LogRec list) \<times> nat) res" where
  "walkTxReceipt rec =
     bind (next_uv ''status'' rec 0) (\<lambda>(status, p1).
     bind (next_uv ''gas used'' rec p1) (\<lambda>(gasUsed, p2).
     bind (next_uv ''cumulative gas'' rec p2) (\<lambda>(cum, p3).
     bind (next_uv ''log count'' rec p3) (\<lambda>(n, p4).
     if unat n * storedLogSize > maxAlloc then Inl GoPanic
     else bind (logsAt rec (unat n) p4) (\<lambda>(logs, p). Inr ((status, gasUsed, cum, logs), p))))))"

definition DecodeTxReceipt :: "bytes \<Rightarrow> (u64 \<times> u64 \<times> u64 \<times> LogRec list) res" where
  "DecodeTxReceipt rec = map_sum (\<lambda>e. e) fst (walkTxReceipt rec)"

section \<open>The block-level records\<close>

definition EncodeStoredLogs :: "Rcpt list \<Rightarrow> bytes" where
  "EncodeStoredLogs receipts =
     (let nLogs = sum_list (map (\<lambda>r. length (r_Logs r)) receipts) in
      if nLogs = 0 then []
      else uv (of_nat nLogs) @ concat (map (\<lambda>(ti, r). concat (map (\<lambda>l. encodeLog l @ uv (of_nat ti)) (r_Logs r)))
        (enumerate 0 receipts)))"

text \<open>
  \<open>DecodeStoredLogs\<close> slices the topics and the data without a bound check of its own: what it reads
  past the length, up to the capacity, is \<open>spare\<close>.
\<close>

fun rawTopics :: "bytes \<Rightarrow> nat \<Rightarrow> nat \<Rightarrow> (bytes list \<times> nat) res" where
  "rawTopics buf 0 pos = Inr ([], pos)"
| "rawTopics buf (Suc k) pos =
     (if pos + 32 > length buf then Inl GoPanic
      else bind (rawTopics buf k (pos + 32)) (\<lambda>(ts, p). Inr (take 32 (drop pos buf) # ts, p)))"

definition tail_uv :: "string \<Rightarrow> bytes \<Rightarrow> nat \<Rightarrow> (u64 \<times> nat) res" where
  "tail_uv what rec pos = (if pos > length rec then Inl GoPanic else next_uv what rec pos)"

definition storedLogAt :: "bytes \<Rightarrow> bytes \<Rightarrow> nat \<Rightarrow> ((LogRec \<times> u64) \<times> nat) res" where
  "storedLogAt rec spare pos =
     (if pos + 20 > length rec then Inl (Errorf ''truncated addr'')
      else
        bind (next_uv ''topic count'' rec (pos + 20)) (\<lambda>(nt, pos1).
        bind (rawTopics (rec @ spare) (unat nt) pos1) (\<lambda>(topics, pos2).
        bind (tail_uv ''data len'' rec pos2) (\<lambda>(dl, pos3).
        if intAt pos3 dl < int pos3 \<or> intAt pos3 dl > int (length (rec @ spare)) then Inl GoPanic
        else
          let pos4 = pos3 + unat dl in
          bind (tail_uv ''tx index'' rec pos4) (\<lambda>(ti, pos5).
          Inr ((\<lparr>l_Address = take 20 (drop pos rec), l_Topics = topics,
                 l_Data = take (unat dl) (drop pos3 (rec @ spare))\<rparr>, ti), pos5))))))"

fun storedLogsAt :: "bytes \<Rightarrow> bytes \<Rightarrow> nat \<Rightarrow> nat \<Rightarrow> (LogRec \<times> u64) list res" where
  "storedLogsAt rec spare 0 pos = Inr []"
| "storedLogsAt rec spare (Suc k) pos =
     bind (storedLogAt rec spare pos) (\<lambda>(l, pos'). bind (storedLogsAt rec spare k pos') (\<lambda>ls. Inr (l # ls)))"

definition DecodeStoredLogs :: "bytes \<Rightarrow> bytes \<Rightarrow> (LogRec \<times> u64) list res" where
  "DecodeStoredLogs rec spare =
     (case Uvarint rec of
        None \<Rightarrow> Inl (Errorf ''bad count'')
      | Some (n, pos) \<Rightarrow>
          if unat n * storedLogSize > maxAlloc then Inl GoPanic else storedLogsAt rec spare (unat n) pos)"

definition EncodeStoredReceipts :: "Rcpt list \<Rightarrow> bytes" where
  "EncodeStoredReceipts receipts = concat (map (\<lambda>r. uv (r_GasUsed r) @ [ucast (r_Status r)]) receipts)"

record StoredRcpt =
  sr_GasUsed :: u64
  sr_CumulativeGas :: u64
  sr_Status :: u64

lemma uvarint_loop_pos: "uvarint_loop buf i x s = Some (v, k) \<Longrightarrow> i < k"
  by (induction buf i x s rule: uvarint_loop.induct) (auto split: if_splits)

lemma Uvarint_pos: "Uvarint buf = Some (v, k) \<Longrightarrow> 0 < k"
  unfolding Uvarint_def by (rule uvarint_loop_pos)

function storedRcptsAt :: "bytes \<Rightarrow> nat \<Rightarrow> u64 \<Rightarrow> StoredRcpt list res" where
  "storedRcptsAt rec pos cum =
     (if pos < length rec then
        (case Uvarint (drop pos rec) of
           None \<Rightarrow> Inl (Errorf ''truncated'')
         | Some (g, k) \<Rightarrow>
             if pos + k \<ge> length rec then Inl (Errorf ''truncated'')
             else
               bind (storedRcptsAt rec (pos + k + 1) (cum + g)) (\<lambda>out.
               Inr (\<lparr>sr_GasUsed = g, sr_CumulativeGas = cum + g, sr_Status = ucast (rec ! (pos + k))\<rparr> # out)))
      else Inr [])"
  by pat_completeness auto
termination
  by (relation "measure (\<lambda>(rec, pos, _). length rec - pos)") (auto dest: Uvarint_pos)

declare storedRcptsAt.simps [simp del]

definition DecodeStoredReceipts :: "bytes \<Rightarrow> StoredRcpt list res" where
  "DecodeStoredReceipts rec = storedRcptsAt rec 0 0"

definition EncodeTailRcpt :: "bytes \<Rightarrow> bytes \<Rightarrow> bytes" where
  "EncodeTailRcpt logsRec rcptRec =
     (if length logsRec = 0 \<and> length rcptRec = 0 then []
      else uv (of_nat (length logsRec)) @ logsRec @ rcptRec)"

definition DecodeTailRcpt :: "bytes \<Rightarrow> (bytes \<times> bytes) res" where
  "DecodeTailRcpt rec =
     (case Uvarint rec of
        None \<Rightarrow> Inl (Errorf ''bad framing'')
      | Some (n, pos) \<Rightarrow>
          if intAt pos n > int (length rec) then Inl (Errorf ''bad framing'')
          else if intAt pos n < int pos then Inl GoPanic
          else Inr (take (unat n) (drop pos rec), drop (pos + unat n) rec))"

section \<open>Round trips\<close>

lemma intAt_small: "pos + unat x < 2 ^ 63 \<Longrightarrow> intAt pos x = int (pos + unat x)"
proof -
  define n where "n = pos + unat x"
  assume "pos + unat x < 2 ^ 63"
  then have n: "n < 2 ^ 63" by (simp add: n_def)
  have "unat (of_nat pos + x :: u64) = n"
    using unat_add_of_nat [of x pos] n by (simp add: n_def add.commute)
  then have u: "uint (of_nat pos + x :: u64) = int n" by (metis uint_nat)
  have "int n < 2 ^ 63" using n by (simp only: of_nat_less_numeral_power_cancel_iff)
  then have "signed_take_bit 63 (int n) = int n" by (intro signed_take_bit_int_eq_self) simp_all
  then show ?thesis unfolding intAt_def sint_uint u by (simp add: n_def)
qed

lemma sint_eq_uint_u64:
  assumes "0 \<le> sint (w :: u64)"
  shows "sint w = uint w"
proof -
  have "sint w < 2 ^ 63" using sint_less [of w] by simp
  then have "take_bit 64 (sint w) = sint w" using assms by (intro take_bit_int_eq_self) simp_all
  moreover have "uint w = take_bit 64 (sint w)" by (simp add: uint_sint)
  ultimately show ?thesis by simp
qed

lemma intAt_ge:
  assumes ge: "int pos \<le> intAt pos x" and pos: "pos < 2 ^ 63"
  shows "intAt pos x = int (pos + unat x)"
proof -
  let ?w = "of_nat pos + x :: u64"
  have "sint ?w = uint ?w" using ge by (intro sint_eq_uint_u64) (simp add: intAt_def)
  then have w: "intAt pos x = int (unat ?w)" by (simp add: intAt_def)
  have "?w = of_nat (pos + unat x)" by simp
  then have u: "unat ?w = (pos + unat x) mod 2 ^ 64" by (simp only: unat_of_nat) simp
  have x: "unat x < 2 ^ 64" using unsigned_less [of x] by simp
  have "pos + unat x < 2 ^ 64"
  proof (rule ccontr)
    assume "\<not> pos + unat x < 2 ^ 64"
    then have le: "2 ^ 64 \<le> pos + unat x" by linarith
    have "(pos + unat x) mod 2 ^ 64 = (pos + unat x - 2 ^ 64) mod 2 ^ 64" by (rule le_mod_geq [OF le])
    also have "\<dots> = pos + unat x - 2 ^ 64" by (rule mod_less) (use pos x in simp)
    finally have "unat ?w < pos" using u x le by linarith
    then show False using ge w by linarith
  qed
  then have "unat ?w = pos + unat x" using u by (simp only: mod_less)
  then show ?thesis using w by (simp only:)
qed

lemma next_uv_at: "drop pos rec = uv x @ r \<Longrightarrow> next_uv w rec pos = Inr (x, pos + length (uv x))"
  by (simp add: next_uv_def uv_def Uvarint_append)

lemma drop_append_at: "drop pos rec = a @ r \<Longrightarrow> drop (pos + length a) rec = r"
  by (metis add.commute append_eq_conv_conj drop_drop)

lemma length_at: "drop pos rec = a @ r \<Longrightarrow> a \<noteq> [] \<Longrightarrow> pos + length a + length r = length rec"
  by (metis append_is_Nil_conv drop_eq_Nil2 le_add_diff_inverse length_append length_drop nle_le add.assoc)

lemma length_at_le: "drop pos rec = a @ r \<Longrightarrow> length a \<le> length rec"
  by (metis diff_le_self le_add1 length_append length_drop order_trans)

lemma copyTopics_at:
  "drop pos rec = concat ts @ r \<Longrightarrow> list_all (\<lambda>t. length t = 32) ts \<Longrightarrow> copyTopics rec pos (length ts) = ts"
proof (induction ts arbitrary: pos)
  case (Cons t ts)
  then have "drop (pos + 32) rec = concat ts @ r"
    using drop_append_at [of pos rec t "concat ts @ r"] by simp
  with Cons show ?case by simp
qed simp

lemma length_topics: "list_all (\<lambda>t. length t = 32) ts \<Longrightarrow> length (concat ts) = 32 * length ts"
  by (induction ts) auto

lemma unat_of_nat_u64: "n < 2 ^ 64 \<Longrightarrow> unat (of_nat n :: u64) = n"
  by (simp add: unat_of_nat)

lemma uv_nonempty [simp]: "uv x \<noteq> []"
  by (simp add: uv_def AppendUvarint_pos)

lemma logAt_encode:
  assumes at: "drop pos rec = encodeLog l @ r" and wf: "wf_log l" and len: "length rec < 2 ^ 40"
  shows "logAt rec pos = Inr (l, pos + length (encodeLog l))"
proof -
  let ?nt = "length (l_Topics l)" and ?dl = "length (l_Data l)"
  let ?u = "uv (of_nat ?nt)" and ?v = "uv (of_nat ?dl)"
  have adr: "length (l_Address l) = 20" and ts: "list_all (\<lambda>t. length t = 32) (l_Topics l)"
    using wf by (simp_all add: wf_log_def)
  have ne: "l_Address l \<noteq> []" using adr by auto
  note d0 = at [unfolded encodeLog_def append_assoc]
  note d1 = drop_append_at [OF d0]
  note d2 = drop_append_at [OF d1]
  note d3 = drop_append_at [OF d2]
  note d4 = drop_append_at [OF d3]
  have L: "pos + 20 + length ?u + 32 * ?nt + length ?v + ?dl + length r = length rec"
    using length_at [OF d0 ne] by (simp add: adr length_topics [OF ts])
  have unt: "unat (of_nat ?nt :: u64) = ?nt" and udl: "unat (of_nat ?dl :: u64) = ?dl"
    using L len by (simp_all add: unat_of_nat_u64)
  have n1: "next_uv ''topic count'' rec (pos + 20) = Inr (of_nat ?nt, pos + 20 + length ?u)"
    using next_uv_at [OF d1] by (simp add: adr)
  have "unat (of_nat ?nt * 32 :: u64) = ?nt * 32"
    using unat_of_nat_u64 [of "?nt * 32"] L len by simp
  then have i1: "intAt (pos + 20 + length ?u) (of_nat ?nt * 32) = int (pos + 20 + length ?u + ?nt * 32)"
    using intAt_small [of "pos + 20 + length ?u" "of_nat ?nt * 32"] L len by simp
  have n2: "topicsAt rec (pos + 20 + length ?u) (of_nat ?nt) = Inr (l_Topics l, pos + 20 + length ?u + ?nt * 32)"
    using copyTopics_at [OF d2 ts] L len unt by (simp add: topicsAt_def i1 adr maxAlloc_def)
  have n3: "next_uv ''data len'' rec (pos + 20 + length ?u + ?nt * 32) = Inr (of_nat ?dl, pos + 20 + length ?u + ?nt * 32 + length ?v)"
    using next_uv_at [OF d3] by (simp add: adr length_topics [OF ts] mult.commute)
  have i2: "intAt (pos + 20 + length ?u + ?nt * 32 + length ?v) (of_nat ?dl) = int (pos + 20 + length ?u + ?nt * 32 + length ?v + ?dl)"
    using intAt_small [of "pos + 20 + length ?u + ?nt * 32 + length ?v" "of_nat ?dl"] L len udl by simp
  have n4: "dataAt rec (pos + 20 + length ?u + ?nt * 32 + length ?v) (of_nat ?dl) =
      Inr (l_Data l, pos + 20 + length ?u + ?nt * 32 + length ?v + ?dl)"
    using L udl d4 by (simp add: dataAt_def i2 adr length_topics [OF ts] mult.commute)
  have a: "take 20 (drop pos rec) = l_Address l" using d0 adr by simp
  show ?thesis
    using L by (simp add: logAt_def n1 n2 n3 n4 bind_def a) (simp add: encodeLog_def adr length_topics [OF ts])
qed

lemma logsAt_encode:
  assumes "drop pos rec = concat (map encodeLog ls) @ r" and "list_all wf_log ls" and "length rec < 2 ^ 40"
  shows "logsAt rec (length ls) pos = Inr (ls, pos + length (concat (map encodeLog ls)))"
  using assms
proof (induction ls arbitrary: pos)
  case (Cons l ls)
  have 1: "drop pos rec = encodeLog l @ concat (map encodeLog ls) @ r" using Cons.prems by simp
  have 2: "drop (pos + length (encodeLog l)) rec = concat (map encodeLog ls) @ r" by (rule drop_append_at [OF 1])
  show ?case
    using logAt_encode [OF 1] Cons.IH [OF 2] Cons.prems by (simp add: bind_def)
qed simp

lemma encodeLog_long: "wf_log l \<Longrightarrow> 20 \<le> length (encodeLog l)"
  by (simp add: wf_log_def encodeLog_def)

lemma logs_count: "list_all wf_log ls \<Longrightarrow> 20 * length ls \<le> length (concat (map encodeLog ls))"
  by (induction ls) (auto dest: encodeLog_long)

lemma walkTxReceipt_encode:
  assumes wf: "list_all wf_log (r_Logs r)" and len: "length (EncodeTxReceipt r cum) < 2 ^ 40"
  shows "walkTxReceipt (EncodeTxReceipt r cum) =
    Inr ((r_Status r, r_GasUsed r, cum, r_Logs r), length (EncodeTxReceipt r cum))"
proof -
  let ?rec = "EncodeTxReceipt r cum" and ?n = "length (r_Logs r)"
  have d0: "drop 0 ?rec = uv (r_Status r) @ uv (r_GasUsed r) @ uv cum @ uv (of_nat ?n) @ concat (map encodeLog (r_Logs r)) @ []"
    by (simp add: EncodeTxReceipt_def)
  note d1 = drop_append_at [OF d0, unfolded add_0]
  note d2 = drop_append_at [OF d1]
  note d3 = drop_append_at [OF d2]
  note d4 = drop_append_at [OF d3]
  have "20 * ?n \<le> length ?rec" using logs_count [OF wf] by (simp add: EncodeTxReceipt_def)
  then have n: "unat (of_nat ?n :: u64) = ?n" "\<not> ?n * storedLogSize > maxAlloc"
    using len by (simp_all add: unat_of_nat_u64 storedLogSize_def maxAlloc_def)
  note step = next_uv_at [OF d0, unfolded add_0] next_uv_at [OF d1] next_uv_at [OF d2] next_uv_at [OF d3]
    logsAt_encode [OF d4 wf len]
  show ?thesis
    unfolding walkTxReceipt_def by (simp add: step bind_def n) (simp add: EncodeTxReceipt_def)
qed

text \<open>
  C19. The receipt row round trips: decoding an encoded receipt gives back its status, its gas, the
  cumulative gas and every log with its address, topics and data.
\<close>

theorem TxReceipt_roundtrip:
  assumes "list_all wf_log (r_Logs r)" and "length (EncodeTxReceipt r cum) < 2 ^ 40"
  shows "DecodeTxReceipt (EncodeTxReceipt r cum) = Inr (r_Status r, r_GasUsed r, cum, r_Logs r)"
  using walkTxReceipt_encode [OF assms] by (simp add: DecodeTxReceipt_def)

definition sample_rcpt :: Rcpt where
  "sample_rcpt = \<lparr>r_Status = 1, r_GasUsed = 21000,
     r_Logs = [\<lparr>l_Address = replicate 20 7, l_Topics = [replicate 32 1, replicate 32 2], l_Data = [5, 6]\<rparr>]\<rparr>"

lemma sample_rcpt_ok:
  "list_all wf_log (r_Logs sample_rcpt)" "length (EncodeTxReceipt sample_rcpt 99000) = 96"
  by code_simp+

theorem TxReceipt_roundtrip_witness:
  "DecodeTxReceipt (EncodeTxReceipt sample_rcpt 99000) = Inr (1, 21000, 99000, r_Logs sample_rcpt)"
  using TxReceipt_roundtrip [OF sample_rcpt_ok(1), of 99000] sample_rcpt_ok(2) by (simp add: sample_rcpt_def)

section \<open>Truncation\<close>

text \<open>
  A step that succeeds on a record succeeds the same way on every extension of it, and never moves
  past the end of the record.
\<close>

lemma uvarint_loop_extend:
  "uvarint_loop buf i x s = Some (v, k) \<Longrightarrow> uvarint_loop (buf @ ext) i x s = Some (v, k) \<and> k \<le> i + length buf"
  by (induction buf i x s rule: uvarint_loop.induct) (auto split: if_splits)

lemma Uvarint_extend: "Uvarint buf = Some (v, k) \<Longrightarrow> Uvarint (buf @ ext) = Some (v, k) \<and> k \<le> length buf"
  unfolding Uvarint_def using uvarint_loop_extend [of buf 0 0 0] by simp

lemma next_uv_extend:
  assumes "next_uv w rec pos = Inr (v, p)" and "pos \<le> length rec"
  shows "next_uv w (rec @ ext) pos = Inr (v, p) \<and> p \<le> length rec"
proof -
  obtain k where k: "Uvarint (drop pos rec) = Some (v, k)" "p = pos + k"
    using assms(1) by (auto simp: next_uv_def split: option.splits)
  moreover have "pos + k \<le> length rec" using Uvarint_extend [OF k(1), of ext] assms(2) by simp linarith
  ultimately show ?thesis using Uvarint_extend [OF k(1), of ext] assms(2) by (simp add: next_uv_def)
qed

lemma copyTopics_extend:
  "pos + k * 32 \<le> length rec \<Longrightarrow> copyTopics (rec @ ext) pos k = copyTopics rec pos k"
  by (induction k arbitrary: pos) auto

lemma topicsAt_extend:
  assumes "topicsAt rec pos nt = Inr (ts, p)" and "pos \<le> length rec" and "length (rec @ ext) < 2 ^ 40"
  shows "topicsAt (rec @ ext) pos nt = Inr (ts, p) \<and> p \<le> length rec"
proof -
  have nt: "unat nt * 32 \<le> maxAlloc" "\<not> intAt pos (nt * 32) > int (length rec)"
    and r: "ts = copyTopics rec pos (unat nt)" "p = pos + unat nt * 32"
    using assms(1) by (auto simp: topicsAt_def split: if_splits)
  have "unat nt * unat (32 :: u64) < 2 ^ LENGTH(64)" using nt(1) by (simp add: maxAlloc_def)
  then have "unat (nt * 32) = unat nt * 32" using unat_mult_lem [of nt 32] by simp
  then have i: "intAt pos (nt * 32) = int p"
    using intAt_small [of pos "nt * 32"] nt(1) r(2) assms(2,3) by (simp add: maxAlloc_def)
  then have p: "p \<le> length rec" using nt(2) by linarith
  then have "copyTopics (rec @ ext) pos (unat nt) = copyTopics rec pos (unat nt)"
    by (intro copyTopics_extend) (use r(2) in linarith)
  then show ?thesis using nt(1) i p unfolding topicsAt_def r(1) by (simp flip: r(2))
qed

lemma dataAt_extend:
  assumes "dataAt rec pos dl = Inr (d, p)" and "pos \<le> length rec" and "length (rec @ ext) < 2 ^ 40"
  shows "dataAt (rec @ ext) pos dl = Inr (d, p) \<and> p \<le> length rec"
proof -
  have b: "\<not> intAt pos dl > int (length rec)" "\<not> intAt pos dl < int pos"
    and r: "d = take (unat dl) (drop pos rec)" "p = pos + unat dl"
    using assms(1) by (auto simp: dataAt_def split: if_splits)
  have i: "intAt pos dl = int p" using intAt_ge [of pos dl] b(2) assms(2,3) r(2) by simp
  then have p: "p \<le> length rec" using b(1) by linarith
  have "pos \<le> p" "unat dl \<le> length rec - pos" using p unfolding r(2) by linarith+
  then have "take (unat dl) (drop pos (rec @ ext)) = d" using assms(2) by (simp add: r(1))
  then show ?thesis using i p \<open>pos \<le> p\<close> unfolding dataAt_def by (simp flip: r(2))
qed

lemma bind_Inr: "bind r k = Inr y \<longleftrightarrow> (\<exists>x. r = Inr x \<and> k x = Inr y)"
  by (auto simp: bind_def split: sum.splits)

lemma logAt_extend:
  assumes "logAt rec pos = Inr (l, p)" and "length (rec @ ext) < 2 ^ 40"
  shows "logAt (rec @ ext) pos = Inr (l, p) \<and> p \<le> length rec"
proof -
  have le: "pos + 20 \<le> length rec" using assms(1) by (simp add: logAt_def split: if_splits)
  then obtain nt p1 ts p2 dl p3 d where s: "next_uv ''topic count'' rec (pos + 20) = Inr (nt, p1)"
    "topicsAt rec p1 nt = Inr (ts, p2)" "next_uv ''data len'' rec p2 = Inr (dl, p3)" "dataAt rec p3 dl = Inr (d, p)"
    and l: "l = \<lparr>l_Address = take 20 (drop pos rec), l_Topics = ts, l_Data = d\<rparr>"
    using assms(1) by (auto simp: logAt_def bind_Inr)
  note e1 = next_uv_extend [OF s(1) le, of ext]
  note e2 = topicsAt_extend [OF s(2) conjunct2 [OF e1] assms(2)]
  note e3 = next_uv_extend [OF s(3) conjunct2 [OF e2], of ext]
  note e4 = dataAt_extend [OF s(4) conjunct2 [OF e3] assms(2)]
  show ?thesis using e1 e2 e3 e4 le by (simp add: logAt_def bind_def l)
qed

lemma logsAt_extend:
  assumes "logsAt rec k pos = Inr (ls, p)" and "length (rec @ ext) < 2 ^ 40" and "pos \<le> length rec"
  shows "logsAt (rec @ ext) k pos = Inr (ls, p) \<and> p \<le> length rec"
  using assms(1,3)
proof (induction k arbitrary: pos ls)
  case (Suc k)
  then obtain l p1 ls' where s: "logAt rec pos = Inr (l, p1)" "logsAt rec k p1 = Inr (ls', p)" "ls = l # ls'"
    by (auto simp: bind_Inr)
  note e = logAt_extend [OF s(1) assms(2)]
  show ?case using e Suc.IH [OF s(2)] s(3) by (simp add: bind_def)
qed simp

lemma walkTxReceipt_extend:
  assumes "walkTxReceipt rec = Inr (v, p)" and "length (rec @ ext) < 2 ^ 40"
  shows "walkTxReceipt (rec @ ext) = Inr (v, p) \<and> p \<le> length rec"
proof -
  obtain st p1 g p2 cum p3 n p4 logs where s: "next_uv ''status'' rec 0 = Inr (st, p1)"
    "next_uv ''gas used'' rec p1 = Inr (g, p2)" "next_uv ''cumulative gas'' rec p2 = Inr (cum, p3)"
    "next_uv ''log count'' rec p3 = Inr (n, p4)" "\<not> unat n * storedLogSize > maxAlloc"
    "logsAt rec (unat n) p4 = Inr (logs, p)" and v: "v = (st, g, cum, logs)"
    using assms(1) by (auto simp: walkTxReceipt_def bind_Inr split: if_splits)
  note e1 = next_uv_extend [OF s(1), of ext, simplified]
  note e2 = next_uv_extend [OF s(2) conjunct2 [OF e1], of ext]
  note e3 = next_uv_extend [OF s(3) conjunct2 [OF e2], of ext]
  note e4 = next_uv_extend [OF s(4) conjunct2 [OF e3], of ext]
  note e5 = logsAt_extend [OF s(6) assms(2) conjunct2 [OF e4]]
  show ?thesis using e1 e2 e3 e4 e5 s(5) by (simp add: walkTxReceipt_def bind_def v)
qed



text \<open>
  C25. A corrupt log count panics: \<^verbatim>\<open>DecodeTxReceipt\<close> allocates the log slice from the stored count
  before it compares anything with the length of the record.
\<close>

theorem TxReceipt_count_panics:
  assumes "unat n * storedLogSize > maxAlloc"
  shows "DecodeTxReceipt (uv st @ uv g @ uv cum @ uv n @ rest) = Inl GoPanic"
proof -
  let ?rec = "uv st @ uv g @ uv cum @ uv n @ rest"
  have d0: "drop 0 ?rec = uv st @ uv g @ uv cum @ uv n @ rest" by simp
  note d1 = drop_append_at [OF d0, unfolded add_0]
  note d2 = drop_append_at [OF d1]
  note d3 = drop_append_at [OF d2]
  note step = next_uv_at [OF d0, unfolded add_0] next_uv_at [OF d1] next_uv_at [OF d2] next_uv_at [OF d3]
  show ?thesis using assms by (simp add: DecodeTxReceipt_def walkTxReceipt_def step bind_def)
qed

theorem TxReceipt_count_panics_witness:
  "DecodeTxReceipt (uv 1 @ uv 21000 @ uv 21000 @ uv (2 ^ 60) @ []) = Inl GoPanic"
  by (rule TxReceipt_count_panics) (simp add: storedLogSize_def maxAlloc_def)

section \<open>The block-level records round trip\<close>

fun withCumulative :: "u64 \<Rightarrow> Rcpt list \<Rightarrow> StoredRcpt list" where
  "withCumulative cum [] = []"
| "withCumulative cum (r # rs) =
     \<lparr>sr_GasUsed = r_GasUsed r, sr_CumulativeGas = cum + r_GasUsed r, sr_Status = ucast (ucast (r_Status r) :: byte)\<rparr>
       # withCumulative (cum + r_GasUsed r) rs"

lemma storedRcptsAt_encode:
  "drop pos rec = EncodeStoredReceipts rs \<Longrightarrow> pos \<le> length rec \<Longrightarrow>
     storedRcptsAt rec pos cum = Inr (withCumulative cum rs)"
proof (induction rs arbitrary: pos cum)
  case Nil
  then show ?case by (simp add: storedRcptsAt.simps EncodeStoredReceipts_def)
next
  case (Cons r rs)
  let ?g = "uv (r_GasUsed r)"
  have d: "drop pos rec = ?g @ [ucast (r_Status r)] @ EncodeStoredReceipts rs"
    using Cons.prems by (simp add: EncodeStoredReceipts_def)
  have d1: "drop (pos + length ?g) rec = [ucast (r_Status r)] @ EncodeStoredReceipts rs"
    by (rule drop_append_at [OF d])
  have d2: "drop (pos + length ?g + 1) rec = EncodeStoredReceipts rs"
    using drop_append_at [OF d1] by simp
  have len: "pos + length ?g < length rec" using d1 by (cases "pos + length ?g < length rec") simp_all
  have st: "rec ! (pos + length ?g) = ucast (r_Status r)"
    using d1 len by (metis Cons_nth_drop_Suc append_Cons list.inject)
  have u: "Uvarint (drop pos rec) = Some (r_GasUsed r, length ?g)"
    by (simp add: d uv_def Uvarint_append)
  show ?case
    using len Cons.IH [OF d2] by (subst storedRcptsAt.simps) (simp add: u st bind_def)
qed

lemma uvarint_loop_bound: "uvarint_loop buf i x s = Some (v, k) \<Longrightarrow> i \<le> 10 \<Longrightarrow> k \<le> 10"
  by (induction buf i x s rule: uvarint_loop.induct) (auto split: if_splits)

lemma length_uv: "length (uv x) \<le> 10"
  using Uvarint_append [of x "[]"] uvarint_loop_bound [of "AppendUvarint [] x" 0 0 0]
  by (simp add: uv_def Uvarint_def)

lemma rawTopics_at:
  "drop pos buf = concat ts @ r \<Longrightarrow> pos \<le> length buf \<Longrightarrow> list_all (\<lambda>t. length t = 32) ts \<Longrightarrow>
     rawTopics buf (length ts) pos = Inr (ts, pos + length (concat ts))"
proof (induction ts arbitrary: pos)
  case (Cons t ts)
  have d: "drop pos buf = t @ concat ts @ r" and t: "length t = 32" using Cons.prems by simp_all
  have d1: "drop (pos + 32) buf = concat ts @ r" using drop_append_at [OF d] t by simp
  have "pos + 32 + length (concat ts) + length r = length buf"
    using length_at [OF d] t by (cases t) auto
  with Cons.IH [OF d1] Cons.prems d t show ?case by (simp add: bind_def)
qed simp

definition indexLogs :: "Rcpt list \<Rightarrow> (LogRec \<times> u64) list" where
  "indexLogs rs = concat (map (\<lambda>(ti, r). map (\<lambda>l. (l, of_nat ti)) (r_Logs r)) (enumerate 0 rs))"

definition encodeIndexed :: "LogRec \<times> u64 \<Rightarrow> bytes" where
  "encodeIndexed lt = encodeLog (fst lt) @ uv (snd lt)"

lemma EncodeStoredLogs_indexed:
  "EncodeStoredLogs rs = (if indexLogs rs = [] then []
     else uv (of_nat (length (indexLogs rs))) @ concat (map encodeIndexed (indexLogs rs)))"
proof -
  have len: "length (concat (map (\<lambda>(ti, r). map (\<lambda>l. (l, of_nat ti :: u64)) (r_Logs r)) (enumerate k rs)))
      = sum_list (map (\<lambda>r. length (r_Logs r)) rs)" for k
    by (induction rs arbitrary: k) simp_all
  have body: "concat (map (\<lambda>(ti, r). concat (map (\<lambda>l. encodeLog l @ uv (of_nat ti)) (r_Logs r))) (enumerate k rs)) =
      concat (map encodeIndexed (concat (map (\<lambda>(ti, r). map (\<lambda>l. (l, of_nat ti)) (r_Logs r)) (enumerate k rs))))" for k
    by (induction rs arbitrary: k) (simp_all add: encodeIndexed_def comp_def)
  have "indexLogs rs = [] \<longleftrightarrow> sum_list (map (\<lambda>r. length (r_Logs r)) rs) = 0"
    using len [of 0] by (simp add: indexLogs_def flip: length_0_conv del: length_0_conv)
  then show ?thesis using len [of 0] body [of 0] by (simp add: EncodeStoredLogs_def indexLogs_def Let_def)
qed

lemma storedLogAt_encode:
  assumes at: "drop pos rec = encodeIndexed (l, ti) @ r" and wf: "wf_log l" and len: "length (rec @ spare) < 2 ^ 40"
  shows "storedLogAt rec spare pos = Inr ((l, ti), pos + length (encodeIndexed (l, ti)))"
proof -
  let ?nt = "length (l_Topics l)" and ?dl = "length (l_Data l)"
  let ?u = "uv (of_nat ?nt)" and ?v = "uv (of_nat ?dl)"
  have adr: "length (l_Address l) = 20" and ts: "list_all (\<lambda>t. length t = 32) (l_Topics l)"
    using wf by (simp_all add: wf_log_def)
  have ne: "l_Address l \<noteq> []" using adr by auto
  have d0: "drop pos rec = l_Address l @ ?u @ concat (l_Topics l) @ ?v @ l_Data l @ uv ti @ r"
    using at by (simp add: encodeIndexed_def encodeLog_def)
  note d1 = drop_append_at [OF d0, unfolded adr]
  note d2 = drop_append_at [OF d1]
  note d3 = drop_append_at [OF d2]
  note d4 = drop_append_at [OF d3]
  note d5 = drop_append_at [OF d4]
  let ?p1 = "pos + 20 + length ?u" let ?p2 = "?p1 + length (concat (l_Topics l))" let ?p3 = "?p2 + length ?v"
  have L: "?p3 + ?dl + length (uv ti) + length r = length rec"
    using length_at [OF d0 ne] by (simp add: adr)
  have unt: "unat (of_nat ?nt :: u64) = ?nt" and udl: "unat (of_nat ?dl :: u64) = ?dl"
    using L len by (simp_all add: unat_of_nat_u64 length_topics [OF ts])
  have n2: "rawTopics (rec @ spare) ?nt ?p1 = Inr (l_Topics l, ?p2)"
    by (rule rawTopics_at [OF _ _ ts]) (use d2 L in simp_all)
  have n3: "tail_uv ''data len'' rec ?p2 = Inr (of_nat ?dl, ?p3)"
    using next_uv_at [OF d3] L by (simp add: tail_uv_def)
  have i2: "intAt ?p3 (of_nat ?dl) = int (?p3 + ?dl)"
    using intAt_small [of ?p3 "of_nat ?dl"] L len udl by simp
  have n5: "tail_uv ''tx index'' rec (?p3 + ?dl) = Inr (ti, ?p3 + ?dl + length (uv ti))"
    using next_uv_at [OF d5] L by (simp add: tail_uv_def)
  have dat: "take ?dl (drop ?p3 (rec @ spare)) = l_Data l" using d4 L by simp
  have a: "take 20 (drop pos rec) = l_Address l" using d0 adr by simp
  have ok: "\<not> (intAt ?p3 (of_nat ?dl) < int ?p3 \<or> int (length (rec @ spare)) < intAt ?p3 (of_nat ?dl))"
    using L unfolding i2 by simp
  have le: "\<not> length rec < pos + 20" using L by simp
  show ?thesis
    unfolding storedLogAt_def if_not_P [OF le] next_uv_at [OF d1]
    by (simp only: bind_def sum.case prod.case unt n2 n3 if_not_P [OF ok] Let_def udl n5 dat a)
      (simp add: encodeIndexed_def encodeLog_def adr)
qed

lemma storedLogsAt_encode:
  assumes "drop pos rec = concat (map encodeIndexed ls) @ r" and "list_all (\<lambda>lt. wf_log (fst lt)) ls"
    and "length (rec @ spare) < 2 ^ 40"
  shows "storedLogsAt rec spare (length ls) pos = Inr ls"
  using assms
proof (induction ls arbitrary: pos)
  case (Cons lt ls)
  obtain l ti where lt: "lt = (l, ti)" by (cases lt)
  have 1: "drop pos rec = encodeIndexed (l, ti) @ concat (map encodeIndexed ls) @ r" using Cons.prems lt by simp
  show ?case
    using storedLogAt_encode [OF 1] Cons.IH [OF drop_append_at [OF 1]] Cons.prems lt by (simp add: bind_def)
qed simp

lemma indexed_count:
  "list_all (\<lambda>lt. wf_log (fst lt)) ls \<Longrightarrow> 20 * length ls \<le> length (concat (map encodeIndexed ls))"
proof (induction ls)
  case (Cons lt ls)
  then show ?case using encodeLog_long [of "fst lt"] by (simp add: encodeIndexed_def)
qed simp

text \<open>
  C21. The block-level records round trip: the logs come back in order with their transaction index,
  the receipts with the running sum of their gas, and the tail framing returns its two parts.
\<close>

theorem block_records_roundtrip:
  assumes "list_all (\<lambda>r. list_all wf_log (r_Logs r)) rs" and "length (EncodeStoredLogs rs @ spare) < 2 ^ 40"
    and "indexLogs rs \<noteq> []" and "logsRec = EncodeStoredLogs rs" and "rcptRec = EncodeStoredReceipts rs"
  shows "DecodeStoredLogs logsRec spare = Inr (indexLogs rs) \<and>
    DecodeStoredReceipts rcptRec = Inr (withCumulative 0 rs) \<and>
    DecodeTailRcpt (EncodeTailRcpt logsRec rcptRec) = Inr (logsRec, rcptRec)"
proof (intro conjI)
  let ?ls = "indexLogs rs"
  have rec: "logsRec = uv (of_nat (length ?ls)) @ concat (map encodeIndexed ?ls)"
    using assms(3,4) by (simp add: EncodeStoredLogs_indexed)
  have wf: "list_all (\<lambda>lt. wf_log (fst lt)) ?ls"
    using assms(1) by (auto simp: indexLogs_def list_all_iff in_set_enumerate_eq)
  have len: "length (logsRec @ spare) < 2 ^ 40" using assms(2,4) by simp
  have n: "20 * length ?ls < 2 ^ 40" using indexed_count [OF wf] len rec by simp
  then have u: "unat (of_nat (length ?ls) :: u64) = length ?ls" by (simp add: unat_of_nat_u64)
  have uvr: "Uvarint logsRec = Some (of_nat (length ?ls), length (uv (of_nat (length ?ls))))"
    by (simp add: rec uv_def Uvarint_append)
  have "storedLogsAt logsRec spare (length ?ls) (length (uv (of_nat (length ?ls)))) = Inr ?ls"
    by (rule storedLogsAt_encode [OF _ wf len, of _ "[]"]) (simp add: rec)
  then show "DecodeStoredLogs logsRec spare = Inr ?ls"
    using n by (simp add: DecodeStoredLogs_def uvr u storedLogSize_def maxAlloc_def)
  show "DecodeStoredReceipts rcptRec = Inr (withCumulative 0 rs)"
    using storedRcptsAt_encode [of 0 rcptRec rs 0] assms(5) by (simp add: DecodeStoredReceipts_def)
  have ul: "unat (of_nat (length logsRec) :: u64) = length logsRec"
    using len by (simp add: unat_of_nat_u64)
  let ?h = "uv (of_nat (length logsRec))"
  have "length ?h \<le> 10" by (rule length_uv)
  then have i: "intAt (length ?h) (of_nat (length logsRec)) = int (length ?h + length logsRec)"
    using intAt_small [of "length ?h" "of_nat (length logsRec)"] ul len by simp
  have "EncodeTailRcpt logsRec rcptRec = ?h @ logsRec @ rcptRec"
    using rec by (simp add: EncodeTailRcpt_def)
  moreover have "Uvarint (?h @ logsRec @ rcptRec) = Some (of_nat (length logsRec), length ?h)"
    by (simp add: uv_def Uvarint_append)
  ultimately show "DecodeTailRcpt (EncodeTailRcpt logsRec rcptRec) = Inr (logsRec, rcptRec)"
    by (simp add: DecodeTailRcpt_def i ul)
qed

lemma sample_logs_ok:
  "list_all (\<lambda>r. list_all wf_log (r_Logs r)) [sample_rcpt]" "length (EncodeStoredLogs [sample_rcpt] @ []) < 2 ^ 40"
  "indexLogs [sample_rcpt] \<noteq> []"
  by code_simp+

theorem block_records_roundtrip_witness:
  "DecodeStoredLogs (EncodeStoredLogs [sample_rcpt]) [] = Inr (indexLogs [sample_rcpt]) \<and>
    DecodeStoredReceipts (EncodeStoredReceipts [sample_rcpt]) = Inr (withCumulative 0 [sample_rcpt]) \<and>
    DecodeTailRcpt (EncodeTailRcpt (EncodeStoredLogs [sample_rcpt]) (EncodeStoredReceipts [sample_rcpt])) =
      Inr (EncodeStoredLogs [sample_rcpt], EncodeStoredReceipts [sample_rcpt])"
  by (rule block_records_roundtrip [OF sample_logs_ok refl refl])

end
