(* ===== verification/Text.thy ===== *)
theory Text
  imports Prelude "HOL-Library.Char_ord"
begin

text \<open>
  The functions of Go's \<^verbatim>\<open>strings\<close>, \<^verbatim>\<open>strconv\<close> and \<^verbatim>\<open>encoding/hex\<close> that the sources use, on ASCII
  strings, with the facts about them the components need.
\<close>

section \<open>Numbers\<close>

text \<open>\<^verbatim>\<open>strconv.ParseUint(s, 10, 64)\<close>: decimal digits only, no sign, at most \<open>2^64 - 1\<close>.\<close>

definition digit :: "char \<Rightarrow> nat option" where
  "digit c = (let n = of_char c :: nat in if 48 \<le> n \<and> n \<le> 57 then Some (n - 48) else None)"

fun parse_digits :: "nat \<Rightarrow> string \<Rightarrow> nat option" where
  "parse_digits acc [] = Some acc"
| "parse_digits acc (c # cs) = (case digit c of None \<Rightarrow> None | Some d \<Rightarrow> parse_digits (10 * acc + d) cs)"

definition ParseUint :: "string \<Rightarrow> u64 option" where
  "ParseUint s =
     (if s = [] then None
      else case parse_digits 0 s of None \<Rightarrow> None | Some n \<Rightarrow> if n < 2 ^ 64 then Some (of_nat n) else None)"

text \<open>\<^verbatim>\<open>strings.TrimSpace\<close> on ASCII text.\<close>

definition is_space :: "char \<Rightarrow> bool" where
  "is_space c = (let n = of_char c :: nat in n = 32 \<or> (9 \<le> n \<and> n \<le> 13))"

definition TrimSpace :: "string \<Rightarrow> string" where
  "TrimSpace s = rev (dropWhile is_space (rev (dropWhile is_space s)))"

text \<open>\<^verbatim>\<open>strings.Fields\<close> and \<^verbatim>\<open>strings.Split\<close> at a one-character separator.\<close>

function Fields :: "string \<Rightarrow> string list" where
  "Fields s =
     (let t = dropWhile is_space s in
      if t = [] then [] else takeWhile (\<lambda>c. \<not> is_space c) t # Fields (dropWhile (\<lambda>c. \<not> is_space c) t))"
  by pat_completeness auto
termination
proof (relation "measure length", goal_cases)
  case (2 s t)
  then obtain c cs where t: "t = c # cs" "\<not> is_space c"
    by (metis dropWhile_eq_Cons_conv list.exhaust)
  have "length (dropWhile (\<lambda>c. \<not> is_space c) t) < length t"
    using t by (simp add: le_imp_less_Suc length_dropWhile_le)
  also have "length t \<le> length s" using 2 by (simp add: length_dropWhile_le)
  finally show ?case by simp
qed simp

declare Fields.simps [simp del]

fun Split_acc :: "char \<Rightarrow> string \<Rightarrow> string \<Rightarrow> string list" where
  "Split_acc sep acc [] = [rev acc]"
| "Split_acc sep acc (c # cs) = (if c = sep then rev acc # Split_acc sep [] cs else Split_acc sep (c # acc) cs)"

definition Split :: "char \<Rightarrow> string \<Rightarrow> string list" where
  "Split sep s = Split_acc sep [] s"

text \<open>\<^verbatim>\<open>strings.HasSuffix\<close>.\<close>

definition HasSuffix :: "string \<Rightarrow> string \<Rightarrow> bool" where
  "HasSuffix s t = (length t \<le> length s \<and> drop (length s - length t) s = t)"

section \<open>Hexadecimal\<close>

definition hexdigit :: "nat \<Rightarrow> char" where
  "hexdigit n = (''0123456789abcdef'' ! n)"

definition is_hex :: "char \<Rightarrow> bool" where
  "is_hex c = (let n = of_char c :: nat in (48 \<le> n \<and> n \<le> 57) \<or> (97 \<le> n \<and> n \<le> 102))"

definition hex_EncodeToString :: "bytes \<Rightarrow> string" where
  "hex_EncodeToString bs = concat (map (\<lambda>b. [hexdigit (unat b div 16), hexdigit (unat b mod 16)]) bs)"

text \<open>Decimal numbers, \<^verbatim>\<open>%d\<close> and \<^verbatim>\<open>%016d\<close>.\<close>

fun itoa_acc :: "nat \<Rightarrow> nat \<Rightarrow> string \<Rightarrow> string" where
  "itoa_acc 0 n acc = acc"
| "itoa_acc (Suc k) n acc =
     (let acc' = hexdigit (n mod 10) # acc in if n div 10 = 0 then acc' else itoa_acc k (n div 10) acc')"

definition itoa :: "nat \<Rightarrow> string" where
  "itoa n = itoa_acc (Suc n) n []"

definition pad16 :: "nat \<Rightarrow> string" where
  "pad16 n = (let s = itoa n in replicate (16 - length s) (CHR ''0'') @ s)"

end
