(* ===== verification/Flat.thy ===== *)
theory Flat
  imports Memtable Text
begin

text \<open>
  The flat latest-state cache of \<^verbatim>\<open>src/store/flat.go\<close>, with the cache budgets of \<^verbatim>\<open>flat.go\<close> and
  \<^verbatim>\<open>jumpdest.go\<close>.  The cache answers at one height only; what it may answer is specified by a function
  \<open>T\<close> from heights to the latest state rows, and the theorems show that every operation keeps the
  cache's answers inside \<open>T\<close> and its accounted bytes inside the budget.
\<close>

section \<open>Budgets\<close>

text \<open>The file \<^verbatim>\<open>memory.max\<close> as read: \<open>None\<close> when it cannot be read.\<close>

definition containerMemoryLimit :: "string option \<Rightarrow> u64 option" where
  "containerMemoryLimit file =
     (case file of
        None \<Rightarrow> None
      | Some b \<Rightarrow>
          let s = TrimSpace b in
          if s = ''max'' then None
          else case ParseUint s of None \<Rightarrow> None | Some n \<Rightarrow> if n = 0 then None else Some n)"

definition flatCacheShare :: u64 where "flatCacheShare = 8"
definition flatCacheNoContainer :: u64 where "flatCacheNoContainer = 2 ^ 30"

text \<open>An environment variable that is unset reads as the empty string; the \<^verbatim>\<open>why\<close> texts are left out.\<close>

definition flatCacheBytes :: "string \<Rightarrow> string option \<Rightarrow> u64 res" where
  "flatCacheBytes env file =
     (if env \<noteq> '''' then
        (case ParseUint env of None \<Rightarrow> Inl (Errorf ''EPOCHDB_FLAT_CACHE'') | Some n \<Rightarrow> if n = 0 then Inr 0 else Inr n)
      else case containerMemoryLimit file of
        Some limit \<Rightarrow> Inr (limit div flatCacheShare)
      | None \<Rightarrow> Inr flatCacheNoContainer)"

definition codeCacheShare :: u64 where "codeCacheShare = 10"

definition codeCacheBytes :: "string \<Rightarrow> u64 \<Rightarrow> u64 res" where
  "codeCacheBytes env flat =
     (if env \<noteq> '''' then
        (case ParseUint env of None \<Rightarrow> Inl (Errorf ''EPOCHDB_CODE_CACHE'') | Some n \<Rightarrow> if n = 0 then Inr 0 else Inr n)
      else Inr (flat div codeCacheShare))"

definition jumpDestShare :: u64 where "jumpDestShare = 8"

definition jumpDestCacheBytes :: "string \<Rightarrow> u64 \<Rightarrow> u64 res" where
  "jumpDestCacheBytes env code =
     (if env \<noteq> '''' then
        (case ParseUint env of None \<Rightarrow> Inl (Errorf ''EPOCHDB_JUMPDEST_CACHE'') | Some n \<Rightarrow> if n = 0 then Inr 0 else Inr n)
      else Inr (code div jumpDestShare))"

section \<open>The cache\<close>

record flatVal =
  fv_val :: bytes
  fv_found :: bool

record flatCache =
  budget :: u64
  half :: u64
  hot :: "(bytes \<times> flatVal) list"
  cold :: "(bytes \<times> flatVal) list"
  fbytes :: u64
  fheight :: u64
  fset :: bool

definition flatEntryOverhead :: nat where "flatEntryOverhead = 64"

definition flatEntryBytes :: "bytes \<Rightarrow> flatVal \<Rightarrow> u64" where
  "flatEntryBytes k v = of_nat (length k + length (fv_val v) + flatEntryOverhead)"

definition newFlatCache :: "u64 \<Rightarrow> flatCache" where
  "newFlatCache b = \<lparr>budget = b, half = b div 2, hot = [], cold = [], fbytes = 0, fheight = 0, fset = False\<rparr>"

definition adopt :: "u64 \<Rightarrow> flatCache \<Rightarrow> flatCache" where
  "adopt h c = (if budget c = 0 then c else c\<lparr>fheight := h, fset := True\<rparr>)"

text \<open>\<open>flat_get\<close> returns \<open>Some\<close> on a hit.\<close>

definition flat_get :: "bytes \<Rightarrow> u64 \<Rightarrow> flatCache \<Rightarrow> flatVal option" where
  "flat_get k h c =
     (if budget c = 0 then None
      else if \<not> fset c \<or> fheight c \<noteq> h then None
      else case map_of (hot c) k of
        Some e \<Rightarrow> Some e
      | None \<Rightarrow> map_of (cold c) k)"

definition flat_put :: "bytes \<Rightarrow> flatVal \<Rightarrow> flatCache \<Rightarrow> flatCache" where
  "flat_put k v c =
     (let b0 = (case map_of (hot c) k of None \<Rightarrow> fbytes c | Some old \<Rightarrow> fbytes c - flatEntryBytes k old);
          h = AList.update k v (hot c);
          b = b0 + flatEntryBytes k v
      in if b > half c then c\<lparr>cold := h, hot := [], fbytes := 0\<rparr> else c\<lparr>hot := h, fbytes := b\<rparr>)"

definition fill :: "bytes \<Rightarrow> bytes \<Rightarrow> bool \<Rightarrow> u64 \<Rightarrow> flatCache \<Rightarrow> flatCache" where
  "fill k val found h c =
     (if budget c = 0 then c
      else if \<not> fset c \<or> fheight c \<noteq> h then c
      else flat_put k \<lparr>fv_val = val, fv_found = found\<rparr> c)"

definition putRow :: "StateRow \<Rightarrow> flatCache \<Rightarrow> flatCache" where
  "putRow r c = flat_put (stateKeyPrefix r) \<lparr>fv_val = Val r, fv_found = True\<rparr> c"

definition flat_apply :: "BlockWrite \<Rightarrow> flatCache \<Rightarrow> flatCache" where
  "flat_apply b c =
     (if budget c = 0 then c
      else
        let c = (if fset c \<and> Height b \<noteq> fheight c + 1 then c\<lparr>hot := [], cold := [], fbytes := 0\<rparr> else c);
            c = fold (\<lambda>t. fold putRow (TxState t)) (Txs b) c;
            c = fold putRow (Tail b) c
        in c\<lparr>fheight := Height b, fset := True\<rparr>)"

section \<open>The answers are right\<close>

text \<open>The rows a block writes, in order, and the state after them.\<close>

definition blockStateRows :: "BlockWrite \<Rightarrow> StateRow list" where
  "blockStateRows b = concat (map TxState (Txs b)) @ Tail b"

definition write_row :: "StateRow \<Rightarrow> (bytes \<rightharpoonup> bytes) \<Rightarrow> (bytes \<rightharpoonup> bytes)" where
  "write_row r S = S(stateKeyPrefix r \<mapsto> Val r)"

definition represents :: "(bytes \<rightharpoonup> bytes) \<Rightarrow> bytes \<Rightarrow> flatVal \<Rightarrow> bool" where
  "represents S k v = (if fv_found v then S k = Some (fv_val v) else S k = None)"

definition lookup :: "bytes \<Rightarrow> flatCache \<Rightarrow> flatVal option" where
  "lookup k c = (case map_of (hot c) k of Some e \<Rightarrow> Some e | None \<Rightarrow> map_of (cold c) k)"

definition holds :: "(bytes \<rightharpoonup> bytes) \<Rightarrow> flatCache \<Rightarrow> bool" where
  "holds S c = (\<forall>k v. lookup k c = Some v \<longrightarrow> represents S k v)"

text \<open>\<open>T h\<close> is the latest state after block \<open>h\<close>.\<close>

definition flat_ok :: "(u64 \<Rightarrow> bytes \<rightharpoonup> bytes) \<Rightarrow> flatCache \<Rightarrow> bool" where
  "flat_ok T c = (if fset c then holds (T (fheight c)) c else hot c = [] \<and> cold c = [])"

lemma put_lookup:
  "lookup k' (flat_put k v c) = Some e \<Longrightarrow> if k' = k then e = v else lookup k' c = Some e"
  by (auto simp: lookup_def flat_put_def Let_def update_conv' split: if_splits option.splits)

lemma holds_put:
  assumes "holds S c" and "represents S' k v" and "\<And>k'. k' \<noteq> k \<Longrightarrow> S' k' = S k'"
  shows "holds S' (flat_put k v c)"
  unfolding holds_def
proof (intro allI impI)
  fix k' e
  assume l: "lookup k' (flat_put k v c) = Some e"
  show "represents S' k' e"
    using put_lookup [OF l] assms by (cases "k' = k") (auto simp: represents_def holds_def)
qed

lemma holds_putRow: "holds S c \<Longrightarrow> holds (write_row r S) (putRow r c)"
  unfolding putRow_def by (erule holds_put) (auto simp: represents_def write_row_def)

lemma lookup_frame [simp]: "lookup k (c\<lparr>fheight := h, fset := x\<rparr>) = lookup k c"
  by (cases "map_of (hot c) k") (simp_all add: lookup_def)

lemma holds_frame [simp]: "holds S (c\<lparr>fheight := h, fset := x\<rparr>) = holds S c"
  by (simp add: holds_def)

lemma holds_fold: "holds S c \<Longrightarrow> holds (fold write_row rs S) (fold putRow rs c)"
  by (induction rs arbitrary: S c) (auto intro: holds_putRow)

lemma fold_txs: "fold (\<lambda>t. fold putRow (TxState t)) ts c = fold putRow (concat (map TxState ts)) c"
  by (induction ts arbitrary: c) simp_all

lemma flat_put_frame [simp]:
  "fset (flat_put k v c) = fset c" "fheight (flat_put k v c) = fheight c"
  "budget (flat_put k v c) = budget c" "half (flat_put k v c) = half c"
  by (simp_all add: flat_put_def Let_def)

lemma apply_ok:
  assumes T: "T (Height b) = fold write_row (blockStateRows b) (T (Height b - 1))" and ok: "flat_ok T c"
  shows "flat_ok T (flat_apply b c)"
proof (cases "budget c = 0")
  case True
  then show ?thesis using ok by (simp add: flat_apply_def)
next
  case False
  define c' where "c' = (if fset c \<and> Height b \<noteq> fheight c + 1 then c\<lparr>hot := [], cold := [], fbytes := 0\<rparr> else c)"
  have "holds (T (Height b - 1)) c'"
    using ok by (auto simp: c'_def flat_ok_def holds_def lookup_def split: if_splits)
  then have "holds (T (Height b)) (fold putRow (blockStateRows b) c')"
    using T holds_fold by simp
  moreover have "flat_apply b c = (fold putRow (blockStateRows b) c')\<lparr>fheight := Height b, fset := True\<rparr>"
    using False unfolding flat_apply_def Let_def fold_txs blockStateRows_def c'_def by simp
  ultimately show ?thesis by (simp add: flat_ok_def)
qed

lemma fill_ok:
  assumes ok: "flat_ok T c" and r: "if found then T h k = Some val else T h k = None"
  shows "flat_ok T (fill k val found h c)"
proof (cases "budget c = 0 \<or> \<not> fset c \<or> fheight c \<noteq> h")
  case True
  then show ?thesis using ok by (auto simp: fill_def)
next
  case False
  then have "holds (T h) c" using ok by (simp add: flat_ok_def)
  then have "holds (T h) (flat_put k \<lparr>fv_val = val, fv_found = found\<rparr> c)"
    by (rule holds_put) (use r in \<open>auto simp: represents_def split: if_splits\<close>)
  then show ?thesis using False by (simp add: fill_def flat_ok_def)
qed

section \<open>The bytes are bounded\<close>

definition entries :: "(bytes \<times> flatVal) list \<Rightarrow> nat" where
  "entries m = sum_list (map (\<lambda>(k, v). length k + length (fv_val v) + flatEntryOverhead) m)"

definition entry :: "bytes \<Rightarrow> flatVal \<Rightarrow> nat" where
  "entry k v = length k + length (fv_val v) + flatEntryOverhead"

lemma entries_update:
  "distinct (map fst m) \<Longrightarrow> entries (AList.update k v m) + (case map_of m k of None \<Rightarrow> 0 | Some old \<Rightarrow> entry k old)
     = entries m + entry k v"
proof (induction m)
  case (Cons p m)
  obtain k' v' where p: "p = (k', v')" by (cases p)
  show ?case
  proof (cases "k = k'")
    case True
    then have "map_of m k = None" using Cons.prems p by (simp add: map_of_eq_None_iff)
    with True p show ?thesis by (simp add: entries_def entry_def)
  next
    case False
    then show ?thesis using Cons p by (simp add: entries_def)
  qed
qed (simp add: entries_def entry_def)

lemma entries_member: "map_of m k = Some v \<Longrightarrow> entry k v \<le> entries m"
  by (induction m) (auto simp: entries_def entry_def split: if_splits)

definition flat_sized :: "nat \<Rightarrow> flatCache \<Rightarrow> bool" where
  "flat_sized M c = (distinct (map fst (hot c)) \<and> fbytes c = of_nat (entries (hot c)) \<and>
     entries (hot c) \<le> unat (half c) \<and> entries (cold c) \<le> unat (half c) + M)"

lemma put_sized:
  assumes sz: "flat_sized M c" and e: "entry k v \<le> M" and M: "unat (half c) + M < 2 ^ 64"
  shows "flat_sized M (flat_put k v c)"
proof -
  let ?old = "case map_of (hot c) k of None \<Rightarrow> 0 | Some old \<Rightarrow> entry k old"
  let ?h = "AList.update k v (hot c)"
  let ?b0 = "case map_of (hot c) k of None \<Rightarrow> fbytes c | Some old \<Rightarrow> fbytes c - flatEntryBytes k old"
  have d: "distinct (map fst (hot c))" and b: "fbytes c = of_nat (entries (hot c))" and le: "entries (hot c) \<le> unat (half c)"
    using sz by (simp_all add: flat_sized_def)
  have up: "entries ?h + ?old = entries (hot c) + entry k v" by (rule entries_update [OF d])
  have "?old \<le> entries (hot c)" by (auto split: option.split dest: entries_member)
  then have b0: "?b0 = of_nat (entries (hot c) - ?old)"
    by (auto simp: b flatEntryBytes_def entry_def of_nat_diff split: option.splits)
  have new: "entries ?h = entries (hot c) - ?old + entry k v" using up \<open>?old \<le> entries (hot c)\<close> by simp
  then have b1: "?b0 + flatEntryBytes k v = of_nat (entries ?h)"
    unfolding b0 by (simp add: flatEntryBytes_def entry_def)
  have lt: "entries ?h \<le> unat (half c) + M" using new le e by simp
  then have u: "unat (of_nat (entries ?h) :: u64) = entries ?h" using M by (simp add: unat_of_nat)
  have dh: "distinct (map fst ?h)" using d by (simp add: distinct_update)
  show ?thesis
  proof (cases "of_nat (entries ?h) > half c")
    case True
    then have "flat_put k v c = c\<lparr>cold := ?h, hot := [], fbytes := 0\<rparr>"
      unfolding flat_put_def Let_def b1 by simp
    then show ?thesis using lt by (simp add: flat_sized_def entries_def)
  next
    case False
    then have "flat_put k v c = c\<lparr>hot := ?h, fbytes := of_nat (entries ?h)\<rparr>"
      unfolding flat_put_def Let_def b1 by simp
    moreover have "entries ?h \<le> unat (half c)" using False u by (simp add: word_less_nat_alt)
    ultimately show ?thesis using dh sz by (simp add: flat_sized_def)
  qed
qed

lemma fold_putRow_frame [simp]:
  "half (fold putRow rs c) = half c" "budget (fold putRow rs c) = budget c"
  by (induction rs arbitrary: c) (simp_all add: putRow_def)

definition row_entry :: "StateRow \<Rightarrow> nat" where
  "row_entry r = length (stateKeyPrefix r) + length (Val r) + flatEntryOverhead"

lemma fold_sized:
  "flat_sized M c \<Longrightarrow> list_all (\<lambda>r. row_entry r \<le> M) rs \<Longrightarrow> unat (half c) + M < 2 ^ 64 \<Longrightarrow> flat_sized M (fold putRow rs c)"
proof (induction rs arbitrary: c)
  case (Cons r rs)
  have "flat_sized M (putRow r c)"
    using Cons.prems by (simp add: putRow_def row_entry_def put_sized entry_def)
  then show ?case using Cons.IH [of "putRow r c"] Cons.prems by (simp add: putRow_def)
qed simp

lemma apply_sized:
  assumes "flat_sized M c" and "list_all (\<lambda>r. row_entry r \<le> M) (blockStateRows b)" and "unat (half c) + M < 2 ^ 64"
  shows "flat_sized M (flat_apply b c)"
proof (cases "budget c = 0")
  case True
  then show ?thesis using assms(1) by (simp add: flat_apply_def)
next
  case False
  define c' where "c' = (if fset c \<and> Height b \<noteq> fheight c + 1 then c\<lparr>hot := [], cold := [], fbytes := 0\<rparr> else c)"
  have "flat_sized M c'" using assms(1) by (simp add: c'_def flat_sized_def entries_def)
  then have "flat_sized M (fold putRow (blockStateRows b) c')"
    using assms(2,3) by (intro fold_sized) (simp_all add: c'_def)
  moreover have "flat_apply b c = (fold putRow (blockStateRows b) c')\<lparr>fheight := Height b, fset := True\<rparr>"
    using False unfolding flat_apply_def Let_def fold_txs blockStateRows_def c'_def by simp
  ultimately show ?thesis by (simp add: flat_sized_def)
qed

section \<open>Every reachable cache\<close>

text \<open>
  The life of a cache over a chain whose latest state after block \<open>h\<close> is \<open>T h\<close>: it is created,
  adopts the head it was opened at, applies blocks (in any order: a walk-back re-applies old ones) and
  is filled with rows read at some height.
\<close>

inductive flat_reach :: "(u64 \<Rightarrow> bytes \<rightharpoonup> bytes) \<Rightarrow> nat \<Rightarrow> flatCache \<Rightarrow> bool"
  for T :: "u64 \<Rightarrow> bytes \<rightharpoonup> bytes" and M :: nat where
  created: "unat (b div 2) + M < 2 ^ 64 \<Longrightarrow> flat_reach T M (newFlatCache b)"
| adopted: "unat (b div 2) + M < 2 ^ 64 \<Longrightarrow> flat_reach T M (adopt h (newFlatCache b))"
| applied: "flat_reach T M c \<Longrightarrow> T (Height b) = fold write_row (blockStateRows b) (T (Height b - 1)) \<Longrightarrow>
    list_all (\<lambda>r. row_entry r \<le> M) (blockStateRows b) \<Longrightarrow> flat_reach T M (flat_apply b c)"
| filled: "flat_reach T M c \<Longrightarrow> (if found then T h k = Some val else T h k = None) \<Longrightarrow>
    length k + length val + flatEntryOverhead \<le> M \<Longrightarrow> flat_reach T M (fill k val found h c)"

lemma flat_reach_inv:
  "flat_reach T M c \<Longrightarrow> flat_ok T c \<and> flat_sized M c \<and> unat (half c) + M < 2 ^ 64"
proof (induction rule: flat_reach.induct)
  case (created b)
  then show ?case by (simp add: flat_ok_def flat_sized_def newFlatCache_def entries_def)
next
  case (adopted b h)
  then show ?case
    by (auto simp: adopt_def flat_ok_def flat_sized_def newFlatCache_def entries_def holds_def lookup_def)
next
  case (applied c b)
  moreover have "half (flat_apply b c) = half c"
    by (simp add: flat_apply_def Let_def fold_txs flip: fold_append)
  ultimately show ?case using apply_ok [of T b c] apply_sized [of M c b] by simp
next
  case (filled c found h k val)
  moreover have "half (fill k val found h c) = half c" by (simp add: fill_def)
  moreover have "flat_sized M (fill k val found h c)"
    using filled put_sized [of M c k "\<lparr>fv_val = val, fv_found = found\<rparr>"] by (simp add: fill_def entry_def)
  ultimately show ?case using fill_ok [of T c found h k val] by simp
qed


definition sample_row :: StateRow where
  "sample_row = \<lparr>Kind = of_char (CHR ''a''), Addr = [5], Slot = [], Val = [9]\<rparr>"

definition sample_apply :: BlockWrite where
  "sample_apply = \<lparr>Height = 1, HeaderRLP = [], Pvm = [], Txs = [], Code = [], Tail = [sample_row]\<rparr>"

definition sample_T :: "u64 \<Rightarrow> bytes \<rightharpoonup> bytes" where
  "sample_T h = (if h = 1 then Map.empty(stateKeyPrefix sample_row \<mapsto> [9]) else Map.empty)"

lemma sample_flat_reach: "flat_reach sample_T 200 (flat_apply sample_apply (adopt 0 (newFlatCache 4096)))"
  by (intro flat_reach.applied flat_reach.adopted)
    (simp_all add: sample_apply_def sample_T_def blockStateRows_def write_row_def row_entry_def sample_row_def
      flatEntryOverhead_def stateKeyPrefix_def AccountPrefix_def unat_div)


end
