(* ===== verification/FetchQueue.thy ===== *)
theory FetchQueue
  imports Prelude "HOL-Library.AList"
begin

text \<open>
  The RAM queue between the fetcher and the executor, \<^verbatim>\<open>src/fetch/window.go\<close>: \<open>Append\<close> with its
  forward verification, \<open>GetByHeight\<close> and the release of executed containers.  The invariant relates
  the queue to the list of all containers it ever accepted: they are consecutive, hash-linked from the
  anchor, and the queue holds exactly a suffix of them.
\<close>

section \<open>The queue\<close>

type_synonym ID = bytes

definition EmptyID :: ID where "EmptyID = replicate 32 0"

record parsedContainer =
  containerID :: ID
  blockNumber :: u64
  blockHash :: ID
  parentID :: ID
  parentHash :: ID
  blockTime :: u64

record Queue =
  blk :: "(u64 \<times> bytes) list"
  head :: u64
  headHash :: ID
  low :: u64
  consumed :: u64
  qbytes :: u64
  peak :: u64
  closed :: bool

definition KeepBehind :: u64 where "KeepBehind = 8192"

definition newQueue :: "u64 \<Rightarrow> ID \<Rightarrow> Queue" where
  "newQueue from anchorHash = \<lparr>blk = [], head = from - 1, headHash = anchorHash, low = from,
     consumed = from - 1, qbytes = 0, peak = 0, closed = False\<rparr>"

definition Append :: "parsedContainer \<Rightarrow> bytes \<Rightarrow> Queue \<Rightarrow> Queue \<times> bool" where
  "Append p raw q =
     (if blockNumber p \<noteq> head q + 1 \<or> parentHash p \<noteq> headHash q then (q, False)
      else
        let b = qbytes q + of_nat (length raw) in
        (q\<lparr>blk := AList.update (blockNumber p) raw (blk q), head := blockNumber p, headHash := blockHash p,
           qbytes := b, peak := (if b > peak q then b else peak q)\<rparr>, True))"

definition release_one :: "Queue \<Rightarrow> Queue" where
  "release_one q =
     (case map_of (blk q) (low q) of
        None \<Rightarrow> q\<lparr>low := low q + 1\<rparr>
      | Some raw \<Rightarrow> q\<lparr>qbytes := qbytes q - of_nat (length raw), blk := AList.delete (low q) (blk q), low := low q + 1\<rparr>)"

text \<open>The loop does not end for \<open>upTo = 2^64 - 1\<close>, where the sum in its condition always wraps below.\<close>

partial_function (option) release_loop :: "u64 \<Rightarrow> Queue \<Rightarrow> Queue option" where
  [code]: "release_loop upTo q =
     (if low q + KeepBehind \<le> upTo then release_loop upTo (release_one q) else Some q)"

definition release :: "u64 \<Rightarrow> Queue \<Rightarrow> Queue option" where
  "release upTo q = (if upTo < KeepBehind then Some q else release_loop upTo q)"

text \<open>
  One pass of the loop in \<open>GetByHeight\<close>: a container, an error, or \<open>Wait\<close>, after which the loop runs
  again on the queue another goroutine left.
\<close>

datatype getResult = Got bytes | Released | Canceled | Wait

definition GetByHeight :: "u64 \<Rightarrow> Queue \<Rightarrow> (Queue \<times> getResult) option" where
  "GetByHeight n q =
     (case map_of (blk q) n of
        Some raw \<Rightarrow>
          (if n > consumed q then map_option (\<lambda>q'. (q', Got raw)) (release n (q\<lparr>consumed := n\<rparr>))
           else Some (q, Got raw))
      | None \<Rightarrow>
          if n < low q then Some (q, Released)
          else if closed q then Some (q, Canceled)
          else Some (q, Wait))"

definition close_queue :: "Queue \<Rightarrow> Queue" where
  "close_queue q = q\<lparr>closed := True\<rparr>"

section \<open>The containers a queue has accepted\<close>

text \<open>\<open>linked a ps\<close>: every container names the hash of the one before it, the first one the anchor.\<close>

fun linked :: "ID \<Rightarrow> parsedContainer list \<Rightarrow> bool" where
  "linked a [] = True"
| "linked a (p # ps) = (parentHash p = a \<and> linked (blockHash p) ps)"

fun last_hash :: "ID \<Rightarrow> parsedContainer list \<Rightarrow> ID" where
  "last_hash a [] = a"
| "last_hash a (p # ps) = last_hash (blockHash p) ps"

text \<open>
  \<open>queue_inv from a hist q\<close>: \<open>hist\<close> is what was appended since the queue started at \<open>from\<close>, and the
  queue holds the raw bytes of the heights from \<open>low\<close> to \<open>head\<close>, at least the last \<open>KeepBehind\<close> below
  the consumer's cursor.
\<close>

definition held :: "nat \<Rightarrow> (parsedContainer \<times> bytes) list \<Rightarrow> nat \<Rightarrow> nat \<Rightarrow> bytes option" where
  "held from hist lo n = (if lo \<le> n \<and> n < from + length hist then Some (snd (hist ! (n - from))) else None)"

definition queue_inv :: "nat \<Rightarrow> ID \<Rightarrow> (parsedContainer \<times> bytes) list \<Rightarrow> Queue \<Rightarrow> bool" where
  "queue_inv from a hist q = (
     0 < from \<and> from + length hist < 2 ^ 63 \<and>
     linked a (map fst hist) \<and> headHash q = last_hash a (map fst hist) \<and>
     (\<forall>i < length hist. unat (blockNumber (fst (hist ! i))) = from + i) \<and>
     unat (head q) = from + length hist - 1 \<and>
     from \<le> unat (low q) \<and> unat (low q) \<le> from + length hist \<and>
     from \<le> unat (consumed q) + 1 \<and> unat (consumed q) < from + length hist \<and>
     (unat (low q) = from \<or> unat (low q) + 8192 \<le> unat (consumed q) + 1) \<and>
     (\<forall>n. map_of (blk q) n = held from hist (unat (low q)) (unat n)) \<and>
     qbytes q = of_nat (sum_list (map (length \<circ> snd) (drop (unat (low q) - from) hist))))"

lemma linked_snoc: "linked a (ps @ [p]) \<longleftrightarrow> linked a ps \<and> parentHash p = last_hash a ps"
  by (induction ps arbitrary: a) auto

lemma last_hash_snoc: "last_hash a (ps @ [p]) = blockHash p"
  by (induction ps arbitrary: a) auto

lemma newQueue_inv:
  assumes "0 < unat from" and "unat from < 2 ^ 63"
  shows "queue_inv (unat from) a [] (newQueue from a)"
proof -
  have "unat (from - 1) = unat from - 1" using assms(1) by (simp add: unat_minus_one unat_gt_0)
  then show ?thesis using assms by (simp add: queue_inv_def newQueue_def held_def)
qed

lemma Append_inv:
  assumes inv: "queue_inv from a hist q" and ap: "Append p raw q = (q', True)"
    and len: "from + length hist + 1 < 2 ^ 63"
  shows "queue_inv from a (hist @ [(p, raw)]) q'"
proof -
  have c: "blockNumber p = head q + 1" "parentHash p = headHash q"
    and q': "q' = q\<lparr>blk := AList.update (blockNumber p) raw (blk q), head := blockNumber p, headHash := blockHash p,
      qbytes := qbytes q + of_nat (length raw),
      peak := (if qbytes q + of_nat (length raw) > peak q then qbytes q + of_nat (length raw) else peak q)\<rparr>"
    using ap by (auto simp: Append_def Let_def split: if_splits)
  have hd: "unat (head q) = from + length hist - 1" and f: "0 < from" using inv by (simp_all add: queue_inv_def)
  have "unat (head q + 1) = unat (head q) + 1"
    using unat_add_of_nat [of "head q" 1] hd len by simp
  then have bn: "unat (blockNumber p) = from + length hist" using c(1) hd f by simp
  have "map_of (AList.update (blockNumber p) raw (blk q)) n = held from (hist @ [(p, raw)]) (unat (low q)) (unat n)" for n
  proof (cases "n = blockNumber p")
    case True
    then show ?thesis using bn inv by (simp add: update_conv' held_def queue_inv_def)
  next
    case False
    then have "unat n \<noteq> from + length hist" using bn by (metis word_unat_eq_iff)
    then show ?thesis using inv False by (auto simp: update_conv' held_def queue_inv_def nth_append)
  qed
  then show ?thesis
    using inv bn c(2) len
    by (auto simp: queue_inv_def q' linked_snoc last_hash_snoc nth_append less_Suc_eq)
qed

lemma release_one_inv:
  assumes inv: "queue_inv from a hist q" and le: "unat (low q) + 8192 \<le> unat (consumed q)"
  shows "queue_inv from a hist (release_one q) \<and> unat (low (release_one q)) = unat (low q) + 1 \<and>
    consumed (release_one q) = consumed q"
proof -
  let ?k = "unat (low q) - from"
  have k: "from \<le> unat (low q)" "unat (low q) < from + length hist" "from + length hist < 2 ^ 63"
    using inv le by (auto simp: queue_inv_def)
  have l1: "unat (low q + 1) = unat (low q) + 1"
    using unat_add_of_nat [of "low q" 1] k by simp
  have raw: "map_of (blk q) (low q) = Some (snd (hist ! ?k))"
    using inv k by (simp add: queue_inv_def held_def)
  have q': "release_one q = q\<lparr>qbytes := qbytes q - of_nat (length (snd (hist ! ?k))), blk := AList.delete (low q) (blk q), low := low q + 1\<rparr>"
    by (simp add: release_one_def raw)
  have d: "drop ?k hist = hist ! ?k # drop (unat (low q) + 1 - from) hist"
    using k Cons_nth_drop_Suc [of ?k hist] by (simp add: Suc_diff_le)
  have "map_of (AList.delete (low q) (blk q)) n = held from hist (unat (low q) + 1) (unat n)" for n
  proof (cases "n = low q")
    case True
    then show ?thesis by (simp add: held_def delete_conv')
  next
    case False
    then have "unat n \<noteq> unat (low q)" by (metis word_unat_eq_iff)
    then show ?thesis using inv False by (auto simp: delete_conv' queue_inv_def held_def)
  qed
  then show ?thesis using inv le k l1 d by (auto simp: queue_inv_def q' algebra_simps)
qed

lemma release_loop_inv:
  assumes "queue_inv from a hist q"
  shows "\<exists>q'. release_loop (consumed q) q = Some q' \<and> queue_inv from a hist q' \<and> consumed q' = consumed q \<and>
    head q' = head q"
  using assms
proof (induction "unat (consumed q) - unat (low q)" arbitrary: q rule: less_induct)
  case less
  have b: "unat (low q) < 2 ^ 63 + 1" using less.prems by (simp add: queue_inv_def)
  have "unat (low q + KeepBehind) = unat (low q) + 8192"
    using unat_add_of_nat [of "low q" 8192] b by (simp add: KeepBehind_def)
  then have c: "low q + KeepBehind \<le> consumed q \<longleftrightarrow> unat (low q) + 8192 \<le> unat (consumed q)"
    by (simp add: word_le_nat_alt)
  show ?case
  proof (cases "low q + KeepBehind \<le> consumed q")
    case True
    note r = release_one_inv [OF less.prems, OF c [THEN iffD1, OF True]]
    have "unat (consumed (release_one q)) - unat (low (release_one q)) < unat (consumed q) - unat (low q)"
      using r True c by simp
    from less.hyps [OF this] r obtain q' where "release_loop (consumed q) (release_one q) = Some q'"
      "queue_inv from a hist q'" "consumed q' = consumed q" "head q' = head (release_one q)" by auto
    moreover have "head (release_one q) = head q" by (simp add: release_one_def split: option.split)
    ultimately show ?thesis using True by (subst release_loop.simps) auto
  next
    case False
    then show ?thesis using less.prems by (subst release_loop.simps) auto
  qed
qed

lemma GetByHeight_inv:
  assumes inv: "queue_inv from a hist q"
  shows "\<exists>q'. GetByHeight n q = Some (q', (case held from hist (unat (low q)) (unat n) of Some raw \<Rightarrow> Got raw
      | None \<Rightarrow> if n < low q then Released else if closed q then Canceled else Wait)) \<and> queue_inv from a hist q'"
proof (cases "map_of (blk q) n")
  case None
  then have "held from hist (unat (low q)) (unat n) = None" using inv by (simp add: queue_inv_def)
  then show ?thesis using None inv by (simp add: GetByHeight_def)
next
  case (Some raw)
  then have h: "held from hist (unat (low q)) (unat n) = Some raw" using inv by (simp add: queue_inv_def)
  show ?thesis
  proof (cases "n > consumed q")
    case True
    let ?q = "q\<lparr>consumed := n\<rparr>"
    have n: "unat n < from + length hist" using h by (simp add: held_def split: if_splits)
    have "unat (consumed q) < unat n" using True by (simp add: word_less_nat_alt)
    then have inv': "queue_inv from a hist ?q" using inv n by (auto simp: queue_inv_def)
    have "\<exists>q'. release n ?q = Some q' \<and> queue_inv from a hist q'"
      using release_loop_inv [OF inv'] inv' by (auto simp: release_def)
    then obtain q' where "release n ?q = Some q'" "queue_inv from a hist q'" by blast
    then show ?thesis using Some True h by (simp add: GetByHeight_def)
  next
    case False
    then show ?thesis using Some inv h by (simp add: GetByHeight_def)
  qed
qed

section \<open>Reachable queues\<close>

inductive queue_reach :: "u64 \<Rightarrow> ID \<Rightarrow> (parsedContainer \<times> bytes) list \<Rightarrow> Queue \<Rightarrow> bool" for "from" :: u64 and a :: ID where
  opened: "queue_reach from a [] (newQueue from a)"
| appended: "queue_reach from a hist q \<Longrightarrow> Append p raw q = (q', True) \<Longrightarrow> queue_reach from a (hist @ [(p, raw)]) q'"
| refused: "queue_reach from a hist q \<Longrightarrow> Append p raw q = (q', False) \<Longrightarrow> queue_reach from a hist q'"
| read: "queue_reach from a hist q \<Longrightarrow> GetByHeight n q = Some (q', r) \<Longrightarrow> queue_reach from a hist q'"
| ended: "queue_reach from a hist q \<Longrightarrow> queue_reach from a hist (close_queue q)"

lemma queue_reach_inv:
  assumes "queue_reach from a hist q" and "0 < unat from" and "unat from + length hist < 2 ^ 63"
  shows "queue_inv (unat from) a hist q"
  using assms(1,3)
proof (induction rule: queue_reach.induct)
  case opened
  then show ?case using assms(2) by (simp add: newQueue_inv)
next
  case (appended hist q p raw q')
  then show ?case using Append_inv [of "unat from" a hist q p raw q'] by simp
next
  case (refused hist q p raw q')
  then show ?case by (auto simp: Append_def Let_def split: if_splits)
next
  case (read hist q n q' r)
  then show ?case by (metis GetByHeight_inv option.inject prod.inject)
next
  case (ended hist q)
  then show ?case by (simp add: close_queue_def queue_inv_def)
qed

text \<open>
  C8. Forward verification: in every reachable queue the accepted containers are consecutive from the
  starting height and hash-linked back to the anchor; a read of any height returns (it never hangs in
  the release loop), and it returns the accepted bytes of that height unless the height is more than
  \<open>KeepBehind\<close> below the consumer or not accepted yet.
\<close>

theorem queue_serves_linked_chain:
  assumes "queue_reach from a hist q" and "0 < unat from" and "unat from + length hist < 2 ^ 63"
  shows "linked a (map fst hist) \<and> (\<forall>i < length hist. unat (blockNumber (fst (hist ! i))) = unat from + i) \<and>
    (\<exists>q' r. GetByHeight n q = Some (q', r) \<and>
      (unat from \<le> unat n \<and> unat n < unat from + length hist \<and> unat (consumed q) < unat n + 8192 \<longrightarrow>
        r = Got (snd (hist ! (unat n - unat from)))) \<and>
      (\<forall>raw. r = Got raw \<longrightarrow> unat n < unat from + length hist \<and> raw = snd (hist ! (unat n - unat from))))"
proof -
  have inv: "queue_inv (unat from) a hist q" by (rule queue_reach_inv [OF assms])
  define r where "r = (case held (unat from) hist (unat (low q)) (unat n) of Some raw \<Rightarrow> Got raw
      | None \<Rightarrow> if n < low q then Released else if closed q then Canceled else Wait)"
  obtain q' where g: "GetByHeight n q = Some (q', r)"
    using GetByHeight_inv [OF inv, of n] unfolding r_def by blast
  have l: "linked a (map fst hist)" "\<forall>i < length hist. unat (blockNumber (fst (hist ! i))) = unat from + i"
    using inv by (simp_all add: queue_inv_def)
  have A: "r = Got (snd (hist ! (unat n - unat from)))"
    if "unat from \<le> unat n" "unat n < unat from + length hist" "unat (consumed q) < unat n + 8192"
    using inv that by (auto simp: r_def queue_inv_def held_def)
  have B: "unat n < unat from + length hist \<and> raw = snd (hist ! (unat n - unat from))" if "r = Got raw" for raw
    using that by (auto simp: r_def held_def split: if_splits)
  show ?thesis
    by (intro conjI l exI [of _ q'] exI [of _ r] g impI allI) (use A B in simp_all)
qed

definition sample_container :: "u64 \<Rightarrow> parsedContainer" where
  "sample_container n = \<lparr>containerID = [ucast n], blockNumber = n, blockHash = [ucast n], parentID = [ucast (n - 1)],
     parentHash = [ucast (n - 1)], blockTime = 0\<rparr>"

lemma sample_queue_reach:
  "queue_reach 1 [0] [(sample_container 1, [7])] (fst (Append (sample_container 1) [7] (newQueue 1 [0])))"
  using queue_reach.appended [OF queue_reach.opened, of "sample_container 1" "[7]" 1 "[0]"
      "fst (Append (sample_container 1) [7] (newQueue 1 [0]))"]
  by (simp add: Append_def newQueue_def sample_container_def Let_def)

theorem queue_serves_linked_chain_witness:
  "linked [0] [sample_container 1] \<and>
    (\<exists>q' r. GetByHeight 1 (fst (Append (sample_container 1) [7] (newQueue 1 [0]))) = Some (q', r) \<and> r = Got [7])"
proof -
  have "consumed (fst (Append (sample_container 1) [7] (newQueue 1 [0]))) = 0"
    by (simp add: Append_def newQueue_def sample_container_def Let_def)
  then show ?thesis using queue_serves_linked_chain [OF sample_queue_reach, of 1] by simp
qed

end
