(* ===== verification/Forward.thy ===== *)
theory Forward
  imports FetchQueue "HOL-Library.Multiset"
begin

text \<open>
  The forward fetch, \<^verbatim>\<open>src/fetch/window.go\<close> and \<^verbatim>\<open>src/fetch/parse.go\<close>: the parser of a container,
  the walk down an ancestors chain that fetches one span, the vote count that seeds it, and the
  scheduler loop with its outstanding spans.  The ProposerVM codec and RLP are the fields of
  \<open>parse_lib\<close>; the answers of the network are arguments.
\<close>

section \<open>Containers\<close>

record 'blk parse_lib =
  proposerBlk :: "bytes \<Rightarrow> (ID \<times> ID \<times> bytes) option"  \<comment> \<open>\<open>ParseWithoutVerification\<close>: \<open>ID\<close>, \<open>ParentID\<close>, \<open>Block\<close>\<close>
  splitRest :: "bytes \<Rightarrow> bytes option"                \<comment> \<open>the rest \<open>rlp.Split\<close> returns\<close>
  decodeEth :: "bytes \<Rightarrow> 'blk option"                 \<comment> \<open>\<open>rlp.DecodeBytes\<close> into a block\<close>
  NumberU64 :: "'blk \<Rightarrow> u64"
  ethHash :: "'blk \<Rightarrow> ID"
  ethParentHash :: "'blk \<Rightarrow> ID"
  ethTime :: "'blk \<Rightarrow> u64"

definition parseContainer :: "'blk parse_lib \<Rightarrow> bytes \<Rightarrow> parsedContainer res" where
  "parseContainer L raw =
     (if length raw = 0 then Inl EmptyContainer
      else
        case proposerBlk L raw of
          Some (bid, pid, b) \<Rightarrow>
            (case decodeEth L b of
               None \<Rightarrow> Inl InnerDecode
             | Some inner \<Rightarrow> Inr \<lparr>containerID = bid, blockNumber = NumberU64 L inner, blockHash = ethHash L inner,
                 parentID = pid, parentHash = ethParentHash L inner, blockTime = ethTime L inner\<rparr>)
        | None \<Rightarrow>
            (case splitRest L raw of
               None \<Rightarrow> Inl NotAnRlpItem
             | Some rest \<Rightarrow>
                 (case decodeEth L (take (length raw - length rest) raw) of
                    None \<Rightarrow> Inl InnerDecode
                  | Some inner \<Rightarrow> Inr \<lparr>containerID = ethHash L inner, blockNumber = NumberU64 L inner,
                      blockHash = ethHash L inner, parentID = ethParentHash L inner,
                      parentHash = ethParentHash L inner, blockTime = ethTime L inner\<rparr>)))"

section \<open>The known tip\<close>

definition tipTarget :: "u64 \<Rightarrow> u64 \<Rightarrow> u64" where
  "tipTarget tip ceiling = (if ceiling > 0 \<and> (tip = 0 \<or> ceiling < tip) then ceiling else tip)"

definition noteTip :: "u64 \<Rightarrow> u64 \<Rightarrow> u64" where
  "noteTip h cur = (if h \<le> cur then cur else h)"

section \<open>Spans\<close>

definition WindowBlocks :: u64 where "WindowBlocks = 100000"
definition RefillBelow :: u64 where "RefillBelow = 50000"
definition queueMaxBytes :: u64 where "queueMaxBytes = 1073741824"
definition spanBlocks :: u64 where "spanBlocks = 4096"
definition fetchSpans :: nat where "fetchSpans = 16"

record span =
  lo :: u64
  hi :: u64

record rawBlock =
  rb_p :: parsedContainer
  rb_raw :: bytes

record spanResult =
  sr_span :: span
  sr_blocks :: "rawBlock list"

text \<open>The \<open>pending\<close> map is keyed by the floor of the results it holds, so it is the list of them.\<close>

definition pend_set :: "spanResult \<Rightarrow> spanResult list \<Rightarrow> spanResult list" where
  "pend_set r ps = filter (\<lambda>r'. lo (sr_span r') \<noteq> lo (sr_span r)) ps @ [r]"

definition pend_delete :: "u64 \<Rightarrow> spanResult list \<Rightarrow> spanResult list" where
  "pend_delete l ps = filter (\<lambda>r'. lo (sr_span r') \<noteq> l) ps"

definition spanned :: "spanResult list \<Rightarrow> u64 \<Rightarrow> spanResult list \<times> spanResult option" where
  "spanned ps want =
     (filter (\<lambda>r. \<not> hi (sr_span r) < want) ps,
      find (\<lambda>r. \<not> hi (sr_span r) < want \<and> lo (sr_span r) \<le> want) (rev ps))"

fun joinBlocks :: "rawBlock list \<Rightarrow> Queue \<Rightarrow> Queue \<times> u64 option" where
  "joinBlocks [] q = (q, None)"
| "joinBlocks (b # bs) q =
     (if blockNumber (rb_p b) \<le> head q then joinBlocks bs q
      else case Append (rb_p b) (rb_raw b) q of
        (q', True) \<Rightarrow> joinBlocks bs q'
      | (q', False) \<Rightarrow> (q', Some (blockNumber (rb_p b))))"

definition joinSpan :: "spanResult \<Rightarrow> Queue \<Rightarrow> Queue \<times> u64 option" where
  "joinSpan r q = joinBlocks (sr_blocks r) q"

section \<open>Fetching one span\<close>

text \<open>
  One ancestors batch: the containers that continue the walk, newest first, the container it asks for
  next, and whether it reached the floor.
\<close>

fun walkBatch :: "(bytes \<Rightarrow> parsedContainer res) \<Rightarrow> u64 \<Rightarrow> bytes list \<Rightarrow> ID \<Rightarrow> rawBlock list \<Rightarrow> rawBlock list \<times> ID \<times> bool" where
  "walkBatch parse floor [] cur blocks = (blocks, cur, False)"
| "walkBatch parse floor (raw # raws) cur blocks =
     (case parse raw of
        Inl e \<Rightarrow> (blocks, cur, False)
      | Inr p \<Rightarrow>
          if containerID p \<noteq> cur then (blocks, cur, False)
          else if blockNumber p \<le> floor then (blocks @ [\<lparr>rb_p = p, rb_raw = raw\<rparr>], parentID p, True)
          else walkBatch parse floor raws (parentID p) (blocks @ [\<lparr>rb_p = p, rb_raw = raw\<rparr>]))"

text \<open>\<open>batches\<close> are the batches the peers answer with; \<open>None\<close> when the context ends before the floor is reached.\<close>

fun walkDown :: "(bytes \<Rightarrow> parsedContainer res) \<Rightarrow> u64 \<Rightarrow> bytes list \<Rightarrow> bytes list list \<Rightarrow> ID \<Rightarrow> rawBlock list \<Rightarrow> rawBlock list option" where
  "walkDown parse floor resp batches cur blocks =
     (case walkBatch parse floor resp cur blocks of
        (blocks', cur', True) \<Rightarrow> Some blocks'
      | (blocks', cur', False) \<Rightarrow>
          (case batches of [] \<Rightarrow> None | resp' # rest' \<Rightarrow> walkDown parse floor resp' rest' cur' blocks'))"

definition fetchSpan :: "(bytes \<Rightarrow> parsedContainer res) \<Rightarrow> (bytes list \<times> ID) option \<Rightarrow> bytes list list \<Rightarrow> span \<Rightarrow> spanResult option" where
  "fetchSpan parse seed batches s =
     (case seed of
        None \<Rightarrow> None
      | Some (resp, cur) \<Rightarrow>
          (case walkDown parse (lo s) resp batches cur [] of
             None \<Rightarrow> None
           | Some blocks \<Rightarrow> Some \<lparr>sr_span = s, sr_blocks = filter (\<lambda>b. lo s \<le> blockNumber (rb_p b)) (rev blocks)\<rparr>))"

text \<open>
  A poll round gives candidates, each with the ancestors answer its request got (\<open>None\<close>: the context
  ended); the seed is the first whose newest container is at the wanted height.  An empty answer would
  be an index panic; \<open>fetchAncestors\<close> only returns non-empty ones.
\<close>

fun seedRound :: "(bytes \<Rightarrow> parsedContainer res) \<Rightarrow> u64 \<Rightarrow> (ID \<times> bytes list option) list \<Rightarrow> (bytes list \<times> ID) option option res" where
  "seedRound parse h [] = Inr None"
| "seedRound parse h ((cid, ans) # cs) =
     (case ans of
        None \<Rightarrow> Inr (Some None)
      | Some [] \<Rightarrow> Inl GoPanic
      | Some (raw # raws) \<Rightarrow>
          (case parse raw of
             Inl e \<Rightarrow> seedRound parse h cs
           | Inr p \<Rightarrow> if blockNumber p \<noteq> h then seedRound parse h cs else Inr (Some (Some (raw # raws, cid)))))"

fun seedSpan :: "(bytes \<Rightarrow> parsedContainer res) \<Rightarrow> u64 \<Rightarrow> (ID \<times> bytes list option) list list \<Rightarrow> (bytes list \<times> ID) option res" where
  "seedSpan parse h [] = Inr None"
| "seedSpan parse h (r # rs) =
     (case seedRound parse h r of
        Inl e \<Rightarrow> Inl e
      | Inr None \<Rightarrow> seedSpan parse h rs
      | Inr (Some res) \<Rightarrow> Inr res)"

section \<open>Polling a height\<close>

text \<open>The votes as they arrive: each candidate once, in arrival order.\<close>

fun tally :: "ID list \<Rightarrow> ID list \<Rightarrow> (ID \<times> nat) list \<Rightarrow> ID list \<times> (ID \<times> nat) list" where
  "tally [] order votes = (order, votes)"
| "tally (a # as) order votes =
     (if a = EmptyID then tally as order votes
      else
        let n = (case map_of votes a of None \<Rightarrow> 0 | Some k \<Rightarrow> k) in
        tally as (if n = 0 then order @ [a] else order) (AList.update a (n + 1) votes))"

definition votesOf :: "(ID \<times> nat) list \<Rightarrow> ID \<Rightarrow> nat" where
  "votesOf votes a = (case map_of votes a of None \<Rightarrow> 0 | Some k \<Rightarrow> k)"

fun sink :: "('a \<Rightarrow> nat) \<Rightarrow> nat \<Rightarrow> 'a list \<Rightarrow> 'a list" where
  "sink v 0 order = order"
| "sink v (Suc j) order =
     (if v (order ! Suc j) > v (order ! j)
      then sink v j (order[Suc j := order ! j, j := order ! Suc j])
      else order)"

definition rankVotes :: "('a \<Rightarrow> nat) \<Rightarrow> 'a list \<Rightarrow> 'a list" where
  "rankVotes v order = fold (sink v) [1..<length order] order"

text \<open>\<open>answers\<close> are the \<open>atHeight\<close> fields of the Chits that arrived before the timeout.\<close>

definition pollIDAt :: "ID list \<Rightarrow> ID list" where
  "pollIDAt answers = (case tally answers [] [] of (order, votes) \<Rightarrow> rankVotes (votesOf votes) order)"

definition discoverTip :: "(bytes \<Rightarrow> parsedContainer res) \<Rightarrow> bytes list option \<Rightarrow> u64 \<Rightarrow> u64 res" where
  "discoverTip parse ans tip =
     (case ans of
        None \<Rightarrow> Inr tip
      | Some [] \<Rightarrow> Inl GoPanic
      | Some (raw # _) \<Rightarrow> (case parse raw of Inl e \<Rightarrow> Inr tip | Inr p \<Rightarrow> Inr (noteTip (blockNumber p) tip)))"

definition ResolveAnchor :: "(bytes \<Rightarrow> parsedContainer res) \<Rightarrow> bytes list option \<Rightarrow> ID \<Rightarrow> (ID \<times> u64) res" where
  "ResolveAnchor parse ans cid =
     (case ans of
        None \<Rightarrow> Inl (Errorf ''resolve container'')
      | Some [] \<Rightarrow> Inl GoPanic
      | Some (raw # _) \<Rightarrow>
          (case parse raw of
             Inl e \<Rightarrow> Inl e
           | Inr p \<Rightarrow> if containerID p \<noteq> cid then Inl (Errorf ''peer served container'') else Inr (cid, blockNumber p)))"

section \<open>The scheduler\<close>

record fwd =
  fq :: Queue
  nextH :: u64
  redo :: "span list"
  pending :: "spanResult list"
  inflight :: "span list"     \<comment> \<open>the spans the workers hold; the source counts them\<close>
  filling :: bool
  outJob :: "span option"     \<comment> \<open>\<open>job\<close>, when \<open>out\<close> is not nil\<close>

definition newFwd :: "Queue \<Rightarrow> fwd" where
  "newFwd q = \<lparr>fq = q, nextH = head q + 1, redo = [], pending = [], inflight = [], filling = True, outJob = None\<rparr>"

lemma spanned_hit:
  assumes "spanned ps want = (ps', Some r)"
  shows "r \<in> set ps \<and> \<not> hi (sr_span r) < want \<and> lo (sr_span r) \<le> want"
    and "ps' = filter (\<lambda>r. \<not> hi (sr_span r) < want) ps"
  using assms find_SomeD [of "\<lambda>r. \<not> hi (sr_span r) < want \<and> lo (sr_span r) \<le> want" "rev ps" r]
  by (auto simp: spanned_def)

lemma pend_delete_shorter:
  assumes "spanned ps want = (ps', Some r)"
  shows "length (pend_delete (lo (sr_span r)) ps') < length ps"
proof -
  note h = spanned_hit [OF assms]
  have "length (pend_delete (lo (sr_span r)) ps') < length ps'"
    unfolding pend_delete_def by (rule length_filter_less [of r]) (use h in auto)
  also have "length ps' \<le> length ps" by (simp add: h(2))
  finally show ?thesis .
qed

function drain :: "fwd \<Rightarrow> fwd" where
  "drain f =
     (case spanned (pending f) (head (fq f) + 1) of
        (ps, None) \<Rightarrow> f\<lparr>pending := ps\<rparr>
      | (ps, Some r) \<Rightarrow>
          (case joinSpan r (fq f) of
             (q, bad) \<Rightarrow> drain (f\<lparr>pending := pend_delete (lo (sr_span r)) ps, fq := q,
               redo := (case bad of None \<Rightarrow> redo f | Some b \<Rightarrow> redo f @ [\<lparr>lo = b, hi = hi (sr_span r)\<rparr>])\<rparr>)))"
  by pat_completeness auto
termination
proof (relation "measure (\<lambda>f. length (pending f))", goal_cases)
  case 1
  show ?case by (rule wf_measure)
next
  case 2
  then show ?case by (auto dest!: sym [of "(_, _)"] pend_delete_shorter)
qed

declare drain.simps [simp del]

definition fillRule :: "fwd \<Rightarrow> fwd" where
  "fillRule f =
     (let h = head (fq f); c = consumed (fq f);
          n = (if nextH f \<le> h then h + 1 else nextH f);
          g = (if h - c < RefillBelow then True else filling f);
          g = (if n > c + WindowBlocks then False else g)
      in f\<lparr>nextH := n, filling := g\<rparr>)"

definition windowTarget :: "u64 \<Rightarrow> Queue \<Rightarrow> u64" where
  "windowTarget tip q = (if consumed q + WindowBlocks < tip then consumed q + WindowBlocks else tip)"

definition pickJob :: "u64 \<Rightarrow> fwd \<Rightarrow> fwd" where
  "pickJob target f =
     (if outJob f = None \<and> filling f \<and> qbytes (fq f) < queueMaxBytes \<and> length (inflight f) < fetchSpans
      then (case redo f of
          s # ss \<Rightarrow> f\<lparr>outJob := Some s, redo := ss\<rparr>
        | [] \<Rightarrow>
            if nextH f \<le> target
            then let h = min (nextH f + spanBlocks - 1) target in
              f\<lparr>outJob := Some \<lparr>lo = nextH f, hi = h\<rparr>, nextH := h + 1\<rparr>
            else f)
      else f)"

text \<open>One pass of the loop up to its \<^verbatim>\<open>select\<close>.\<close>

definition turn :: "u64 \<Rightarrow> fwd \<Rightarrow> fwd" where
  "turn tip f = (let f = fillRule (drain f) in pickJob (windowTarget tip (fq f)) f)"

definition handOut :: "fwd \<Rightarrow> fwd" where
  "handOut f = (case outJob f of None \<Rightarrow> f | Some s \<Rightarrow> f\<lparr>outJob := None, inflight := inflight f @ [s]\<rparr>)"

definition takeResult :: "spanResult \<Rightarrow> fwd \<Rightarrow> fwd" where
  "takeResult r f = f\<lparr>inflight := remove1 (sr_span r) (inflight f), pending := pend_set r (pending f)\<rparr>"

section \<open>No height is lost\<close>

text \<open>
  The spans the scheduler has cut and not yet joined: sent back, arrived, with a worker, or about to be
  handed out.  \<open>cnt\<close> counts how many of them contain a height.
\<close>

definition outstanding :: "fwd \<Rightarrow> span list" where
  "outstanding f = redo f @ map sr_span (pending f) @ inflight f @ (case outJob f of None \<Rightarrow> [] | Some s \<Rightarrow> [s])"

definition in_span :: "nat \<Rightarrow> span \<Rightarrow> bool" where
  "in_span n s = (unat (lo s) \<le> n \<and> n \<le> unat (hi s))"

definition cnt :: "span list \<Rightarrow> nat \<Rightarrow> nat" where
  "cnt ss n = length (filter (in_span n) ss)"

text \<open>A result whose containers carry the consecutive heights of its span.\<close>

definition numbered_span :: "spanResult \<Rightarrow> bool" where
  "numbered_span r = (map (\<lambda>b. unat (blockNumber (rb_p b))) (sr_blocks r) =
     [unat (lo (sr_span r)) ..< Suc (unat (hi (sr_span r)))])"

definition covers_once :: "span list \<Rightarrow> nat \<Rightarrow> nat \<Rightarrow> bool" where
  "covers_once ss h n = ((\<forall>k. cnt ss k \<le> 1) \<and> (\<forall>k. h < k \<and> k < n \<longrightarrow> cnt ss k = 1) \<and>
     (\<forall>k \<ge> n. cnt ss k = 0) \<and> (\<forall>s \<in> set ss. lo s \<le> hi s))"

definition fwd_inv :: "fwd \<Rightarrow> bool" where
  "fwd_inv f = (covers_once (outstanding f) (unat (head (fq f))) (unat (nextH f)) \<and>
     list_all numbered_span (pending f) \<and> unat (head (fq f)) < 2 ^ 63 \<and> unat (nextH f) \<le> 2 ^ 63)"

lemma cnt_simps [simp]:
  "cnt [] n = 0" "cnt (s # ss) n = (if in_span n s then 1 else 0) + cnt ss n" "cnt (xs @ ys) n = cnt xs n + cnt ys n"
  by (simp_all add: cnt_def)

lemma cnt_filter_le: "cnt (map sr_span (filter P ps)) n \<le> cnt (map sr_span ps) n"
  by (induction ps) auto

lemma cnt_0_iff: "cnt ss n = 0 \<longleftrightarrow> (\<forall>s \<in> set ss. \<not> in_span n s)"
  by (induction ss) auto

lemma cnt_filter_out:
  assumes "\<And>r. r \<in> set ps \<Longrightarrow> \<not> P r \<Longrightarrow> \<not> in_span n (sr_span r)"
  shows "cnt (map sr_span (filter P ps)) n = cnt (map sr_span ps) n"
  using assms by (induction ps) auto

lemma cnt_remove1:
  "s \<in> set ss \<Longrightarrow> cnt (remove1 s ss) n + (if in_span n s then 1 else 0) = cnt ss n"
  by (induction ss) auto

lemma cnt_pend_delete:
  assumes "r \<in> set ps" and "cnt (map sr_span ps) (unat (lo (sr_span r))) \<le> 1" and "\<forall>r \<in> set ps. lo (sr_span r) \<le> hi (sr_span r)"
  shows "cnt (map sr_span (pend_delete (lo (sr_span r)) ps)) n + (if in_span n (sr_span r) then 1 else 0)
    = cnt (map sr_span ps) n"
  using assms
proof (induction ps)
  case (Cons x ps)
  have self: "in_span (unat (lo (sr_span y))) (sr_span y)" if "y \<in> set (x # ps)" for y
    using Cons.prems(3) that by (auto simp: in_span_def word_le_nat_alt)
  show ?case
  proof (cases "lo (sr_span x) = lo (sr_span r)")
    case True
    have x: "in_span (unat (lo (sr_span r))) (sr_span x)" using self [of x] True by simp
    then have z: "cnt (map sr_span ps) (unat (lo (sr_span r))) = 0" using Cons.prems(2) by simp
    have "r = x"
      using Cons.prems(1) z self [of r] by (auto simp: cnt_0_iff)
    moreover have "lo (sr_span y) \<noteq> lo (sr_span r)" if "y \<in> set ps" for y
      using z self [of y] that by (auto simp: cnt_0_iff)
    then have "filter (\<lambda>r'. lo (sr_span r') \<noteq> lo (sr_span r)) ps = ps"
      by (simp add: filter_id_conv)
    ultimately show ?thesis by (simp add: pend_delete_def)
  next
    case False
    then have "r \<in> set ps" using Cons.prems(1) by auto
    moreover have "cnt (map sr_span ps) (unat (lo (sr_span r))) \<le> 1" using Cons.prems(2) by simp
    ultimately show ?thesis using Cons.IH Cons.prems(3) False by (simp add: pend_delete_def)
  qed
qed simp

lemma pend_set_fresh:
  assumes "cnt (map sr_span ps) (unat (lo (sr_span r))) = 0" and "\<forall>r \<in> set ps. lo (sr_span r) \<le> hi (sr_span r)"
  shows "pend_set r ps = ps @ [r]"
  using assms unfolding pend_set_def by (auto simp: cnt_0_iff in_span_def filter_id_conv word_le_nat_alt)

text \<open>Joining the blocks of a span moves the head through it, or names the height after the head.\<close>

lemma joinBlocks_numbered:
  assumes "map (\<lambda>b. unat (blockNumber (rb_p b))) bs = [a..<b]" and "a \<le> Suc (unat (head q))"
    and "joinBlocks bs q = (q', bad)"
  shows "unat (head q) \<le> unat (head q') \<and> unat (head q') < max (Suc (unat (head q))) b \<and>
    (case bad of None \<Rightarrow> b \<le> Suc (unat (head q')) | Some x \<Rightarrow> unat x = Suc (unat (head q')) \<and> unat x < b)"
  using assms
proof (induction bs arbitrary: a q)
  case (Cons c bs)
  let ?n = "blockNumber (rb_p c)"
  from Cons.prems(1) have ab: "unat ?n = a" "a < b" "map (\<lambda>b. unat (blockNumber (rb_p b))) bs = [Suc a..<b]"
    by (cases "a < b"; auto simp: upt_conv_Cons)+
  show ?case
  proof (cases "?n \<le> head q")
    case True
    then show ?thesis using Cons.IH [OF ab(3), of q] Cons.prems ab(1) by (simp add: word_le_nat_alt)
  next
    case False
    then have a: "a = Suc (unat (head q))" using Cons.prems(2) ab(1) by (simp add: word_le_nat_alt)
    obtain q1 ok where ap: "Append (rb_p c) (rb_raw c) q = (q1, ok)" by fastforce
    show ?thesis
    proof (cases ok)
      case True
      then have h: "head q1 = ?n" using ap by (auto simp: Append_def Let_def split: if_splits)
      then show ?thesis
        using Cons.IH [OF ab(3), of q1] Cons.prems ab a True False ap by (simp split: option.splits)
    next
      case no: False
      then show ?thesis using Cons.prems ab a False ap
        by (auto simp: Append_def Let_def split: if_splits)
    qed
  qed
next
  case Nil
  then have "b \<le> a" by (metis list.map(1) not_le upt_conv_Cons list.distinct(1))
  then show ?case using Nil by (auto split: option.splits)
qed


lemma joinSpan_numbered:
  assumes "numbered_span r" and "lo (sr_span r) \<le> head q + 1" and "unat (head q) < 2 ^ 63" and "joinSpan r q = (q', bad)"
  shows "unat (head q) \<le> unat (head q') \<and> unat (head q') \<le> max (unat (head q)) (unat (hi (sr_span r))) \<and>
    (case bad of None \<Rightarrow> unat (hi (sr_span r)) \<le> unat (head q')
     | Some x \<Rightarrow> unat x = Suc (unat (head q')) \<and> unat x \<le> unat (hi (sr_span r)))"
proof -
  have "unat (head q + 1) = Suc (unat (head q))"
    using assms(3) by (simp add: unat_word_ariths)
  then have "unat (lo (sr_span r)) \<le> Suc (unat (head q))" using assms(2) by (simp add: word_le_nat_alt)
  from joinBlocks_numbered [OF assms(1) [unfolded numbered_span_def] this assms(4) [unfolded joinSpan_def]]
  show ?thesis by (auto simp: less_Suc_eq_le split: option.splits)
qed

lemma covers_once_mono:
  assumes "covers_once ss h n" and "h \<le> h'" and "\<And>k. cnt ss' k \<le> cnt ss k"
    and "\<And>k. h' < k \<Longrightarrow> cnt ss' k = cnt ss k" and "\<And>s. s \<in> set ss' \<Longrightarrow> lo s \<le> hi s"
  shows "covers_once ss' h' n"
proof -
  have "cnt ss' k \<le> 1" for k using assms(1,3) by (meson covers_once_def order_trans)
  moreover have "cnt ss' k = 0" if "n \<le> k" for k using assms(1) assms(3) [of k] that by (simp add: covers_once_def)
  moreover have "cnt ss' k = 1" if "h' < k \<and> k < n" for k using assms(1,2) assms(4) [of k] that by (simp add: covers_once_def)
  ultimately show ?thesis using assms(5) by (simp add: covers_once_def)
qed

lemma fwd_inv_facts:
  assumes "fwd_inv f"
  shows "covers_once (outstanding f) (unat (head (fq f))) (unat (nextH f))"
    and "unat (head (fq f) + 1) = Suc (unat (head (fq f)))" and "unat (head (fq f)) < 2 ^ 63" and "unat (nextH f) \<le> 2 ^ 63"
    and "r \<in> set (pending f) \<Longrightarrow> numbered_span r \<and> lo (sr_span r) \<le> hi (sr_span r) \<and> unat (hi (sr_span r)) < unat (nextH f)"
proof -
  show c: "covers_once (outstanding f) (unat (head (fq f))) (unat (nextH f))"
    and "unat (head (fq f)) < 2 ^ 63" and "unat (nextH f) \<le> 2 ^ 63" using assms by (simp_all add: fwd_inv_def)
  show "unat (head (fq f) + 1) = Suc (unat (head (fq f)))"
    using assms by (simp add: fwd_inv_def unat_word_ariths)
  assume r: "r \<in> set (pending f)"
  then have o: "sr_span r \<in> set (outstanding f)" by (simp add: outstanding_def)
  have "lo (sr_span r) \<le> hi (sr_span r)" using c o by (simp add: covers_once_def)
  moreover have "unat (hi (sr_span r)) < unat (nextH f)"
  proof (rule ccontr)
    assume "\<not> ?thesis"
    then have "cnt (outstanding f) (unat (hi (sr_span r))) = 0" using c by (simp add: covers_once_def)
    then show False using o \<open>lo (sr_span r) \<le> hi (sr_span r)\<close> by (auto simp: cnt_0_iff in_span_def word_le_nat_alt)
  qed
  ultimately show "numbered_span r \<and> lo (sr_span r) \<le> hi (sr_span r) \<and> unat (hi (sr_span r)) < unat (nextH f)"
    using assms r by (simp add: fwd_inv_def list_all_iff)
qed

lemma prune_inv:
  assumes inv: "fwd_inv f" and s: "spanned (pending f) (head (fq f) + 1) = (ps, hit)"
  shows "fwd_inv (f\<lparr>pending := ps\<rparr>)"
proof -
  note F = fwd_inv_facts [OF inv]
  have ps: "ps = filter (\<lambda>r. \<not> hi (sr_span r) < head (fq f) + 1) (pending f)" using s by (simp add: spanned_def)
  have "cnt (map sr_span ps) k = cnt (map sr_span (pending f)) k" if "unat (head (fq f)) < k" for k
    unfolding ps by (rule cnt_filter_out) (use that F(2) in \<open>auto simp: in_span_def word_less_nat_alt\<close>)
  moreover have "cnt (map sr_span ps) k \<le> cnt (map sr_span (pending f)) k" for k
    unfolding ps by (rule cnt_filter_le)
  moreover have "set ps \<subseteq> set (pending f)" by (simp add: ps)
  ultimately have "covers_once (outstanding (f\<lparr>pending := ps\<rparr>)) (unat (head (fq f))) (unat (nextH f))"
    by (intro covers_once_mono [OF F(1) order_refl])
      (use F(1) in \<open>auto simp: outstanding_def covers_once_def split: option.splits\<close>)
  then show ?thesis using inv by (auto simp: fwd_inv_def ps list_all_iff)
qed

lemma join_inv:
  assumes inv: "fwd_inv f" and r: "r \<in> set (pending f)" and lo: "lo (sr_span r) \<le> head (fq f) + 1"
    and j: "joinSpan r (fq f) = (q, bad)"
  shows "fwd_inv (f\<lparr>pending := pend_delete (lo (sr_span r)) (pending f), fq := q,
      redo := (case bad of None \<Rightarrow> redo f | Some b \<Rightarrow> redo f @ [\<lparr>lo = b, hi = hi (sr_span r)\<rparr>])\<rparr>)" (is "fwd_inv ?f")
proof -
  note F = fwd_inv_facts [OF inv]
  note R = F(5) [OF r]
  note J = joinSpan_numbered [OF conjunct1 [OF R] lo F(3) j]
  have lo': "unat (lo (sr_span r)) \<le> Suc (unat (head (fq f)))" using lo F(2) by (simp add: word_le_nat_alt)
  have once: "cnt (map sr_span (pending f)) (unat (lo (sr_span r))) \<le> 1"
  proof -
    have "cnt (map sr_span (pending f)) k \<le> cnt (outstanding f) k" for k by (simp add: outstanding_def)
    then show ?thesis using F(1) by (meson covers_once_def order_trans)
  qed
  have del: "cnt (map sr_span (pend_delete (lo (sr_span r)) (pending f))) k + (if in_span k (sr_span r) then 1 else 0)
      = cnt (map sr_span (pending f)) k" for k
    by (rule cnt_pend_delete [OF r once]) (use F(5) in blast)
  define new where "new = (case bad of None \<Rightarrow> [] | Some b \<Rightarrow> [\<lparr>lo = b, hi = hi (sr_span r)\<rparr>])"
  have new: "cnt new k \<le> (if in_span k (sr_span r) then 1 else 0)"
    "unat (head q) < k \<Longrightarrow> cnt new k = (if in_span k (sr_span r) then 1 else 0)" for k
    using J lo' by (auto simp: new_def in_span_def split: option.splits)
  have out: "cnt (outstanding ?f) k + cnt (map sr_span (pending f)) k
      = cnt (outstanding f) k + cnt new k + cnt (map sr_span (pend_delete (lo (sr_span r)) (pending f))) k" for k
    by (auto simp: outstanding_def new_def split: option.splits)
  have ok: "lo s \<le> hi s" if "s \<in> set (outstanding ?f)" for s
  proof -
    have "s \<in> set (outstanding f) \<or> s \<in> set new"
      using that by (auto simp: outstanding_def new_def pend_delete_def split: option.splits)
    moreover have "lo s \<le> hi s" if "s \<in> set new"
      using J that by (auto simp: new_def word_le_nat_alt split: option.splits)
    ultimately show ?thesis using F(1) by (meson covers_once_def)
  qed
  have "cnt (outstanding ?f) k \<le> cnt (outstanding f) k" for k
    using out [of k] del [of k] new(1) [of k] by linarith
  moreover have "cnt (outstanding ?f) k = cnt (outstanding f) k" if "unat (head q) < k" for k
    using out [of k] del [of k] new(2) [OF that] by linarith
  ultimately have "covers_once (outstanding ?f) (unat (head q)) (unat (nextH f))"
    using J ok by (intro covers_once_mono [OF F(1)]) simp_all
  moreover have "unat (head q) < 2 ^ 63" using J R F(3,4) by (simp add: max_def split: if_splits)
  ultimately show ?thesis using inv by (auto simp: fwd_inv_def list_all_iff pend_delete_def)
qed


lemma drain_inv: "fwd_inv f \<Longrightarrow> fwd_inv (drain f)"
proof (induction f rule: drain.induct)
  case (1 f)
  obtain ps hit where s: "spanned (pending f) (head (fq f) + 1) = (ps, hit)" by fastforce
  note p = prune_inv [OF 1(2) s]
  show ?case
  proof (cases hit)
    case None
    then show ?thesis using p s by (subst drain.simps) simp
  next
    case (Some r)
    obtain q bad where j: "joinSpan r (fq f) = (q, bad)" by fastforce
    have r: "r \<in> set ps" "lo (sr_span r) \<le> head (fq f) + 1"
      using spanned_hit [OF s [unfolded Some]] by auto
    show ?thesis
      using 1(1) [OF s [symmetric] Some j [symmetric]] join_inv [OF p, of r q bad] r j Some s
      by (subst drain.simps) (cases bad; simp)
  qed
qed

lemma drain_done: "snd (spanned (pending (drain f)) (head (fq (drain f)) + 1)) = None"
proof (induction f rule: drain.induct)
  case (1 f)
  obtain ps hit where s: "spanned (pending f) (head (fq f) + 1) = (ps, hit)" by fastforce
  show ?case
  proof (cases hit)
    case None
    then have "find (\<lambda>r. \<not> hi (sr_span r) < head (fq f) + 1 \<and> lo (sr_span r) \<le> head (fq f) + 1) (rev (pending f)) = None"
      using s by (simp add: spanned_def)
    then have "snd (spanned ps (head (fq f) + 1)) = None"
      using s by (auto simp: spanned_def find_None_iff)
    then show ?thesis using None s by (subst (1 2) drain.simps) simp
  next
    case (Some r)
    obtain q bad where j: "joinSpan r (fq f) = (q, bad)" by fastforce
    show ?thesis
      using 1(1) [OF s [symmetric] Some j [symmetric]] j Some s by (subst (1 2) drain.simps) simp
  qed
qed

lemma fillRule_inv:
  assumes "fwd_inv f"
  shows "fwd_inv (fillRule f)"
proof (cases "nextH f \<le> head (fq f)")
  case False
  then have "nextH (fillRule f) = nextH f" "fq (fillRule f) = fq f" "outstanding (fillRule f) = outstanding f" "pending (fillRule f) = pending f"
    by (simp_all add: fillRule_def Let_def outstanding_def)
  then show ?thesis using assms by (simp add: fwd_inv_def)
next
  case True
  note F = fwd_inv_facts [OF assms]
  have f: "nextH (fillRule f) = head (fq f) + 1" "fq (fillRule f) = fq f" "outstanding (fillRule f) = outstanding f" "pending (fillRule f) = pending f"
    using True by (simp_all add: fillRule_def Let_def outstanding_def)
  have "unat (nextH f) \<le> unat (head (fq f))" using True by (simp add: word_le_nat_alt)
  then have "covers_once (outstanding f) (unat (head (fq f))) (unat (head (fq f) + 1))"
    using F(1,2) by (simp add: covers_once_def)
  then show ?thesis using f F(2,3) assms by (simp add: fwd_inv_def)
qed

lemma new_span_bounds:
  assumes "unat n \<le> 2 ^ 63" and "n \<le> target" and "unat target < 2 ^ 63"
  shows "n \<le> min (n + spanBlocks - 1) target" and "unat (min (n + spanBlocks - 1) target + 1) = Suc (unat (min (n + spanBlocks - 1) target))"
    and "unat (min (n + spanBlocks - 1) target) < 2 ^ 63"
proof -
  have "unat (n + spanBlocks - 1) = unat n + 4095"
    using assms(1) by (simp add: spanBlocks_def unat_word_ariths)
  then show a: "n \<le> min (n + spanBlocks - 1) target" using assms by (simp add: word_le_nat_alt)
  show "unat (min (n + spanBlocks - 1) target) < 2 ^ 63" using assms(3) by (simp add: min_def word_le_nat_alt)
  then show "unat (min (n + spanBlocks - 1) target + 1) = Suc (unat (min (n + spanBlocks - 1) target))"
    by (simp add: unat_word_ariths)
qed

lemma covers_once_grow:
  assumes "covers_once ss h (unat n)" and "n \<le> m" and "unat (m + 1) = Suc (unat m)" and "\<And>k. cnt ss' k = cnt ss k + (if in_span k \<lparr>lo = n, hi = m\<rparr> then 1 else 0)"
    and "set ss' \<subseteq> insert \<lparr>lo = n, hi = m\<rparr> (set ss)"
  shows "covers_once ss' h (unat (m + 1))"
proof -
  have m: "unat n \<le> unat m" using assms(2) by (simp add: word_le_nat_alt)
  have s: "lo s \<le> hi s" if "s \<in> set ss'" for s
    using assms(1,2,5) that by (auto simp: covers_once_def)
  show ?thesis
    using assms(1,3,4) m s by (auto simp: covers_once_def in_span_def)
qed

lemma pickJob_cases:
  "pickJob target f = f \<or>
   (\<exists>s ss. redo f = s # ss \<and> outJob f = None \<and> pickJob target f = f\<lparr>outJob := Some s, redo := ss\<rparr>) \<or>
   (\<exists>h. outJob f = None \<and> nextH f \<le> target \<and> h = min (nextH f + spanBlocks - 1) target \<and>
      pickJob target f = f\<lparr>outJob := Some \<lparr>lo = nextH f, hi = h\<rparr>, nextH := h + 1\<rparr>)"
  by (cases "redo f") (simp_all add: pickJob_def Let_def)

lemma pickJob_inv:
  assumes inv: "fwd_inv f" and t: "unat target < 2 ^ 63"
  shows "fwd_inv (pickJob target f)"
proof -
  note F = fwd_inv_facts [OF inv]
  consider (same) "pickJob target f = f"
    | (redo) s ss where "redo f = s # ss" "outJob f = None" "pickJob target f = f\<lparr>outJob := Some s, redo := ss\<rparr>"
    | (new) h where "outJob f = None" "nextH f \<le> target" "h = min (nextH f + spanBlocks - 1) target"
        "pickJob target f = f\<lparr>outJob := Some \<lparr>lo = nextH f, hi = h\<rparr>, nextH := h + 1\<rparr>"
    using pickJob_cases [of target f] by blast
  then show ?thesis
  proof cases
    case same
    then show ?thesis using inv by simp
  next
    case redo
    have "cnt (outstanding (pickJob target f)) k = cnt (outstanding f) k" for k
      using redo by (simp add: outstanding_def)
    moreover have "set (outstanding (pickJob target f)) = set (outstanding f)"
      using redo by (auto simp: outstanding_def)
    ultimately have "covers_once (outstanding (pickJob target f)) (unat (head (fq f))) (unat (nextH f))"
      using F(1) by (simp add: covers_once_def)
    then show ?thesis using inv redo by (simp add: fwd_inv_def)
  next
    case new
    note B = new_span_bounds [OF F(4) new(2) t, folded new(3)]
    have "covers_once (outstanding (pickJob target f)) (unat (head (fq f))) (unat (h + 1))"
      by (rule covers_once_grow [OF F(1) B(1,2)]) (use new in \<open>auto simp: outstanding_def\<close>)
    then show ?thesis using inv new B(2,3) by (simp add: fwd_inv_def)
  qed
qed

section \<open>Reachable schedulers\<close>

text \<open>
  The loop interleaved with everything that happens beside it: the follower appends to the queue, the
  executor reads from it, results arrive in any order.  A result answers a span a worker holds, and its
  containers carry the heights of the span; whether they link is left open.
\<close>

inductive fwd_reach :: "u64 \<Rightarrow> ID \<Rightarrow> fwd \<Rightarrow> bool" for "from" :: u64 and a :: ID where
  started: "fwd_reach from a (newFwd (newQueue from a))"
| turned: "fwd_reach from a f \<Longrightarrow> unat tip < 2 ^ 63 \<Longrightarrow> fwd_reach from a (turn tip f)"
| handed: "fwd_reach from a f \<Longrightarrow> fwd_reach from a (handOut f)"
| arrived: "fwd_reach from a f \<Longrightarrow> sr_span r \<in> set (inflight f) \<Longrightarrow> numbered_span r \<Longrightarrow> fwd_reach from a (takeResult r f)"
| followed: "fwd_reach from a f \<Longrightarrow> unat (blockNumber p) < 2 ^ 63 \<Longrightarrow> fwd_reach from a (f\<lparr>fq := fst (Append p raw (fq f))\<rparr>)"
| consumed: "fwd_reach from a f \<Longrightarrow> GetByHeight n (fq f) = Some (q, res) \<Longrightarrow> fwd_reach from a (f\<lparr>fq := q\<rparr>)"

lemma release_one_head [simp]: "head (release_one q) = head q"
  by (simp add: release_one_def split: option.split)

lemma release_loop_head: "release_loop upTo q = Some q' \<Longrightarrow> head q' = head q"
  by (rule release_loop.raw_induct [of "\<lambda>upTo q q'. head q' = head q", rotated]) (auto split: if_splits)

lemma GetByHeight_head: "GetByHeight n q = Some (q', res) \<Longrightarrow> head q' = head q"
  by (auto simp: GetByHeight_def release_def dest!: release_loop_head split: option.splits if_splits)

lemma windowTarget_le: "windowTarget tip q \<le> tip"
  by (simp add: windowTarget_def order_less_imp_le)

lemma windowTarget_bound: "unat tip < 2 ^ 63 \<Longrightarrow> unat (windowTarget tip q) < 2 ^ 63"
  using windowTarget_le [of tip q] by (simp only: word_le_nat_alt le_less_trans)

lemma turn_inv: "fwd_inv f \<Longrightarrow> unat tip < 2 ^ 63 \<Longrightarrow> fwd_inv (turn tip f)"
  unfolding turn_def Let_def
  by (intro pickJob_inv fillRule_inv drain_inv windowTarget_bound)

lemma handOut_inv:
  assumes "fwd_inv f"
  shows "fwd_inv (handOut f)"
proof (cases "outJob f")
  case (Some s)
  have "cnt (outstanding (handOut f)) k = cnt (outstanding f) k" "set (outstanding (handOut f)) = set (outstanding f)" for k
    using Some by (auto simp: outstanding_def handOut_def)
  then show ?thesis using assms Some by (simp add: fwd_inv_def covers_once_def handOut_def)
qed (use assms in \<open>simp add: handOut_def\<close>)

lemma takeResult_inv:
  assumes inv: "fwd_inv f" and s: "sr_span r \<in> set (inflight f)" and "numbered_span r"
  shows "fwd_inv (takeResult r f)"
proof -
  note F = fwd_inv_facts [OF inv]
  have in_r: "in_span (unat (lo (sr_span r))) (sr_span r)"
    using F(1) s by (auto simp: covers_once_def outstanding_def in_span_def word_le_nat_alt)
  have "cnt (inflight f) (unat (lo (sr_span r))) \<noteq> 0" using s in_r by (auto simp: cnt_0_iff)
  moreover have "cnt (outstanding f) (unat (lo (sr_span r))) \<le> 1" using F(1) by (simp add: covers_once_def)
  ultimately have "cnt (map sr_span (pending f)) (unat (lo (sr_span r))) = 0"
    by (simp add: outstanding_def)
  then have p: "pend_set r (pending f) = pending f @ [r]"
    by (rule pend_set_fresh) (use F(5) in blast)
  have "cnt (outstanding (takeResult r f)) k = cnt (outstanding f) k" for k
    using cnt_remove1 [OF s, of k] by (simp add: outstanding_def takeResult_def p)
  moreover have "set (outstanding (takeResult r f)) \<subseteq> set (outstanding f)"
    using s by (auto simp: outstanding_def takeResult_def p dest: notin_set_remove1)
  ultimately have "covers_once (outstanding (takeResult r f)) (unat (head (fq f))) (unat (nextH f))"
    using F(1) by (auto simp: covers_once_def)
  then show ?thesis using inv assms(3) by (simp add: fwd_inv_def takeResult_def p)
qed

lemma queue_inv_step:
  assumes "fwd_inv f" and "unat (head (fq f)) \<le> unat (head q)" and "unat (head q) < 2 ^ 63"
  shows "fwd_inv (f\<lparr>fq := q\<rparr>)"
  using assms unfolding fwd_inv_def covers_once_def by (simp add: outstanding_def)

lemma fwd_reach_inv:
  assumes "fwd_reach from a f" and "0 < unat from" and "unat from < 2 ^ 63"
  shows "fwd_inv f"
  using assms(1)
proof induction
  case started
  have "unat (from - 1) = unat from - 1" using assms(2) by (simp add: unat_minus_one unat_gt_0)
  then show ?case using assms(2,3)
    by (auto simp: fwd_inv_def newFwd_def newQueue_def outstanding_def covers_once_def)
next
  case (followed f p raw)
  have "head (fst (Append p raw (fq f))) = head (fq f) \<or>
      (blockNumber p = head (fq f) + 1 \<and> head (fst (Append p raw (fq f))) = head (fq f) + 1)"
    by (auto simp: Append_def Let_def)
  then show ?case
    using followed fwd_inv_facts(2,3) [OF followed.IH] by (intro queue_inv_step) auto
next
  case (consumed f n q res)
  then show ?case using fwd_inv_facts(3) [OF consumed.IH] by (intro queue_inv_step) (simp_all add: GetByHeight_head)
qed (simp_all add: turn_inv handOut_inv takeResult_inv)




section \<open>What a fetched span is\<close>

text \<open>\<open>chained cid bs\<close>: newest first, each container is the one the one before it named as its parent.\<close>

fun chained :: "ID \<Rightarrow> rawBlock list \<Rightarrow> bool" where
  "chained cid [] = True"
| "chained cid (b # bs) = (containerID (rb_p b) = cid \<and> chained (parentID (rb_p b)) bs)"

fun last_parent :: "ID \<Rightarrow> rawBlock list \<Rightarrow> ID" where
  "last_parent cid [] = cid"
| "last_parent cid (b # bs) = last_parent (parentID (rb_p b)) bs"

lemma chained_snoc: "chained cid (bs @ [b]) \<longleftrightarrow> chained cid bs \<and> containerID (rb_p b) = last_parent cid bs"
  by (induction bs arbitrary: cid) auto

lemma last_parent_snoc: "last_parent cid (bs @ [b]) = parentID (rb_p b)"
  by (induction bs arbitrary: cid) auto

definition walk_ok :: "(bytes \<Rightarrow> parsedContainer res) \<Rightarrow> u64 \<Rightarrow> ID \<Rightarrow> rawBlock list \<Rightarrow> ID \<Rightarrow> bool \<Rightarrow> bool" where
  "walk_ok parse floor cid bs cur fin = (chained cid bs \<and> cur = last_parent cid bs \<and>
     (\<forall>b \<in> set bs. parse (rb_raw b) = Inr (rb_p b)) \<and>
     (\<forall>b \<in> set (if fin then butlast bs else bs). floor < blockNumber (rb_p b)) \<and>
     (fin \<longrightarrow> bs \<noteq> [] \<and> blockNumber (rb_p (last bs)) \<le> floor))"

lemma walkBatch_ok:
  assumes "walk_ok parse floor cid bs cur False" and "walkBatch parse floor raws cur bs = (bs', cur', fin)"
  shows "walk_ok parse floor cid bs' cur' fin"
  using assms
proof (induction raws arbitrary: cur bs)
  case (Cons raw raws)
  show ?case
  proof (cases "parse raw")
    case (Inr p)
    then show ?thesis
      using Cons.prems Cons.IH [of "bs @ [\<lparr>rb_p = p, rb_raw = raw\<rparr>]" "parentID p"]
      by (auto simp: walk_ok_def chained_snoc last_parent_snoc split: if_splits)
  qed (use Cons.prems in auto)
qed auto

lemma walkDown_ok:
  assumes "walk_ok parse floor cid bs cur False" and "walkDown parse floor resp batches cur bs = Some bs'"
  shows "\<exists>cur'. walk_ok parse floor cid bs' cur' True"
  using assms
proof (induction batches arbitrary: resp cur bs)
  case Nil
  obtain b1 c1 fin where w: "walkBatch parse floor resp cur bs = (b1, c1, fin)" by (metis prod_cases3)
  then show ?case using Nil.prems walkBatch_ok [OF Nil.prems(1) w] by (cases fin) auto
next
  case (Cons resp' batches)
  obtain b1 c1 fin where w: "walkBatch parse floor resp cur bs = (b1, c1, fin)" by (metis prod_cases3)
  show ?case
  proof (cases fin)
    case True
    then show ?thesis using Cons.prems walkBatch_ok [OF Cons.prems(1) w] w by auto
  next
    case False
    then show ?thesis using Cons.prems Cons.IH walkBatch_ok [OF Cons.prems(1) w] w by simp
  qed
qed

text \<open>
  C11. A fetched span is an unbroken ancestors chain: newest first, every container is the one its
  successor names as parent, starting from the seed container; each was parsed from the bytes that are
  kept with it, and none is below the floor.
\<close>

theorem fetchSpan_chained:
  assumes "fetchSpan parse (Some (resp, cid)) batches s = Some r"
  shows "sr_span r = s \<and> chained cid (rev (sr_blocks r)) \<and>
    (\<forall>b \<in> set (sr_blocks r). parse (rb_raw b) = Inr (rb_p b) \<and> lo s \<le> blockNumber (rb_p b))"
proof -
  obtain bs where w: "walkDown parse (lo s) resp batches cid [] = Some bs"
    and r: "r = \<lparr>sr_span = s, sr_blocks = filter (\<lambda>b. lo s \<le> blockNumber (rb_p b)) (rev bs)\<rparr>"
    using assms by (auto simp: fetchSpan_def split: option.splits)
  have "walk_ok parse (lo s) cid [] cid False" by (simp add: walk_ok_def)
  from walkDown_ok [OF this w] obtain cur where ok: "walk_ok parse (lo s) cid bs cur True" by blast
  have bl: "filter (\<lambda>b. lo s \<le> blockNumber (rb_p b)) (butlast bs) = butlast bs"
    using ok by (auto simp: walk_ok_def filter_id_conv)
  have bs: "butlast bs @ [last bs] = bs" using ok by (simp add: walk_ok_def)
  have "filter (\<lambda>b. lo s \<le> blockNumber (rb_p b)) (butlast bs @ [last bs]) = butlast bs @ [last bs] \<or>
      filter (\<lambda>b. lo s \<le> blockNumber (rb_p b)) (butlast bs @ [last bs]) = butlast bs"
    using bl by simp
  moreover have "chained cid (butlast bs @ [last bs])" using ok by (simp add: walk_ok_def bs)
  ultimately have "chained cid (filter (\<lambda>b. lo s \<le> blockNumber (rb_p b)) (butlast bs @ [last bs]))"
    by (auto simp: chained_snoc simp del: filter_append append_butlast_last_id)
  then have "chained cid (filter (\<lambda>b. lo s \<le> blockNumber (rb_p b)) bs)" unfolding bs .
  then show ?thesis using ok by (auto simp: r walk_ok_def rev_filter)
qed

section \<open>Ranking the candidates\<close>

lemma swap_adjacent:
  assumes "Suc j < length xs"
  shows "xs[Suc j := xs ! j, j := xs ! Suc j] = take j xs @ xs ! Suc j # xs ! j # drop (Suc (Suc j)) xs"
proof -
  have "xs = take j xs @ xs ! j # xs ! Suc j # drop (Suc (Suc j)) xs" (is "xs = ?l @ ?a # ?b # ?r")
    using assms by (simp add: Cons_nth_drop_Suc)
  moreover have "(?l @ ?a # ?b # ?r)[Suc j := ?a, j := ?b] = ?l @ ?b # ?a # ?r"
    using assms by (simp add: list_update_append)
  ultimately show ?thesis by argo
qed

lemma split_adjacent: "Suc j < length xs \<Longrightarrow> xs = take j xs @ xs ! j # xs ! Suc j # drop (Suc (Suc j)) xs"
  by (simp add: Cons_nth_drop_Suc)

lemma sink_frame_all:
  "j < length xs \<Longrightarrow> length (sink v j xs) = length xs \<and> drop (Suc j) (sink v j xs) = drop (Suc j) xs \<and>
    mset (sink v j xs) = mset xs \<and> (\<forall>k. filter (\<lambda>x. v x = k) (sink v j xs) = filter (\<lambda>x. v x = k) xs)"
proof (induction j arbitrary: xs)
  case (Suc j)
  let ?ys = "xs[Suc j := xs ! j, j := xs ! Suc j]"
  note sw = swap_adjacent [OF Suc.prems] and sp = split_adjacent [OF Suc.prems]
  show ?case
  proof (cases "v (xs ! Suc j) > v (xs ! j)")
    case True
    have IH: "length (sink v j ?ys) = length ?ys" "drop (Suc j) (sink v j ?ys) = drop (Suc j) ?ys"
      "mset (sink v j ?ys) = mset ?ys" "\<forall>k. filter (\<lambda>x. v x = k) (sink v j ?ys) = filter (\<lambda>x. v x = k) ?ys"
      using Suc.IH [of ?ys] Suc.prems by simp_all
    have "drop (Suc (Suc j)) (sink v j ?ys) = drop 1 (drop (Suc j) ?ys)"
      unfolding IH(2) [symmetric] by simp
    moreover have "mset ?ys = mset (take j xs @ xs ! j # xs ! Suc j # drop (Suc (Suc j)) xs)" unfolding sw by simp
    then have "mset ?ys = mset xs" unfolding sp [symmetric] .
    moreover have "filter (\<lambda>x. v x = k) ?ys = filter (\<lambda>x. v x = k) (take j xs @ xs ! j # xs ! Suc j # drop (Suc (Suc j)) xs)" for k
      unfolding sw using True by auto
    then have "filter (\<lambda>x. v x = k) ?ys = filter (\<lambda>x. v x = k) xs" for k unfolding sp [symmetric] .
    ultimately show ?thesis using True IH by simp
  qed simp
qed simp

lemma sink_frame:
  assumes "j < length xs"
  shows "length (sink v j xs) = length xs" and "drop (Suc j) (sink v j xs) = drop (Suc j) xs"
    and "mset (sink v j xs) = mset xs" and "filter (\<lambda>x. v x = k) (sink v j xs) = filter (\<lambda>x. v x = k) xs"
  using sink_frame_all [OF assms, of v] by simp_all

lemma sink_sorted:
  assumes "j < length xs" and "sorted_wrt (\<lambda>x y. v x \<ge> v y) (take j xs)"
  shows "sorted_wrt (\<lambda>x y. v x \<ge> v y) (take (Suc j) (sink v j xs))"
  using assms
proof (induction j arbitrary: xs)
  case 0
  then show ?case by (simp add: take_Suc_conv_app_nth)
next
  case (Suc j)
  let ?ys = "xs[Suc j := xs ! j, j := xs ! Suc j]"
  have j: "j < length xs" "j < length ?ys" "Suc j < length xs" using Suc.prems by simp_all
  have tk: "take (Suc j) xs = take j xs @ [xs ! j]" using j by (simp add: take_Suc_conv_app_nth)
  have srt: "sorted_wrt (\<lambda>x y. v x \<ge> v y) (take j xs)" "\<forall>x \<in> set (take j xs). v x \<ge> v (xs ! j)"
    using Suc.prems(2) unfolding tk by (simp_all add: sorted_wrt_append)
  show ?case
  proof (cases "v (xs ! Suc j) > v (xs ! j)")
    case False
    then show ?thesis using Suc.prems srt j
      by (auto simp: take_Suc_conv_app_nth [of "Suc j"] tk sorted_wrt_append intro: order_trans)
  next
    case True
    let ?zs = "sink v j ?ys"
    note fr = sink_frame [OF j(2), of v]
    have "take j ?ys = take j xs" by simp
    then have s: "sorted_wrt (\<lambda>x y. v x \<ge> v y) (take (Suc j) ?zs)" using Suc.IH [OF j(2)] srt by simp
    have "mset (take (Suc j) ?zs) + mset (drop (Suc j) ?zs) = mset (take (Suc j) ?ys) + mset (drop (Suc j) ?ys)"
      using fr(3) by (metis append_take_drop_id mset_append)
    then have m: "set (take (Suc j) ?zs) = set (take (Suc j) ?ys)"
      unfolding fr(2) by (metis add_right_cancel set_mset_mset)
    have ty: "take (Suc j) ?ys = take j xs @ [xs ! Suc j]" using j by (simp add: take_Suc_conv_app_nth)
    have "?zs ! Suc j = ?ys ! Suc j" using fr(1,2) j by (metis hd_drop_conv_nth length_list_update)
    then have "?zs ! Suc j = xs ! j" using j by simp
    moreover have "v x \<ge> v (xs ! j)" if "x \<in> set (take (Suc j) ?zs)" for x
      using that srt True unfolding m ty by auto
    moreover have "take (Suc (Suc j)) ?zs = take (Suc j) ?zs @ [?zs ! Suc j]"
      using fr(1) j by (simp add: take_Suc_conv_app_nth)
    ultimately show ?thesis using s True by (simp add: sorted_wrt_append)
  qed
qed

lemma rankVotes_upto:
  assumes "n \<le> length xs" and "0 < n"
  shows "length (fold (sink v) [1..<n] xs) = length xs \<and> mset (fold (sink v) [1..<n] xs) = mset xs \<and>
    (\<forall>k. filter (\<lambda>x. v x = k) (fold (sink v) [1..<n] xs) = filter (\<lambda>x. v x = k) xs) \<and>
    sorted_wrt (\<lambda>x y. v x \<ge> v y) (take n (fold (sink v) [1..<n] xs))"
  using assms
proof (induction n)
  case (Suc n)
  show ?case
  proof (cases "n = 0")
    case True
    then show ?thesis using Suc.prems by (cases xs) simp_all
  next
    case False
    let ?zs = "fold (sink v) [1..<n] xs"
    have IH: "length ?zs = length xs" "mset ?zs = mset xs" "\<forall>k. filter (\<lambda>x. v x = k) ?zs = filter (\<lambda>x. v x = k) xs"
      "sorted_wrt (\<lambda>x y. v x \<ge> v y) (take n ?zs)"
      using Suc False by auto
    have n: "n < length ?zs" using Suc.prems IH(1) by simp
    show ?thesis
      using sink_frame [OF n, of v] sink_sorted [OF n IH(4)] IH False by simp
  qed
qed simp

lemma rankVotes_sort: "rankVotes v xs = sort_key (\<lambda>x. - int (v x)) xs"
proof (cases "xs = []")
  case False
  let ?ys = "rankVotes v xs"
  have r: "mset ?ys = mset xs" "\<forall>k. filter (\<lambda>x. v x = k) ?ys = filter (\<lambda>x. v x = k) xs" "sorted_wrt (\<lambda>x y. v x \<ge> v y) ?ys"
    using rankVotes_upto [of "length xs" xs v] False by (auto simp: rankVotes_def)
  show ?thesis
  proof (rule sym, rule properties_for_sort_key)
    show "mset ?ys = mset xs" by (rule r)
    show "filter (\<lambda>x. - int (v k) = - int (v x)) ?ys = filter (\<lambda>x. - int (v k) = - int (v x)) xs" for k
      using r(2) [rule_format, of "v k"] by (simp add: eq_commute)
    show "sorted (map (\<lambda>x. - int (v x)) ?ys)"
      using r(3) by (simp add: sorted_map)
  qed
qed (simp add: rankVotes_def)

text \<open>Each candidate once, in order of first arrival.\<close>

definition firsts :: "'a list \<Rightarrow> 'a list" where
  "firsts xs = rev (remdups (rev xs))"

lemma firsts_snoc: "firsts (xs @ [a]) = (if a \<in> set xs then firsts xs else firsts xs @ [a])"
  by (simp add: firsts_def)

lemma tally_spec:
  assumes "\<And>a. votesOf votes a = count_list pre a" and "order = firsts pre" and "tally answers order votes = (order', votes')"
  shows "(\<forall>a. votesOf votes' a = count_list (pre @ filter (\<lambda>a. a \<noteq> EmptyID) answers) a) \<and>
    order' = firsts (pre @ filter (\<lambda>a. a \<noteq> EmptyID) answers)"
  using assms
proof (induction answers arbitrary: pre order votes)
  case (Cons a answers)
  show ?case
  proof (cases "a = EmptyID")
    case True
    then show ?thesis using Cons.prems Cons.IH [OF Cons.prems(1,2)] by simp
  next
    case False
    let ?n = "votesOf votes a"
    have t: "tally answers (if ?n = 0 then order @ [a] else order) (AList.update a (?n + 1) votes) = (order', votes')"
      using Cons.prems(3) False by (simp add: votesOf_def Let_def)
    have v: "votesOf (AList.update a (?n + 1) votes) b = count_list (pre @ [a]) b" for b
      using Cons.prems(1) [of a] Cons.prems(1) [of b] by (simp add: votesOf_def update_conv')
    have o: "(if ?n = 0 then order @ [a] else order) = firsts (pre @ [a])"
      using Cons.prems(1,2) by (simp add: firsts_snoc count_list_0_iff)
    show ?thesis using Cons.IH [OF v o t] False by simp
  qed
qed simp

text \<open>
  C12. The candidates of a poll are ranked as documented: the in-place exchange sort computes the stable
  sort of the distinct answers by falling vote count, ties in the order the answers arrived; empty
  answers do not count.
\<close>

theorem pollIDAt_ranks:
  fixes answers :: "ID list"
  defines "as \<equiv> filter (\<lambda>a. a \<noteq> EmptyID) answers"
  shows "pollIDAt answers = sort_key (\<lambda>a. - int (count_list as a)) (firsts as)"
proof -
  obtain order votes where t: "tally answers [] [] = (order, votes)" by fastforce
  have "\<forall>a. votesOf votes a = count_list as a" "order = firsts as"
    using tally_spec [OF _ _ t, of "[]"] by (simp_all add: votesOf_def firsts_def as_def)
  then show ?thesis by (simp add: pollIDAt_def t rankVotes_sort)
qed

section \<open>Two ways the fetch stalls\<close>

text \<open>
  A peer chooses the heights its containers claim.  \<open>joinSpan\<close> cuts a span at the height of the
  container that did not link, and not at the height after the head: with a container that claims a
  height further up, the heights between are in no span any more.
\<close>

definition forked :: "bytes \<Rightarrow> parsedContainer res" where
  "forked raw =
     (if raw = [5] then Inr \<lparr>containerID = [5], blockNumber = 5, blockHash = [5], parentID = [1], parentHash = [4], blockTime = 0\<rparr>
      else if raw = [1] then Inr (sample_container 1)
      else Inl InnerDecode)"



text \<open>
  The other way: a span sent back by a broken link waits in \<open>redo\<close> while \<open>filling\<close> is off, and a fully
  scheduled window turns \<open>filling\<close> off whatever the head.  With the executor waiting at the head, nothing
  moves any more.
\<close>

definition spanAt :: "nat \<Rightarrow> span" where
  "spanAt k = \<lparr>lo = of_nat (4096 * k + 1), hi = of_nat (min (4096 * k + 4096) 100000)\<rparr>"

definition answer :: "ID \<Rightarrow> span \<Rightarrow> spanResult" where
  "answer parent s = \<lparr>sr_span = s, sr_blocks = map (\<lambda>i. \<lparr>rb_p = (sample_container (of_nat i))\<lparr>parentHash := parent\<rparr>, rb_raw = []\<rparr>)
     [unat (lo s)..<Suc (unat (hi s))]\<rparr>"

definition filled :: "nat \<Rightarrow> fwd" where
  "filled k = \<lparr>fq = newQueue 1 [0], nextH = of_nat (min (4096 * k + 1) 100001), redo = [], pending = map (answer [7] \<circ> spanAt) [1..<k],
     inflight = [spanAt 0], filling = True, outJob = None\<rparr>"

lemma answer_span [simp]: "sr_span (answer p s) = s"
  by (simp add: answer_def)

lemma answer_numbered: "numbered_span (answer p s)"
proof -
  have "unat (of_nat i :: u64) = i" if "i < Suc (unat (hi s))" for i
    using that unsigned_less [of "hi s", where ?'a = nat] by (intro unat_of_nat_small) simp
  then show ?thesis by (auto simp: numbered_span_def answer_def sample_container_def intro!: map_idI)
qed

lemma spanAt_simps:
  assumes "k \<le> 24"
  shows "unat (lo (spanAt k)) = 4096 * k + 1" and "unat (hi (spanAt k)) = min (4096 * k + 4096) 100000"
  unfolding spanAt_def span.select_convs by (rule unat_of_nat_small; use assms in simp)+

lemma spanned_filled:
  assumes "k \<le> 25"
  shows "spanned (pending (filled k)) 1 = (pending (filled k), None)"
proof -
  have "\<not> lo (spanAt i) \<le> 1" "\<not> hi (spanAt i) < 1" if "1 \<le> i" "i < k" for i
    using spanAt_simps [of i] that assms by (auto simp: word_le_nat_alt word_less_nat_alt)
  then have A: "\<forall>r \<in> set (pending (filled k)). \<not> lo (sr_span r) \<le> 1 \<and> \<not> hi (sr_span r) < 1"
    by (auto simp: filled_def answer_def)
  then show ?thesis by (auto simp: spanned_def find_None_iff filter_id_conv)
qed

lemma drain_idle: "spanned (pending f) (head (fq f) + 1) = (pending f, None) \<Longrightarrow> drain f = f"
  by (subst drain.simps) simp

lemma filled_turn:
  assumes "1 \<le> k" and "k \<le> 24"
  shows "turn 200000 (filled k) = (filled k)\<lparr>outJob := Some (spanAt k), nextH := of_nat (min (4096 * (k + 1) + 1) 100001)\<rparr>"
proof -
  let ?f = "filled k"
  have d: "drain ?f = ?f" using spanned_filled [of k] assms by (intro drain_idle) (simp add: filled_def newQueue_def)
  have n: "unat (nextH ?f) = 4096 * k + 1" 
    unfolding filled_def fwd.select_convs by (subst unat_of_nat_small) (use assms in simp_all)
  have q: "head (fq ?f) = 0" "consumed (fq ?f) = 0" "qbytes (fq ?f) = 0" by (simp_all add: filled_def newQueue_def)
  have g: "fillRule ?f = ?f"
    using n q assms by (simp add: fillRule_def Let_def RefillBelow_def WindowBlocks_def word_less_nat_alt word_le_nat_alt)
      (simp add: filled_def)
  have t: "windowTarget 200000 (fq ?f) = 100000" by (simp add: windowTarget_def q WindowBlocks_def)
  have h: "min (nextH ?f + spanBlocks - 1) 100000 = hi (spanAt k)"
  proof -
    have "unat (nextH ?f + spanBlocks - 1) = 4096 * k + 4096"
      using n assms by (simp add: spanBlocks_def unat_word_ariths)
    then show ?thesis using spanAt_simps(2) [OF assms(2)] by (simp add: min_def word_le_nat_alt word_unat_eq_iff)
  qed
  have l: "nextH ?f = lo (spanAt k)" using n spanAt_simps(1) [OF assms(2)] by (simp add: word_unat_eq_iff)
  have next': "hi (spanAt k) + 1 = of_nat (min (4096 * (k + 1) + 1) 100001)"
    using assms by (auto simp: spanAt_def min_def)
  have "pickJob 100000 ?f = ?f\<lparr>outJob := Some (spanAt k), nextH := of_nat (min (4096 * (k + 1) + 1) 100001)\<rparr>"
  proof -
    have "outJob ?f = None" "filling ?f" "redo ?f = []" "length (inflight ?f) = 1" by (simp_all add: filled_def)
    moreover have "nextH ?f \<le> 100000" using n assms by (simp add: word_le_nat_alt)
    moreover have "\<lparr>lo = nextH ?f, hi = hi (spanAt k)\<rparr> = spanAt k" using l by simp
    ultimately show ?thesis
      using q(3) by (simp add: pickJob_def Let_def h next' queueMaxBytes_def fetchSpans_def)
  qed
  then show ?thesis by (simp add: turn_def Let_def d g t)
qed

lemma filled_step:
  assumes "1 \<le> k" and "k \<le> 24"
  shows "takeResult (answer [7] (spanAt k)) (handOut (turn 200000 (filled k))) = filled (k + 1)"
proof -
  have ne: "lo (spanAt i) \<noteq> lo (spanAt k)" if "i < k" for i
    using spanAt_simps [of i] spanAt_simps [of k] that assms by (auto simp: word_unat_eq_iff)
  have "filter (\<lambda>r. lo (sr_span r) \<noteq> lo (spanAt k)) (map (answer [7] \<circ> spanAt) [1..<k]) = map (answer [7] \<circ> spanAt) [1..<k]"
    using ne by (auto simp: filter_id_conv)
  moreover have "spanAt 0 \<noteq> spanAt k" using ne [of 0] assms by auto
  ultimately show ?thesis using assms
    unfolding filled_turn [OF assms] handOut_def takeResult_def by (simp add: filled_def pend_set_def)
qed

lemma filled_reach: "1 \<le> k \<Longrightarrow> k \<le> 25 \<Longrightarrow> fwd_reach 1 [0] (filled k)"
proof (induction k rule: nat_induct_at_least)
  case base
  have "handOut (turn 200000 (newFwd (newQueue 1 [0]))) = filled 1"
    by code_simp
  moreover have "fwd_reach 1 [0] (handOut (turn 200000 (newFwd (newQueue 1 [0]))))"
    by (intro fwd_reach.intros) simp
  ultimately show ?case by simp
next
  case (Suc k)
  have "fwd_reach 1 [0] (handOut (turn 200000 (filled k)))"
    using Suc by (intro fwd_reach.handed fwd_reach.turned) simp_all
  then have "fwd_reach 1 [0] (takeResult (answer [7] (spanAt k)) (handOut (turn 200000 (filled k))))"
    by (rule fwd_reach.arrived) (use Suc in \<open>simp_all add: answer_numbered filled_turn handOut_def\<close>)
  then show ?case using filled_step [of k] Suc by simp
qed


definition starved :: fwd where
  "starved = (filled 25)\<lparr>inflight := [], redo := [spanAt 0], filling := False\<rparr>"

lemma starved_frame:
  "pending starved = pending (filled 25)" "fq starved = newQueue 1 [0]" "nextH starved = 100001" "outJob starved = None"
  "filling starved = False" "redo starved = [spanAt 0]" "inflight starved = []"
  by (simp_all add: starved_def filled_def)

lemma starved_turn: "turn tip starved = starved"
proof -
  have d: "drain starved = starved"
    using spanned_filled [of 25] by (intro drain_idle) (simp add: starved_frame newQueue_def)
  have "fillRule starved = starved"
    by (simp add: fillRule_def Let_def starved_frame newQueue_def WindowBlocks_def)
  then show ?thesis by (simp add: turn_def d pickJob_def starved_frame)
qed

lemma joinSpan_broken:
  assumes "lo s = head q + 1" and "head q < lo s" and "lo s \<le> hi s" and "p \<noteq> headHash q"
  shows "joinSpan (answer p s) q = (q, Some (lo s))"
proof -
  have "[unat (lo s)..<Suc (unat (hi s))] = unat (lo s) # [Suc (unat (lo s))..<Suc (unat (hi s))]"
    using assms(3) by (simp add: upt_conv_Cons word_le_nat_alt del: upt_Suc)
  then show ?thesis
    using assms by (simp add: joinSpan_def answer_def Append_def sample_container_def not_le del: upt_Suc)
qed

lemma starved_reach: "fwd_reach 1 [0] starved"
proof -
  let ?r = "answer [9] (spanAt 0)" and ?f = "filled 25"
  have "fwd_reach 1 [0] (takeResult ?r ?f)"
    by (rule fwd_reach.arrived [OF filled_reach]) (simp_all add: answer_numbered, simp add: filled_def)
  then have "fwd_reach 1 [0] (turn 200000 (takeResult ?r ?f))" by (rule fwd_reach.turned) simp
  moreover have "turn 200000 (takeResult ?r ?f) = starved"
  proof -
    have s0: "lo (spanAt 0) = 1" "hi (spanAt 0) = 4096" by (simp_all add: spanAt_def)
    have ne: "lo (sr_span r) \<noteq> 1 \<and> \<not> hi (sr_span r) < 1" if "r \<in> set (pending ?f)" for r
      using spanned_filled [of 25] that by (auto simp: spanned_def find_None_iff filter_id_conv)
    define g where "g = ?f\<lparr>inflight := [], redo := [spanAt 0]\<rparr>"
    have t: "takeResult ?r ?f = ?f\<lparr>inflight := [], pending := pending ?f @ [?r]\<rparr>"
      using ne s0 by (simp add: takeResult_def pend_set_def filter_id_conv) (simp add: filled_def)
    have q: "fq ?f = newQueue 1 [0]" "redo ?f = []" by (simp_all add: filled_def)
    have hd: "head (newQueue 1 [0]) = 0" by (simp add: newQueue_def)
    have fqid: "?f\<lparr>inflight := x, fq := newQueue 1 [0], redo := y\<rparr> = ?f\<lparr>inflight := x, redo := y\<rparr>" for x y
      by (simp add: filled_def)
    have sp: "spanned (pending ?f @ [?r]) 1 = (pending ?f @ [?r], Some ?r)"
      using ne s0 by (auto simp: spanned_def filter_id_conv)
    have j: "joinSpan ?r (newQueue 1 [0]) = (newQueue 1 [0], Some 1)"
      using joinSpan_broken [of "spanAt 0" "newQueue 1 [0]" "[9]"] by (simp add: s0 newQueue_def)
    have "pend_delete 1 (pending ?f @ [?r]) = pending ?f"
      using ne s0 by (auto simp: pend_delete_def filter_id_conv)
    moreover have "drain g = g"
      using spanned_filled [of 25] by (intro drain_idle) (simp add: g_def q newQueue_def)
    ultimately have "drain (takeResult ?r ?f) = g"
      unfolding t using sp j by (subst drain.simps) (simp add: q g_def hd spanAt_def fqid)
    moreover have "fillRule g = starved"
      by (simp add: fillRule_def Let_def g_def starved_def filled_def newQueue_def WindowBlocks_def)
    ultimately show ?thesis by (simp add: turn_def pickJob_def starved_frame)
  qed
  ultimately show ?thesis by simp
qed

text \<open>
  C26. A broken link can stop the fetch for good: with the whole window scheduled, a span whose first
  container does not link goes to \<open>redo\<close> and is never handed out again, because the window rule keeps
  \<open>filling\<close> off.  No pass of the loop changes that state, whatever the tip; no worker is busy, and the
  executor waits for the block after the head.
\<close>

theorem broken_link_starves:
  "\<exists>f. fwd_reach 1 [0] f \<and> redo f \<noteq> [] \<and> inflight f = [] \<and> outJob f = None \<and>
    (\<forall>tip. turn tip f = f) \<and> handOut f = f \<and> head (fq f) = consumed (fq f) \<and>
    GetByHeight (head (fq f) + 1) (fq f) = Some (fq f, Wait)"
  using starved_reach starved_turn
  by (intro exI [of _ starved]) (simp add: starved_frame handOut_def newQueue_def GetByHeight_def)


section \<open>Instances\<close>

theorem fetchSpan_chained_witness:
  "\<exists>r. fetchSpan forked (Some ([[5], [1]], [5])) [] \<lparr>lo = 1, hi = 5\<rparr> = Some r \<and>
    length (sr_blocks r) = 2 \<and> chained [5] (rev (sr_blocks r))"
proof -
  define r where "r = the (fetchSpan forked (Some ([[5], [1]], [5])) [] \<lparr>lo = 1, hi = 5\<rparr>)"
  have "fetchSpan forked (Some ([[5], [1]], [5])) [] \<lparr>lo = 1, hi = 5\<rparr> = Some r" "length (sr_blocks r) = 2"
    unfolding r_def by code_simp+
  then show ?thesis using fetchSpan_chained [of forked "[[5], [1]]" "[5]" "[]" "\<lparr>lo = 1, hi = 5\<rparr>" r] by blast
qed


end
