(* ===== verification/Dist.thy ===== *)
theory Dist
  imports Text "HOL-Library.AList"
begin

text \<open>
  The artifact layer, \<^verbatim>\<open>src/dist/dist.go\<close> and \<^verbatim>\<open>src/dist/upstream.go\<close>: content-addressed files in a
  spool, in a local-only directory and, through the library \<^verbatim>\<open>casfs\<close>, in a bucket; the mutable
  pointers beside them; and the retry of upstream calls.  \<^verbatim>\<open>casfs\<close> is the record \<open>cas_lib\<close> over an
  arbitrary remote state, with its documented behaviour as \<open>cas_laws\<close>.
\<close>

section \<open>The library\<close>

type_synonym files = "(string \<times> bytes) list"

record 'r cas_lib =
  h_Finish :: "bytes \<Rightarrow> string \<times> bytes"            \<comment> \<open>\<open>Hasher.Finish\<close> after writing the content: name and tail\<close>
  ReadTail :: "bytes \<Rightarrow> nat option"                 \<comment> \<open>\<open>casfs.ReadTail\<close>: the logical length of a sealed file\<close>
  cas_Open :: "'r \<Rightarrow> files \<Rightarrow> string \<Rightarrow> bytes option"  \<comment> \<open>\<open>Store.Open\<close> over the remote state and the spool\<close>
  cas_Sync :: "'r \<Rightarrow> files \<Rightarrow> 'r \<times> string list \<times> bool" \<comment> \<open>\<open>Store.Sync\<close>: what the bucket now confirms, and whether it failed\<close>
  cas_Release :: "'r \<Rightarrow> files \<Rightarrow> string \<Rightarrow> bool"      \<comment> \<open>whether \<open>Store.Release\<close> unlinked the local copy\<close>
  cas_GetPointer :: "'r \<Rightarrow> string \<Rightarrow> string option"

abbreviation cas_name :: "'r cas_lib \<Rightarrow> bytes \<Rightarrow> string" where
  "cas_name L c \<equiv> fst (h_Finish L c)"

abbreviation sealed :: "'r cas_lib \<Rightarrow> bytes \<Rightarrow> bytes" where
  "sealed L c \<equiv> c @ snd (h_Finish L c)"

section \<open>Names\<close>

definition ValidHash :: "string \<Rightarrow> bool" where
  "ValidHash s = (length s = 64 \<and> list_all is_hex s)"

definition LatestPointer :: "bytes \<Rightarrow> string" where
  "LatestPointer chainRoot = ''latest-'' @ hex_EncodeToString chainRoot"

section \<open>The store\<close>

record 'r Store =
  spool :: files
  localDir :: files
  cas :: "'r option"                          \<comment> \<open>\<open>None\<close>: no credentials\<close>
  pointers :: "(string \<times> string) list"       \<comment> \<open>the files of \<open>pointerPath\<close>\<close>
  spoolPointers :: "(string \<times> string) list"  \<comment> \<open>what waits for the next \<open>Sync\<close>\<close>

definition Local :: "'r Store" where
  "Local = \<lparr>spool = [], localDir = [], cas = None, pointers = [], spoolPointers = []\<rparr>"

text \<open>\<^verbatim>\<open>os.ReadDir\<close> sorts by name; the result is the file found, by its name in the directory.\<close>

definition LocalPath :: "string \<Rightarrow> 'r Store \<Rightarrow> (string \<times> bytes) option" where
  "LocalPath hash st =
     (if \<not> ValidHash hash then None
      else find (\<lambda>e. HasSuffix (fst e) hash) (sort_key fst (localDir st)))"

definition seal :: "'r cas_lib \<Rightarrow> bytes \<Rightarrow> bytes \<Rightarrow> string \<times> bytes" where
  "seal L content h = (case h_Finish L h of (name, trailer) \<Rightarrow> (name, content @ trailer))"

definition AdoptLocal :: "'r cas_lib \<Rightarrow> bytes \<Rightarrow> string \<Rightarrow> bytes \<Rightarrow> 'r Store \<Rightarrow> string \<times> 'r Store" where
  "AdoptLocal L content label h st =
     (case seal L content h of
        (name, f) \<Rightarrow> (name, st\<lparr>localDir := AList.update (label @ ''-'' @ name) f (localDir st)\<rparr>))"

definition DropLocal :: "string \<Rightarrow> 'r Store \<Rightarrow> 'r Store" where
  "DropLocal hash st =
     (case LocalPath hash st of
        None \<Rightarrow> st
      | Some (n, _) \<Rightarrow> st\<lparr>localDir := AList.delete n (localDir st)\<rparr>)"

definition Adopt :: "'r cas_lib \<Rightarrow> bytes \<Rightarrow> bytes \<Rightarrow> 'r Store \<Rightarrow> string \<times> 'r Store" where
  "Adopt L content h st =
     (case seal L content h of (name, f) \<Rightarrow> (name, st\<lparr>spool := AList.update name f (spool st)\<rparr>))"

definition Put :: "'r cas_lib \<Rightarrow> bytes \<Rightarrow> 'r Store \<Rightarrow> string \<times> 'r Store" where
  "Put L b st =
     (case h_Finish L b of (name, trailer) \<Rightarrow> (name, st\<lparr>spool := AList.update name (b @ trailer) (spool st)\<rparr>))"

fun releaseAll :: "'r cas_lib \<Rightarrow> 'r \<Rightarrow> string list \<Rightarrow> files \<Rightarrow> files \<times> string list" where
  "releaseAll L r [] sp = (sp, [])"
| "releaseAll L r (h # hs) sp =
     (if cas_Release L r sp h
      then (case releaseAll L r hs (AList.delete h sp) of (sp', rel) \<Rightarrow> (sp', h # rel))
      else releaseAll L r hs sp)"

definition Sync :: "'r cas_lib \<Rightarrow> 'r Store \<Rightarrow> 'r Store \<times> string list" where
  "Sync L st =
     (case cas st of
        None \<Rightarrow> (st, [])
      | Some r \<Rightarrow>
          (case cas_Sync L r (spool st) of
             (r', dn, failed) \<Rightarrow>
               (case releaseAll L r' dn (spool st) of
                  (sp, released) \<Rightarrow> (st\<lparr>cas := Some r', spool := sp\<rparr>, released))))"

section \<open>Reading\<close>

definition mmapArtifact :: "'r cas_lib \<Rightarrow> bytes \<Rightarrow> bytes res" where
  "mmapArtifact L f =
     (case ReadTail L f of
        None \<Rightarrow> Inl (Errorf ''read tail'')
      | Some n \<Rightarrow> if n = 0 then Inr [] else Inr (take n f))"

definition Open :: "'r cas_lib \<Rightarrow> string \<Rightarrow> 'r Store \<Rightarrow> bytes res" where
  "Open L hash st =
     (case LocalPath hash st of
        Some (_, f) \<Rightarrow> mmapArtifact L f
      | None \<Rightarrow>
          (case cas st of
             None \<Rightarrow>
               (case map_of (spool st) hash of None \<Rightarrow> Inl (Errorf ''dist: open'') | Some f \<Rightarrow> mmapArtifact L f)
           | Some r \<Rightarrow>
               (case cas_Open L r (spool st) hash of None \<Rightarrow> Inl (Errorf ''casfs: open'') | Some c \<Rightarrow> Inr c)))"

text \<open>A blob is its content; \<open>bounds\<close> compares without adding, so it cannot wrap.\<close>

definition bounds :: "bytes \<Rightarrow> u64 \<Rightarrow> u64 \<Rightarrow> bool" where
  "bounds b off n = (let size = of_nat (length b) in \<not> (off > size \<or> n > size - off))"

definition blob_Read :: "bytes \<Rightarrow> u64 \<Rightarrow> u64 \<Rightarrow> bytes res" where
  "blob_Read b off n =
     (if \<not> bounds b off n then Inl (Errorf ''dist: range outside artifact'')
      else if n = 0 then Inr []
      else Inr (take (unat n) (drop (unat off) b)))"

section \<open>Pointers\<close>

definition encodeLatest :: "string \<Rightarrow> string" where
  "encodeLatest manifest = (if manifest \<noteq> '''' then ''manifest '' @ manifest @ [CHR 0x0A] else '''')"

fun latestLines :: "string list \<Rightarrow> string \<Rightarrow> string res" where
  "latestLines [] l = Inr l"
| "latestLines (line # ls) l =
     (case Fields line of
        [] \<Rightarrow> latestLines ls l
      | [k, v] \<Rightarrow>
          if \<not> ValidHash v then Inl (Errorf ''dist: bad latest pointer line'')
          else if k = ''manifest'' then latestLines ls v
          else Inl (Errorf ''dist: unknown latest pointer field'')
      | _ \<Rightarrow> Inl (Errorf ''dist: bad latest pointer line''))"

definition decodeLatest :: "string \<Rightarrow> string res" where
  "decodeLatest s =
     (if TrimSpace s = '''' then Inl (Errorf ''dist: latest pointer is empty'')
      else latestLines (Split (CHR 0x0A) (TrimSpace s)) '''')"

definition SetPointer :: "string \<Rightarrow> string \<Rightarrow> 'r Store \<Rightarrow> 'r Store" where
  "SetPointer name value st =
     st\<lparr>pointers := AList.update name value (pointers st), spoolPointers := AList.update name value (spoolPointers st)\<rparr>"

definition GetPointer :: "'r cas_lib \<Rightarrow> string \<Rightarrow> 'r Store \<Rightarrow> string res" where
  "GetPointer L name st =
     (case map_of (pointers st) name of
        Some v \<Rightarrow> Inr v
      | None \<Rightarrow>
          (case cas st of
             None \<Rightarrow> Inl (Errorf ''not exist'')
           | Some r \<Rightarrow> (case cas_GetPointer L r name of None \<Rightarrow> Inl (Errorf ''not exist'') | Some v \<Rightarrow> Inr v)))"

definition SetLatest :: "bytes \<Rightarrow> string \<Rightarrow> 'r Store \<Rightarrow> 'r Store" where
  "SetLatest chainRoot manifest st = SetPointer (LatestPointer chainRoot) (encodeLatest manifest) st"

definition Latest :: "'r cas_lib \<Rightarrow> bytes \<Rightarrow> 'r Store \<Rightarrow> string res" where
  "Latest L chainRoot st =
     (case GetPointer L (LatestPointer chainRoot) st of Inl e \<Rightarrow> Inl e | Inr v \<Rightarrow> decodeLatest v)"

section \<open>Upstream calls\<close>

definition upstreamRounds :: nat where "upstreamRounds = 9"

text \<open>One round over the sources: the first that succeeds ends it.  \<open>fn\<close> tells whether a call succeeds.\<close>

definition tryRound :: "('s \<Rightarrow> bool) \<Rightarrow> 's list \<Rightarrow> 's option" where
  "tryRound fn sources = find fn sources"

text \<open>
  The rounds: \<open>fn i\<close> is the call in round \<open>i\<close>, \<open>ended i\<close> whether the context ends during the wait after
  it.  The result is the source that answered, with the number of calls made.
\<close>

function tryLoop :: "(nat \<Rightarrow> 's \<Rightarrow> bool) \<Rightarrow> (nat \<Rightarrow> bool) \<Rightarrow> 's list \<Rightarrow> nat \<Rightarrow> 's res" where
  "tryLoop fn ended sources round =
     (case tryRound (fn round) sources of
        Some s \<Rightarrow> Inr s
      | None \<Rightarrow>
          if round \<ge> upstreamRounds - 1 then Inl (Errorf ''gave up'')
          else if ended round then Inl (Errorf ''context ended'')
          else tryLoop fn ended sources (round + 1))"
  by pat_completeness auto
termination
  by (relation "measure (\<lambda>(fn, ended, sources, round). upstreamRounds - round)") (auto simp: upstreamRounds_def)

declare tryLoop.simps [simp del]

definition Try :: "(nat \<Rightarrow> 's \<Rightarrow> bool) \<Rightarrow> (nat \<Rightarrow> bool) \<Rightarrow> 's list \<Rightarrow> 's res" where
  "Try fn ended sources =
     (if sources = [] then Inl (Errorf ''no upstream source configured'') else tryLoop fn ended sources 0)"

definition Sources :: "string \<Rightarrow> string list" where
  "Sources list = filter (\<lambda>s. s \<noteq> '''') (map TrimSpace (Split (CHR '','') list))"

text \<open>\<open>rnd\<close> is what \<^verbatim>\<open>rand.N(d/2)\<close> returned; durations are in nanoseconds.\<close>

definition Jitter :: "int \<Rightarrow> int \<Rightarrow> int" where
  "Jitter d rnd = d - d div 4 + rnd"

section \<open>Documented behaviour of casfs\<close>

text \<open>
  A sealed file knows its logical length; names are hexadecimal hashes; an artifact whose sealed file is
  in the spool is served; whatever is served hashes to its name; only the spool file of that name
  matters for it; and an artifact that was served before a \<open>Sync\<close> is served after it, from its unchanged
  spool file or, when the bucket confirmed it, without.
\<close>

definition cas_laws :: "'r cas_lib \<Rightarrow> bool" where
  "cas_laws L = (
     (\<forall>c. ReadTail L (sealed L c) = Some (length c)) \<and> (\<forall>c. ValidHash (cas_name L c)) \<and>
     (\<forall>r sp c. map_of sp (cas_name L c) = Some (sealed L c) \<longrightarrow> cas_Open L r sp (cas_name L c) = Some c) \<and>
     (\<forall>r sp h c. cas_Open L r sp h = Some c \<longrightarrow> cas_name L c = h) \<and>
     (\<forall>r sp sp' h. map_of sp h = map_of sp' h \<longrightarrow> cas_Open L r sp h = cas_Open L r sp' h) \<and>
     (\<forall>r sp r' dn failed h c. cas_Sync L r sp = (r', dn, failed) \<longrightarrow> cas_Open L r sp h = Some c \<longrightarrow>
        (\<forall>sp'. h \<in> set dn \<and> map_of sp' h = None \<or> map_of sp' h = map_of sp h \<longrightarrow> cas_Open L r' sp' h = Some c)))"

lemma cas_lawsD:
  assumes "cas_laws L"
  shows "ReadTail L (sealed L c) = Some (length c)" and "ValidHash (cas_name L c)"
    and "map_of sp (cas_name L c) = Some (sealed L c) \<Longrightarrow> cas_Open L r sp (cas_name L c) = Some c"
    and "cas_Open L r sp h = Some c \<Longrightarrow> cas_name L c = h"
    and "cas_Sync L r sp = (r', dn, failed) \<Longrightarrow> cas_Open L r sp h = Some c \<Longrightarrow>
      h \<in> set dn \<and> map_of sp' h = None \<or> map_of sp' h = map_of sp h \<Longrightarrow> cas_Open L r' sp' h = Some c"
    and "map_of sp h = map_of sp' h \<Longrightarrow> cas_Open L r sp h = cas_Open L r sp' h"
  using assms unfolding cas_laws_def by blast+

section \<open>Every file is what its name says\<close>

definition store_ok :: "'r cas_lib \<Rightarrow> 'r Store \<Rightarrow> bool" where
  "store_ok L st = (
     (\<forall>(n, f) \<in> set (localDir st). \<exists>label c. n = label @ ''-'' @ cas_name L c \<and> f = sealed L c) \<and>
     (\<forall>(n, f) \<in> set (spool st). \<exists>c. n = cas_name L c \<and> f = sealed L c))"

lemma mmap_sealed: "cas_laws L \<Longrightarrow> mmapArtifact L (sealed L c) = Inr c"
  by (simp add: mmapArtifact_def cas_lawsD)

lemma HasSuffix_name:
  assumes "ValidHash h" and "ValidHash h'"
  shows "HasSuffix (label @ ''-'' @ h') h \<longleftrightarrow> h' = h"
  using assms by (auto simp: HasSuffix_def ValidHash_def)

lemma LocalPath_Some:
  assumes "LocalPath h st = Some (n, f)" and "store_ok L st" and "cas_laws L"
  shows "\<exists>c label. (n, f) \<in> set (localDir st) \<and> n = label @ ''-'' @ h \<and> cas_name L c = h \<and> f = sealed L c"
proof -
  have h: "ValidHash h" "find (\<lambda>e. HasSuffix (fst e) h) (sort_key fst (localDir st)) = Some (n, f)"
    using assms(1) by (simp_all add: LocalPath_def split: if_splits)
  have e: "(n, f) \<in> set (localDir st)" "HasSuffix n h"
    using find_SomeD [OF h(2)] by simp_all
  then obtain label c where c: "n = label @ ''-'' @ cas_name L c" "f = sealed L c"
    using assms(2) unfolding store_ok_def by blast
  then have "cas_name L c = h" using e(2) HasSuffix_name [OF h(1) cas_lawsD(2) [OF assms(3)]] by simp
  then show ?thesis using c e by blast
qed

lemma LocalPath_None:
  "LocalPath h st = None \<longleftrightarrow> (ValidHash h \<longrightarrow> (\<forall>e \<in> set (localDir st). \<not> HasSuffix (fst e) h))"
  by (auto simp: LocalPath_def find_None_iff)

lemma map_of_store: "store_ok L st \<Longrightarrow> map_of (spool st) h = Some f \<Longrightarrow> \<exists>c. h = cas_name L c \<and> f = sealed L c"
  unfolding store_ok_def using map_of_SomeD by fastforce

lemma Open_sound:
  assumes "Open L h st = Inr b" and "store_ok L st" and "cas_laws L"
  shows "cas_name L b = h"
proof (cases "LocalPath h st")
  case (Some e)
  then obtain n f where e: "LocalPath h st = Some (n, f)" by (cases e) simp
  then show ?thesis using LocalPath_Some [OF e assms(2,3)] assms(1,3) by (auto simp: Open_def mmap_sealed)
next
  case None
  then show ?thesis
    using assms cas_lawsD(4) [OF assms(3)] map_of_store [OF assms(2), of h]
    by (auto simp: Open_def mmap_sealed split: option.splits)
qed


section \<open>Stored artifacts stay readable\<close>

datatype store_op =
    OPut bytes | OAdopt bytes | OAdoptLocal bytes string | ODrop string | OSync | OPointer string string

text \<open>A producer hashes what it writes, so the content on disk and the hasher's agree.\<close>

fun apply_op :: "'r cas_lib \<Rightarrow> store_op \<Rightarrow> 'r Store \<Rightarrow> 'r Store" where
  "apply_op L (OPut b) st = snd (Put L b st)"
| "apply_op L (OAdopt b) st = snd (Adopt L b b st)"
| "apply_op L (OAdoptLocal b label) st = snd (AdoptLocal L b label b st)"
| "apply_op L (ODrop h) st = DropLocal h st"
| "apply_op L OSync st = fst (Sync L st)"
| "apply_op L (OPointer n v) st = SetPointer n v st"

fun stores :: "bytes \<Rightarrow> store_op \<Rightarrow> bool" where
  "stores b (OPut c) = (c = b)"
| "stores b (OAdopt c) = (c = b)"
| "stores b (OAdoptLocal c label) = (c = b)"
| "stores b _ = False"

lemma set_delete_pairs: "set (AList.delete k al) \<subseteq> set al"
  by (auto simp: AList.delete_eq)

lemma update_pairsD: "(n, f) \<in> set (AList.update k v al) \<Longrightarrow> n = k \<and> f = v \<or> (n, f) \<in> set al"
  by (induction al) (auto split: if_splits)

lemma releaseAll_spool:
  "releaseAll L r dn sp = (sp', rel) \<Longrightarrow>
    set sp' \<subseteq> set sp \<and> set rel \<subseteq> set dn \<and> (\<forall>h. map_of sp' h = (if h \<in> set rel then None else map_of sp h))"
proof (induction dn arbitrary: sp sp' rel)
  case (Cons d dn)
  show ?case
  proof (cases "cas_Release L r sp d")
    case True
    then obtain rel' where r: "releaseAll L r dn (AList.delete d sp) = (sp', rel')" "rel = d # rel'"
      using Cons.prems by (auto split: prod.splits)
    then show ?thesis
      using Cons.IH [OF r(1)] set_delete_pairs [of d sp] by (auto simp: delete_conv')
  next
    case False
    then show ?thesis using Cons by auto
  qed
qed auto

lemma Sync_frame:
  assumes "Sync L st = (st', rel)"
  shows "localDir st' = localDir st" and "set (spool st') \<subseteq> set (spool st)"
  using assms releaseAll_spool by (fastforce simp: Sync_def split: option.splits prod.splits)+

lemma apply_op_frame:
  "localDir (apply_op L (OPut b) st) = localDir st" "spool (apply_op L (OPut b) st) = AList.update (cas_name L b) (sealed L b) (spool st)"
  "localDir (apply_op L (OAdopt b) st) = localDir st" "spool (apply_op L (OAdopt b) st) = AList.update (cas_name L b) (sealed L b) (spool st)"
  "spool (apply_op L (OAdoptLocal b label) st) = spool st"
  "localDir (apply_op L (OAdoptLocal b label) st) = AList.update (label @ ''-'' @ cas_name L b) (sealed L b) (localDir st)"
  "spool (apply_op L (ODrop h) st) = spool st" "set (localDir (apply_op L (ODrop h) st)) \<subseteq> set (localDir st)"
  "op \<noteq> OSync \<Longrightarrow> cas (apply_op L op st) = cas st"
  using set_delete_pairs
  by (cases op; fastforce simp: Put_def Adopt_def AdoptLocal_def seal_def DropLocal_def SetPointer_def split: prod.splits option.splits)+

lemma apply_op_ok:
  assumes "store_ok L st"
  shows "store_ok L (apply_op L op st)"
proof -
  have sp: "\<exists>c. n = cas_name L c \<and> f = sealed L c" if "(n, f) \<in> set (spool (apply_op L op st))" for n f
  proof -
    have "(n, f) \<in> set (spool st) \<or> (\<exists>c. n = cas_name L c \<and> f = sealed L c)"
      using that Sync_frame(2) [of L st "fst (Sync L st)" "snd (Sync L st)"]
      by (cases op) (auto simp: apply_op_frame SetPointer_def simp del: apply_op.simps(1-4) dest: update_pairsD)
    then show ?thesis using assms unfolding store_ok_def by blast
  qed
  have lo: "\<exists>label c. n = label @ ''-'' @ cas_name L c \<and> f = sealed L c" if "(n, f) \<in> set (localDir (apply_op L op st))" for n f
  proof -
    have "(n, f) \<in> set (localDir st) \<or> (\<exists>label c. n = label @ ''-'' @ cas_name L c \<and> f = sealed L c)"
      using that Sync_frame(1) [of L st "fst (Sync L st)" "snd (Sync L st)"] apply_op_frame(8) [of L _ st]
      by (cases op) (auto simp: apply_op_frame(1-7) SetPointer_def simp del: apply_op.simps(1-4) dest: update_pairsD)
    then show ?thesis using assms unfolding store_ok_def by blast
  qed
  show ?thesis unfolding store_ok_def using sp lo by blast
qed


lemma find_sorted_exists:
  "(\<exists>e \<in> set xs. P e) \<Longrightarrow> \<exists>e. find P (sort_key k xs) = Some e"
  by (metis find_None_iff not_None_eq set_sort)

lemma Open_local:
  assumes "e \<in> set (localDir st)" and "HasSuffix (fst e) h" and "ValidHash h" and "store_ok L st" and "cas_laws L"
  shows "\<exists>b. Open L h st = Inr b"
proof -
  obtain n f where e: "LocalPath h st = Some (n, f)"
    using find_sorted_exists [of "localDir st" "\<lambda>e. HasSuffix (fst e) h" fst] assms(1-3)
    by (auto simp: LocalPath_def)
  show ?thesis using LocalPath_Some [OF e assms(4,5)] e assms(5) by (auto simp: Open_def mmap_sealed)
qed

lemma Open_spool:
  assumes "LocalPath h st = None" and "map_of (spool st) h = Some f" and "store_ok L st" and "cas_laws L"
  shows "\<exists>b. Open L h st = Inr b"
proof -
  obtain c where "h = cas_name L c" "f = sealed L c" using map_of_store [OF assms(3,2)] by blast
  then show ?thesis
    using assms cas_lawsD(3) [OF assms(4), of "spool st" c] by (auto simp: Open_def mmap_sealed split: option.splits)
qed

lemma LocalPath_frame: "localDir st = localDir st' \<Longrightarrow> LocalPath h st = LocalPath h st'"
  by (simp add: LocalPath_def)

lemma update_keeps: "(n, f) \<in> set al \<Longrightarrow> \<exists>f'. (n, f') \<in> set (AList.update k v al)"
  by (induction al) auto

lemma Open_synced:
  assumes o: "Open L h st = Inr b" and loc: "LocalPath h st = None" and L: "cas_laws L"
  shows "Open L h (fst (Sync L st)) = Inr b"
proof (cases "cas st")
  case None
  then show ?thesis using o by (simp add: Sync_def)
next
  case (Some r)
  obtain r' dn failed where s: "cas_Sync L r (spool st) = (r', dn, failed)" by (metis prod_cases3)
  obtain sp rel where rl: "releaseAll L r' dn (spool st) = (sp, rel)" by fastforce
  have st: "fst (Sync L st) = st\<lparr>cas := Some r', spool := sp\<rparr>" by (simp add: Sync_def Some s rl)
  have "cas_Open L r (spool st) h = Some b" using o loc Some by (auto simp: Open_def split: option.splits)
  then have "cas_Open L r' sp h = Some b"
    using releaseAll_spool [OF rl] by (intro cas_lawsD(5) [OF L s]) auto
  moreover have "LocalPath h (st\<lparr>cas := Some r', spool := sp\<rparr>) = None" using loc by (simp add: LocalPath_def split: if_splits)
  ultimately show ?thesis by (simp add: st Open_def)
qed

lemma Open_kept:
  assumes o: "Open L h st = Inr b" and ok: "store_ok L st" and L: "cas_laws L" and d: "op \<noteq> ODrop h"
  shows "\<exists>b'. Open L h (apply_op L op st) = Inr b'"
proof -
  let ?st = "apply_op L op st"
  note ok' = apply_op_ok [OF ok, of op]
  have h: "ValidHash h" using Open_sound [OF o ok L] cas_lawsD(2) [OF L] by blast
  show ?thesis
  proof (cases "LocalPath h st")
    case (Some e)
    then obtain n f c label where n: "(n, f) \<in> set (localDir st)" "n = label @ ''-'' @ h" "cas_name L c = h" "f = sealed L c"
      using LocalPath_Some [of h st _ _ L] ok L by (cases e) blast
    have suf: "HasSuffix n h" using n h HasSuffix_name by auto
    have "\<exists>e \<in> set (localDir ?st). HasSuffix (fst e) h"
    proof (cases "\<exists>h'. op = ODrop h'")
      case True
      then obtain h' where op: "op = ODrop h'" "h' \<noteq> h" using d by blast
      show ?thesis
      proof (cases "LocalPath h' st")
        case e': (Some e')
        obtain n' f' where n1: "e' = (n', f')" by fastforce
        obtain c' label' where n2: "n' = label' @ ''-'' @ h'" "cas_name L c' = h'"
          using LocalPath_Some [OF e' [unfolded n1] ok L] by blast
        then have n': "e' = (n', f')" "n' = label' @ ''-'' @ h'" "ValidHash h'"
          using n1 cas_lawsD(2) [OF L, of c'] by simp_all
        have "n \<noteq> n'" using suf n'(2) HasSuffix_name [OF h n'(3), of label'] op(2) by auto
        then show ?thesis using n suf e' n'(1) by (auto simp: op DropLocal_def AList.delete_eq intro!: bexI [of _ "(n, f)"])
      qed (use n(1) suf in \<open>force simp: op DropLocal_def\<close>)
    next
      case False
      then have "\<exists>f'. (n, f') \<in> set (localDir ?st)"
        using n(1) Sync_frame(1) [of L st "fst (Sync L st)" "snd (Sync L st)"]
        by (cases op) (auto simp: apply_op_frame SetPointer_def simp del: apply_op.simps(1-4) intro: update_keeps)
      then show ?thesis using suf by force
    qed
    then show ?thesis using Open_local [OF _ _ h ok' L] by blast
  next
    case None
    show ?thesis
    proof (cases "LocalPath h ?st")
      case (Some e)
      then have "\<exists>e \<in> set (localDir ?st). HasSuffix (fst e) h" using LocalPath_None [of h ?st] by auto
      then show ?thesis using Open_local [OF _ _ h ok' L] by blast
    next
      case none: None
      show ?thesis
      proof (cases "map_of (spool ?st) h")
        case (Some f)
        then show ?thesis using Open_spool [OF none _ ok' L] by blast
      next
        case gone: None
        show ?thesis
        proof (cases "op = OSync")
          case True
          then show ?thesis using Open_synced [OF o None L] none by simp
        next
          case False
          then have "map_of (spool st) h = None"
            using gone by (cases op) (auto simp: apply_op_frame SetPointer_def update_conv' simp del: apply_op.simps(1-4) split: if_splits)
          then show ?thesis
            using o None none gone apply_op_frame(9) [OF False, of L st] cas_lawsD(6) [OF L, of "spool st" h "spool ?st"]
            by (auto simp: Open_def split: option.splits)
        qed
      qed
    qed
  qed
qed


lemma store_ok_Local: "store_ok L (Local\<lparr>cas := r\<rparr>)"
  by (simp add: store_ok_def Local_def)

lemma run_ok: "store_ok L st \<Longrightarrow> store_ok L (fold (apply_op L) ops st)"
  by (induction ops arbitrary: st) (simp_all add: apply_op_ok)

lemma run_kept:
  assumes "Open L h st = Inr b" and "store_ok L st" and "cas_laws L" and "ODrop h \<notin> set ops"
  shows "\<exists>b'. Open L h (fold (apply_op L) ops st) = Inr b'"
  using assms
proof (induction ops arbitrary: st b)
  case (Cons op ops)
  obtain b' where "Open L h (apply_op L op st) = Inr b'"
    using Open_kept [OF Cons.prems(1-3), of op] Cons.prems(4) by auto
  from Cons.IH [OF this apply_op_ok [OF Cons.prems(2)]] show ?case using Cons.prems by simp
qed auto

lemma stores_Open:
  assumes "stores b op" and "store_ok L st" and "cas_laws L"
  shows "\<exists>b'. Open L (cas_name L b) (apply_op L op st) = Inr b'"
proof -
  let ?st = "apply_op L op st"
  note ok = apply_op_ok [OF assms(2), of op]
  note v = cas_lawsD(2) [OF assms(3), of b]
  show ?thesis
  proof (cases "LocalPath (cas_name L b) ?st")
    case (Some e)
    then have "\<exists>e \<in> set (localDir ?st). HasSuffix (fst e) (cas_name L b)"
      using LocalPath_None [of "cas_name L b" ?st] by auto
    then show ?thesis using Open_local [OF _ _ v ok assms(3)] by blast
  next
    case None
    then have no: "\<not> HasSuffix (fst e) (cas_name L b)" if "e \<in> set (localDir ?st)" for e
      using v LocalPath_None that by blast
    have "map_of (spool ?st) (cas_name L b) = Some (sealed L b)"
    proof (cases op)
      case (OAdoptLocal c label)
      then have c: "c = b" using assms(1) by simp
      have "map_of (localDir ?st) (label @ ''-'' @ cas_name L b) = Some (sealed L b)"
        unfolding OAdoptLocal c by (simp only: apply_op_frame update_conv' fun_upd_same)
      then have "(label @ ''-'' @ cas_name L b, sealed L b) \<in> set (localDir ?st)" by (rule map_of_SomeD)
      then show ?thesis using no HasSuffix_name [OF v v, of label] by force
    qed (use assms(1) in \<open>auto simp: apply_op_frame update_conv' simp del: apply_op.simps(1-4)\<close>)
    then show ?thesis by (rule Open_spool [OF None _ ok assms(3)])
  qed
qed

text \<open>
  C14. An artifact is read back by its name until it is dropped: whatever was adopted, put, dropped,
  uploaded and released before and after, once content without a hash collision has been stored, opening
  its name returns exactly that content, as long as no later operation drops that name.
\<close>

theorem artifact_durable:
  assumes "cas_laws L" and "\<forall>b'. cas_name L b' = cas_name L b \<longrightarrow> b' = b" and "stores b op"
    and "ODrop (cas_name L b) \<notin> set post"
  shows "Open L (cas_name L b) (fold (apply_op L) (pre @ op # post) (Local\<lparr>cas := r\<rparr>)) = Inr b"
proof -
  let ?st = "fold (apply_op L) pre (Local\<lparr>cas := r\<rparr>)"
  have ok: "store_ok L ?st" by (rule run_ok [OF store_ok_Local])
  obtain b1 where b1: "Open L (cas_name L b) (apply_op L op ?st) = Inr b1"
    using stores_Open [OF assms(3) ok assms(1)] by blast
  obtain b2 where b2: "Open L (cas_name L b) (fold (apply_op L) post (apply_op L op ?st)) = Inr b2"
    using run_kept [OF b1 apply_op_ok [OF ok] assms(1,4)] by blast
  have "cas_name L b2 = cas_name L b"
    by (rule Open_sound [OF b2 run_ok [OF apply_op_ok [OF ok]] assms(1)])
  then show ?thesis using b2 assms(2) by simp
qed

text \<open>A small library: names tell one content \<open>x\<close> from everything else, the tail is eight bytes, the bucket a list.\<close>

definition toy_name :: "bytes \<Rightarrow> bytes \<Rightarrow> string" where
  "toy_name x c = replicate 63 (CHR ''0'') @ [if c = x then CHR ''1'' else CHR ''0'']"

definition toy_strip :: "bytes \<Rightarrow> bytes" where
  "toy_strip f = take (length f - 8) f"

definition toy_lib :: "bytes \<Rightarrow> files cas_lib" where
  "toy_lib x = \<lparr>h_Finish = (\<lambda>c. (toy_name x c, replicate 8 0)), ReadTail = (\<lambda>f. Some (length f - 8)),
     cas_Open = (\<lambda>r sp h. case (case map_of sp h of Some f \<Rightarrow> Some (toy_strip f) | None \<Rightarrow> map_of r h) of
       None \<Rightarrow> None | Some c \<Rightarrow> if toy_name x c = h then Some c else None),
     cas_Sync = (\<lambda>r sp. (map (\<lambda>(n, f). (n, toy_strip f)) sp @ r, map fst sp, False)),
     cas_Release = (\<lambda>r sp h. True), cas_GetPointer = (\<lambda>r n. None)\<rparr>"

lemma map_of_strip: "map_of (map (\<lambda>(n, f). (n, g f)) sp) h = map_option g (map_of sp h)"
  by (induction sp) auto

lemma toy_laws: "cas_laws (toy_lib x)"
  unfolding cas_laws_def
  by (auto simp: toy_lib_def toy_strip_def toy_name_def ValidHash_def is_hex_def list_all_iff map_of_strip map_add_def split: option.splits if_splits)

theorem artifact_durable_witness:
  "Open (toy_lib [7]) (toy_name [7] [7]) (fold (apply_op (toy_lib [7])) [OPut [1], OAdoptLocal [7] ''l0'', OSync, ODrop (toy_name [7] [1])]
     (Local\<lparr>cas := Some []\<rparr>)) = Inr [7]"
proof -
  have n: "cas_name (toy_lib [7]) b = toy_name [7] b" for b by (simp add: toy_lib_def)
  have "\<forall>b'. cas_name (toy_lib [7]) b' = cas_name (toy_lib [7]) [7] \<longrightarrow> b' = [7]" by (simp add: n toy_name_def split: if_splits)
  moreover have "ODrop (cas_name (toy_lib [7]) [7]) \<notin> set [OSync, ODrop (toy_name [7] [1])]" by (simp add: n toy_name_def)
  ultimately show ?thesis
    using artifact_durable [OF toy_laws [of "[7]"], of "[7]" "OAdoptLocal [7] ''l0''" "[OSync, ODrop (toy_name [7] [1])]" "[OPut [1]]" "Some []"]
    by (simp only: n append_Cons append_Nil stores.simps simp_thms)
qed

section \<open>Readers\<close>

text \<open>
  What the code relies on where it takes an \<^verbatim>\<open>io.ReaderAt\<close>: a read inside the content returns exactly that
  slice, a read that sticks out is an error.  \<open>ok\<close> is the invariant of the reader.
\<close>

locale reader_at =
  fixes ok :: "'s \<Rightarrow> bool" and content :: "'s \<Rightarrow> bytes" and readAt :: "'s \<Rightarrow> u64 \<Rightarrow> u64 \<Rightarrow> bytes res"
  assumes size: "ok s \<Longrightarrow> length (content s) < 2 ^ 63"
    and inside: "ok s \<Longrightarrow> unat off + unat n \<le> length (content s) \<Longrightarrow>
      readAt s off n = Inr (take (unat n) (drop (unat off) (content s)))"
    and outside: "ok s \<Longrightarrow> length (content s) < unat off + unat n \<Longrightarrow> \<exists>e. readAt s off n = Inl e"

text \<open>
  Copying \<open>n\<close> bytes from \<open>off\<close> in pieces of 4 MiB, as \<^verbatim>\<open>RunWriter.CopySection\<close> and
  \<^verbatim>\<open>sectionReadable.resideAll\<close> do; \<open>rd\<close> reads at an offset.
\<close>

definition piece :: u64 where "piece = 4194304"

function copyPieces :: "(u64 \<Rightarrow> u64 \<Rightarrow> bytes res) \<Rightarrow> u64 \<Rightarrow> u64 \<Rightarrow> u64 \<Rightarrow> bytes \<Rightarrow> bytes res" where
  "copyPieces rd off n done buf =
     (if \<not> done < n then Inr buf
      else let k = min piece (n - done) in
        case rd (off + done) k of
          Inl e \<Rightarrow> Inl e
        | Inr b \<Rightarrow> copyPieces rd off n (done + k) (buf @ b))"
  by pat_completeness auto
termination
proof (relation "measure (\<lambda>(rd, off, n, done, buf). unat n - unat done)", goal_cases)
  case (2 rd off n "done" buf k b)
  have k: "unat k \<le> unat n - unat done" "0 < unat k"
    using 2(1,2) by (auto simp: piece_def min_def word_le_nat_alt word_less_nat_alt unat_sub_if' unat_gt_0)
  then have "unat (done + k) = unat done + unat k"
    using 2(1) by (intro unat_add_below [of _ _ n]) (simp add: word_less_nat_alt)
  then show ?case using k 2(1) by (simp add: word_less_nat_alt)
qed simp

declare copyPieces.simps [simp del]

context reader_at
begin

lemma copyPieces_from:
  assumes "ok s" and "unat off + unat n \<le> length (content s)" and "unat d \<le> unat n"
  shows "copyPieces (readAt s) off n d buf = Inr (buf @ take (unat n - unat d) (drop (unat off + unat d) (content s)))"
  using assms
proof (induction "readAt s" off n d buf rule: copyPieces.induct)
  case (1 off n d buf)
  show ?case
  proof (cases "d < n")
    case False
    then show ?thesis using 1(4) by (subst copyPieces.simps) (simp add: word_less_nat_alt)
  next
    case True
    define k where "k = min piece (n - d)"
    have lt: "unat d < unat n" using True by (simp add: word_less_nat_alt)
    have sz: "length (content s) < 2 ^ 63" by (rule size) (rule 1(2))
    have nd: "unat (n - d) = unat n - unat d" using lt by (simp add: unat_sub_if')
    have k: "unat k \<le> unat n - unat d" using nd by (simp add: k_def min_def word_le_nat_alt)
    have dk: "unat (d + k) = unat d + unat k"
      using k lt by (intro unat_add_below [of _ _ n]) simp
    have od: "unat (off + d) = unat off + unat d"
      using lt sz 1(3) by (intro unat_add_small) simp
    have r: "readAt s (off + d) k = Inr (take (unat k) (drop (unat off + unat d) (content s)))"
      using inside [OF 1(2), of "off + d" k] od k lt 1(3) by simp
    have IH: "copyPieces (readAt s) off n (d + k) (buf @ take (unat k) (drop (unat off + unat d) (content s))) =
        Inr ((buf @ take (unat k) (drop (unat off + unat d) (content s))) @
          take (unat n - unat (d + k)) (drop (unat off + unat (d + k)) (content s)))"
      by (rule 1(1) [OF _ k_def r]) (use True 1(2,3) dk k lt in simp_all)
    have "take (unat k) (drop (unat off + unat d) (content s)) @ take (unat n - unat (d + k)) (drop (unat off + unat (d + k)) (content s))
        = take (unat n - unat d) (drop (unat off + unat d) (content s))"
      using take_drop_join [OF k, of "unat off + unat d" "content s"] dk by (simp add: add.assoc)
    then show ?thesis using True r IH by (subst copyPieces.simps) (simp add: k_def [symmetric])
  qed
qed

lemma copyPieces_whole:
  "ok s \<Longrightarrow> unat off + unat n \<le> length (content s) \<Longrightarrow>
    copyPieces (readAt s) off n 0 [] = Inr (take (unat n) (drop (unat off) (content s)))"
  using copyPieces_from [of s off n 0 "[]"] by simp

end

lemma blob_Read_exact:
  assumes "length b < 2 ^ 63"
  shows "blob_Read b off n =
    (if unat off + unat n \<le> length b then Inr (take (unat n) (drop (unat off) b)) else Inl (Errorf ''dist: range outside artifact''))"
proof -
  have l: "unat (of_nat (length b) :: u64) = length b" using assms by (simp add: unat_of_nat)
  have "bounds b off n \<longleftrightarrow> unat off + unat n \<le> length b"
    using l by (auto simp: bounds_def Let_def word_less_nat_alt unat_sub_if' not_less)
  then show ?thesis by (auto simp: blob_Read_def)
qed

interpretation blob: reader_at "\<lambda>b. length b < 2 ^ 63" "\<lambda>b. b" blob_Read
  by unfold_locales (auto simp: blob_Read_exact)

section \<open>Pointers and retries\<close>

lemma hex_not_space: "is_hex c \<Longrightarrow> \<not> is_space c"
  by (auto simp: is_hex_def is_space_def Let_def)

lemma Split_none: "sep \<notin> set s \<Longrightarrow> Split_acc sep acc s = [rev acc @ s]"
  by (induction s arbitrary: acc) auto

lemma Fields_one:
  assumes "s \<noteq> []" and "\<forall>c \<in> set s. \<not> is_space c"
  shows "Fields s = [s]"
proof -
  have e: "dropWhile is_space s = s" "takeWhile (\<lambda>c. \<not> is_space c) s = s" "dropWhile (\<lambda>c. \<not> is_space c) s = []"
    using assms by (cases s; auto)+
  have "Fields [] = []" by (subst Fields.simps) simp
  then show ?thesis using assms(1) by (subst Fields.simps) (simp add: e)
qed

lemma Latest_SetLatest:
  assumes "ValidHash m"
  shows "Latest L root (SetLatest root m st) = Inr m"
proof -
  have sp: "\<forall>c \<in> set m. \<not> is_space c" and ne: "m \<noteq> []"
    using assms hex_not_space by (auto simp: ValidHash_def list_all_iff)
  obtain l x where m: "m = l @ [x]" using ne by (metis rev_exhaust)
  have x: "\<not> is_space x" using sp m by simp
  have enc: "encodeLatest m = ''manifest '' @ m @ [CHR 0x0A]" using ne by (simp add: encodeLatest_def)
  have t: "TrimSpace (''manifest '' @ m @ [CHR 0x0A]) = ''manifest '' @ m"
    using x by (simp add: TrimSpace_def is_space_def m)
  have nl: "CHR 0x0A \<notin> set (''manifest '' @ m)"
    using sp by (auto simp: is_space_def)
  have "Fields (''manifest '' @ m) = ''manifest'' # Fields ('' '' @ m)"
    by (subst Fields.simps) (simp add: is_space_def)
  also have "Fields ('' '' @ m) = Fields m"
    by (subst (1 2) Fields.simps) (simp add: is_space_def)
  also have "\<dots> = [m]" by (rule Fields_one [OF ne sp])
  finally have "decodeLatest (encodeLatest m) = Inr m"
    using assms by (simp only: enc decodeLatest_def t Split_def Split_none [OF nl]) simp
  then show ?thesis by (simp add: Latest_def SetLatest_def GetPointer_def SetPointer_def update_conv')
qed

text \<open>A source that answers within the budget is enough, whatever the others do.\<close>

lemma tryLoop_answers:
  assumes "i < upstreamRounds" and "s \<in> set sources" and "fn i s" and "\<forall>j < i. \<not> ended j" and "k \<le> i"
  shows "\<exists>s. tryLoop fn ended sources k = Inr s"
  using assms(5)
proof (induction "i - k" arbitrary: k)
  case 0
  then have k: "k = i" by simp
  have "tryRound (fn i) sources \<noteq> None" using assms by (auto simp: tryRound_def find_None_iff)
  then show ?case by (subst tryLoop.simps) (auto simp: k)
next
  case (Suc n)
  then have "\<exists>s. tryLoop fn ended sources (k + 1) = Inr s" by simp
  moreover have "\<not> k \<ge> upstreamRounds - 1" "\<not> ended k" using Suc assms by auto
  ultimately show ?case by (subst tryLoop.simps) (cases "tryRound (fn k) sources"; simp)
qed

end
