(* ===== verification/Reside.thy ===== *)
theory Reside
  imports Dist
begin

text \<open>
  A section of a run as a file, \<^verbatim>\<open>sectionReadable\<close> of \<^verbatim>\<open>src/store/run.go\<close>: reads go to pinned ranges, to
  the window held while a run is opened, or to the artifact; and the sidecar files of
  \<^verbatim>\<open>src/store/resident.go\<close> that persist the pinned ranges.  The length of a block trailer and the chunk
  size are constants of libraries and are the parameters \<open>tr\<close> and \<open>gap\<close>.  Where the bytes of a pinned
  range live (heap or mapping) and the reference count of the mapping are not modelled.
\<close>

section \<open>The section reader\<close>

abbreviation slice :: "nat \<Rightarrow> nat \<Rightarrow> 'a list \<Rightarrow> 'a list" where
  "slice a n xs \<equiv> take n (drop a xs)"

record residentRange =
  rr_off :: u64
  rr_data :: bytes

record sectionReadable =
  s_b :: bytes       \<comment> \<open>the artifact\<close>
  s_off :: u64
  s_n :: u64
  res :: "residentRange list"
  resident :: u64
  s_tail :: "residentRange option"

definition newSection :: "bytes \<Rightarrow> u64 \<Rightarrow> u64 \<Rightarrow> sectionReadable" where
  "newSection b off n = \<lparr>s_b = b, s_off = off, s_n = n, res = [], resident = 0, s_tail = None\<rparr>"

definition sec_read :: "u64 \<Rightarrow> u64 \<Rightarrow> sectionReadable \<Rightarrow> bytes res" where
  "sec_read off n s =
     (case s_tail s of
        Some t \<Rightarrow>
          if off \<ge> rr_off t \<and> off + n \<le> rr_off t + of_nat (length (rr_data t))
          then Inr (slice (unat (off - rr_off t)) (unat n) (rr_data t))
          else blob_Read (s_b s) (s_off s + off) n
      | None \<Rightarrow> blob_Read (s_b s) (s_off s + off) n)"

text \<open>The offset of a \<^verbatim>\<open>ReadAt\<close> is an \<^verbatim>\<open>int64\<close>, negative when its pattern is at least \<open>2^63\<close>; a short read is an end of file.\<close>

definition ReadAt :: "sectionReadable \<Rightarrow> u64 \<Rightarrow> u64 \<Rightarrow> bytes res" where
  "ReadAt s off n =
     (if 2 ^ 63 \<le> unat off \<or> off > s_n s then Inl (Errorf ''EOF'')
      else if n > s_n s - off then Inl (Errorf ''EOF'')
      else
        let i = sort_Search (length (res s)) (\<lambda>i. rr_off (res s ! i) > off) in
        if 0 < i \<and> off + n \<le> rr_off (res s ! (i - 1)) + of_nat (length (rr_data (res s ! (i - 1))))
        then Inr (slice (unat (off - rr_off (res s ! (i - 1)))) (unat n) (rr_data (res s ! (i - 1))))
        else sec_read off n s)"

section \<open>Pinning blocks\<close>

definition residentData :: "u64 \<Rightarrow> sectionReadable \<Rightarrow> bytes option" where
  "residentData off s =
     (let i = sort_Search (length (res s)) (\<lambda>i. rr_off (res s ! i) \<ge> off) in
      if i < length (res s) \<and> rr_off (res s ! i) = off then Some (rr_data (res s ! i)) else None)"

definition isResident :: "u64 \<Rightarrow> sectionReadable \<Rightarrow> bool" where
  "isResident off s = (residentData off s \<noteq> None)"

definition sec_insert :: "u64 \<Rightarrow> bytes \<Rightarrow> sectionReadable \<Rightarrow> sectionReadable" where
  "sec_insert off data s =
     (let i = sort_Search (length (res s)) (\<lambda>i. rr_off (res s ! i) \<ge> off) in
      if i < length (res s) \<and> rr_off (res s ! i) = off then s
      else s\<lparr>res := take i (res s) @ \<lparr>rr_off = off, rr_data = data\<rparr> # drop i (res s),
             resident := resident s + of_nat (length data)\<rparr>)"

record blockRange =
  br_off :: u64
  br_n :: u64

fun wantRanges :: "u64 \<Rightarrow> sectionReadable \<Rightarrow> (u64 \<times> u64) list \<Rightarrow> blockRange list res" where
  "wantRanges tr s [] = Inr []"
| "wantRanges tr s ((off, len) # bhs) =
     (if len = 0 then wantRanges tr s bhs
      else
        let n = len + tr in
        if off + n > s_n s then Inl (Errorf ''block outside section'')
        else if isResident off s then wantRanges tr s bhs
        else case wantRanges tr s bhs of Inl e \<Rightarrow> Inl e | Inr ws \<Rightarrow> Inr (\<lparr>br_off = off, br_n = n\<rparr> # ws))"

fun spans_from :: "u64 \<Rightarrow> nat \<Rightarrow> u64 \<Rightarrow> blockRange list \<Rightarrow> nat list" where
  "spans_from gap i e [] = []"
| "spans_from gap i e (r # rs) =
     (if i > 0 \<and> br_off r > e + gap then [i] else []) @ spans_from gap (Suc i) (max e (br_off r + br_n r)) rs"

definition resideSpans :: "u64 \<Rightarrow> blockRange list \<Rightarrow> nat list" where
  "resideSpans gap want = spans_from gap 0 0 want @ (if want \<noteq> [] then [length want] else [])"

definition pinRange :: "u64 \<Rightarrow> bytes \<Rightarrow> blockRange \<Rightarrow> sectionReadable \<Rightarrow> sectionReadable" where
  "pinRange lo buf r s = sec_insert (br_off r) (slice (unat (br_off r - lo)) (unat (br_n r)) buf) s"

fun resideLoop :: "blockRange list \<Rightarrow> nat \<Rightarrow> nat list \<Rightarrow> sectionReadable \<Rightarrow> sectionReadable res" where
  "resideLoop want i [] s = Inr s"
| "resideLoop want i (j # js) s =
     (let grp = slice i (j - i) want;
          lo = br_off (want ! i);
          hi = fold (\<lambda>r h. max h (br_off r + br_n r)) grp 0 in
      case sec_read lo (hi - lo) s of
        Inl e \<Rightarrow> Inl e
      | Inr buf \<Rightarrow> resideLoop want j js (fold (pinRange lo buf) grp s))"

definition reside :: "u64 \<Rightarrow> u64 \<Rightarrow> (u64 \<times> u64) list \<Rightarrow> sectionReadable \<Rightarrow> sectionReadable res" where
  "reside gap tr bhs s =
     (case wantRanges tr s bhs of
        Inl e \<Rightarrow> Inl e
      | Inr ws \<Rightarrow> let want = sort_key br_off ws in resideLoop want 0 (resideSpans gap want) s)"

definition resideAll :: "sectionReadable \<Rightarrow> sectionReadable res" where
  "resideAll s =
     (if s_n s = 0 then Inr s
      else case copyPieces (blob_Read (s_b s)) (s_off s) (s_n s) 0 [] of
        Inl e \<Rightarrow> Inl e
      | Inr buf \<Rightarrow> Inr (s\<lparr>res := [\<lparr>rr_off = 0, rr_data = buf\<rparr>], resident := s_n s\<rparr>))"

text \<open>\<open>dataSize\<close> is the data size the properties block of the table states.\<close>

definition resideTail :: "u64 \<Rightarrow> sectionReadable \<Rightarrow> sectionReadable res" where
  "resideTail dataSize s =
     (if dataSize = 0 \<or> dataSize \<ge> s_n s then Inr s
      else case blob_Read (s_b s) (s_off s + dataSize) (s_n s - dataSize) of
        Inl e \<Rightarrow> Inl e
      | Inr buf \<Rightarrow> Inr (s\<lparr>s_tail := Some \<lparr>rr_off = dataSize, rr_data = buf\<rparr>\<rparr>))"

definition dropTail :: "sectionReadable \<Rightarrow> sectionReadable" where
  "dropTail s = s\<lparr>s_tail := None\<rparr>"

definition sec_release :: "sectionReadable \<Rightarrow> sectionReadable" where
  "sec_release s = s\<lparr>res := [], resident := 0\<rparr>"

text \<open>The bytes after the last pinned block, which hold the footer of the table.\<close>

definition residentEnd :: "u64 \<Rightarrow> (u64 \<times> u64) list \<Rightarrow> u64" where
  "residentEnd tr bhs = fold (\<lambda>(off, len) e. if len > 0 then max e (off + len + tr) else e) bhs 0"

definition pinFooter :: "u64 \<Rightarrow> (u64 \<times> u64) list \<Rightarrow> sectionReadable \<Rightarrow> sectionReadable res" where
  "pinFooter tr bhs s =
     (let e = residentEnd tr bhs in
      if s_n s > 0 \<and> e < s_n s
      then (case sec_read e (s_n s - e) s of Inl x \<Rightarrow> Inl x | Inr gap \<Rightarrow> Inr (sec_insert e gap s))
      else Inr s)"

section \<open>Sidecars\<close>

definition numSections :: nat where "numSections = 3"

definition resMagic :: bytes where "resMagic = ascii ''EPDBRES1''"

definition sidecarEntries :: "residentRange list list \<Rightarrow> (nat \<times> residentRange) list" where
  "sidecarEntries secs = concat (map (\<lambda>(i, rs). map (Pair i) rs) (enumerate 0 secs))"

definition entryBytes :: "nat \<times> residentRange \<Rightarrow> bytes" where
  "entryBytes e = [of_nat (fst e)] @ be64 (rr_off (snd e)) @ be64 (of_nat (length (rr_data (snd e))))"

definition writeSidecar :: "residentRange list list \<Rightarrow> bytes" where
  "writeSidecar secs =
     (let es = sidecarEntries secs in
      resMagic @ be32 (of_nat (length es)) @ concat (map entryBytes es) @ concat (map (rr_data \<circ> snd) es))"

text \<open>
  The entries of a sidecar, one by one: \<open>pay\<close> is the position of the next payload.  The slice
  expression panics when its bounds are not in order, which the size test does not exclude.
\<close>

fun loadEntries :: "bytes \<Rightarrow> nat \<Rightarrow> nat \<Rightarrow> u64 \<Rightarrow> residentRange list list \<Rightarrow> (u64 \<times> residentRange list list) res" where
  "loadEntries data i 0 pay acc = Inr (pay, acc)"
| "loadEntries data i (Suc k) pay acc =
     (let e = drop (12 + i * 17) data;
          s = unat (e ! 0); off = get64 (drop 1 e); n = get64 (drop 9 e) in
      if s \<ge> numSections \<or> pay + n > of_nat (length data) then Inl (Errorf ''sidecar entry is torn'')
      else if pay + n < pay then Inl GoPanic
      else loadEntries data (Suc i) k (pay + n)
        (acc[s := acc ! s @ [\<lparr>rr_off = off, rr_data = slice (unat pay) (unat n) data\<rparr>]]))"

definition loadSidecar :: "bytes \<Rightarrow> residentRange list list res" where
  "loadSidecar data =
     (if length data < 12 then Inl (Errorf ''sidecar is too short'')
      else if take 8 data \<noteq> resMagic then Inl (Errorf ''sidecar: bad magic'')
      else
        let count = unat (get32 (drop 8 data)) in
        if 12 + count * 17 > length data then Inl (Errorf ''sidecar entries do not fit'')
        else case loadEntries data 0 count (of_nat (12 + count * 17)) (replicate numSections []) of
          Inl e \<Rightarrow> Inl e
        | Inr (pay, acc) \<Rightarrow>
            if pay \<noteq> of_nat (length data) then Inl (Errorf ''sidecar trailing bytes'')
            else Inr (map (sort_key rr_off) acc))"

text \<open>The files of the directory that survive: those a run of the manifest names.\<close>

definition sweepSidecars :: "string list \<Rightarrow> files \<Rightarrow> files" where
  "sweepSidecars names dir = filter (\<lambda>e. fst e \<in> set names) dir"

section \<open>Reads are exact\<close>

definition sec_content :: "sectionReadable \<Rightarrow> bytes" where
  "sec_content s = slice (unat (s_off s)) (unat (s_n s)) (s_b s)"

definition range_ok :: "sectionReadable \<Rightarrow> residentRange \<Rightarrow> bool" where
  "range_ok s r = (unat (rr_off r) + length (rr_data r) \<le> unat (s_n s) \<and>
     rr_data r = slice (unat (rr_off r)) (length (rr_data r)) (sec_content s))"

definition overlay_ok :: "sectionReadable \<Rightarrow> bool" where
  "overlay_ok s = (length (s_b s) < 2 ^ 63 \<and> unat (s_off s) + unat (s_n s) \<le> length (s_b s) \<and>
     sorted_wrt (\<lambda>a b. rr_off a < rr_off b) (res s) \<and> list_all (range_ok s) (res s) \<and>
     pred_option (range_ok s) (s_tail s))"

lemma overlay_okD:
  assumes "overlay_ok s"
  shows "length (sec_content s) = unat (s_n s)" and "length (s_b s) < 2 ^ 63"
    and "unat (s_off s) + unat (s_n s) \<le> length (s_b s)"
    and "sorted_wrt (\<lambda>a b. rr_off a < rr_off b) (res s)" and "r \<in> set (res s) \<Longrightarrow> range_ok s r"
    and "s_tail s = Some t \<Longrightarrow> range_ok s t"
  using assms by (auto simp: overlay_ok_def sec_content_def list_all_iff)

lemma slice_slice: "a \<le> b \<Longrightarrow> b + n \<le> a + m \<Longrightarrow> slice (b - a) n (slice a m xs) = slice b n xs"
  by (simp add: take_drop min_def)

text \<open>A range that contains the wanted bytes answers with exactly them; the comparison cannot wrap.\<close>

lemma range_slice:
  assumes "range_ok s r" and "rr_off r \<le> off" and "off + n \<le> rr_off r + of_nat (length (rr_data r))"
    and "unat off + unat n \<le> unat (s_n s)"
  shows "slice (unat (off - rr_off r)) (unat n) (rr_data r) = slice (unat off) (unat n) (sec_content s)"
proof -
  have le: "unat (rr_off r) \<le> unat off" using assms(2) by (simp add: word_le_nat_alt)
  have "unat (off + n) = unat off + unat n" using assms(4) by (rule unat_add_below)
  moreover have "unat (rr_off r + of_nat (length (rr_data r))) = unat (rr_off r) + length (rr_data r)"
    using assms(1) unsigned_less [of "s_n s", where ?'a = nat] by (intro unat_add_of_nat) (simp add: range_ok_def)
  ultimately have "unat off + unat n \<le> unat (rr_off r) + length (rr_data r)"
    using assms(3) by (simp add: word_le_nat_alt)
  moreover have "unat (off - rr_off r) = unat off - unat (rr_off r)" using le by (simp add: unat_sub_if')
  moreover have "rr_data r = slice (unat (rr_off r)) (length (rr_data r)) (sec_content s)"
    using assms(1) by (simp add: range_ok_def)
  ultimately show ?thesis using le slice_slice [of "unat (rr_off r)" "unat off" "unat n" "length (rr_data r)" "sec_content s"] by simp
qed

lemma blob_section:
  assumes "overlay_ok s" and "unat off + unat n \<le> unat (s_n s)"
  shows "blob_Read (s_b s) (s_off s + off) n = Inr (slice (unat off) (unat n) (sec_content s))"
proof -
  note O = overlay_okD [OF assms(1)]
  have "unat (s_off s + off) = unat (s_off s) + unat off"
    using O(2,3) assms(2) by (intro unat_add_small) simp
  moreover have "slice (unat (s_off s) + unat off) (unat n) (s_b s) = slice (unat off) (unat n) (sec_content s)"
    unfolding sec_content_def using slice_slice [of "unat (s_off s)" "unat (s_off s) + unat off" "unat n" "unat (s_n s)" "s_b s"] assms(2)
    by simp
  ultimately show ?thesis using O(2,3) assms(2) by (simp add: blob_Read_exact)
qed

lemma sec_read_exact:
  assumes "overlay_ok s" and "unat off + unat n \<le> unat (s_n s)"
  shows "sec_read off n s = Inr (slice (unat off) (unat n) (sec_content s))"
  using blob_section [OF assms] range_slice [OF overlay_okD(6) [OF assms(1)] _ _ assms(2)]
  by (auto simp: sec_read_def split: option.splits)

lemma search_below:
  assumes "sorted_wrt (\<lambda>a b. rr_off a < rr_off b) rs" and "i = sort_Search (length rs) (\<lambda>i. rr_off (rs ! i) > off)" and "0 < i"
  shows "i \<le> length rs \<and> rr_off (rs ! (i - 1)) \<le> off"
proof -
  have "sort_Search (length rs) (\<lambda>i. rr_off (rs ! i) > off) = length (takeWhile (\<lambda>x. \<not> rr_off x > off) rs)"
    by (rule sort_Search_takeWhile) (metis assms(1) le_neq_implies_less less_trans sorted_wrt_nth_less)
  then have i: "i = length (takeWhile (\<lambda>x. \<not> rr_off x > off) rs)" using assms(2) by simp
  then have "rs ! (i - 1) \<in> set (takeWhile (\<lambda>x. \<not> rr_off x > off) rs)"
    using assms(3) by (metis diff_less nth_mem takeWhile_nth zero_less_one)
  then show ?thesis using i length_takeWhile_le [of "\<lambda>x. \<not> rr_off x > off" rs] by (auto dest: set_takeWhileD)
qed

lemma ReadAt_inside:
  assumes "overlay_ok s" and "unat off + unat n \<le> unat (s_n s)"
  shows "ReadAt s off n = Inr (slice (unat off) (unat n) (sec_content s))"
proof -
  note O = overlay_okD [OF assms(1)]
  define i where "i = sort_Search (length (res s)) (\<lambda>i. rr_off (res s ! i) > off)"
  have lt: "unat off < 2 ^ 63" using assms(2) O(2,3) by simp
  then have "\<not> 2 ^ 63 \<le> unat off" by simp
  moreover have "\<not> off > s_n s" "\<not> n > s_n s - off"
    using assms(2) by (auto simp: word_less_nat_alt unat_sub_if')
  moreover have "slice (unat (off - rr_off (res s ! (i - 1)))) (unat n) (rr_data (res s ! (i - 1))) = slice (unat off) (unat n) (sec_content s)"
    if "0 < i" "off + n \<le> rr_off (res s ! (i - 1)) + of_nat (length (rr_data (res s ! (i - 1))))"
  proof -
    have i: "i \<le> length (res s)" "rr_off (res s ! (i - 1)) \<le> off" using search_below [OF O(4) i_def that(1)] by auto
    have "range_ok s (res s ! (i - 1))" using i(1) that(1) by (intro O(5) nth_mem) simp
    then show ?thesis using range_slice i(2) that(2) assms(2) by blast
  qed
  ultimately show ?thesis
    using sec_read_exact [OF assms] by (simp add: ReadAt_def Let_def i_def [symmetric])
qed

lemma ReadAt_outside:
  assumes "overlay_ok s" and "unat (s_n s) < unat off + unat n"
  shows "ReadAt s off n = Inl (Errorf ''EOF'')"
  using assms(2) by (auto simp: ReadAt_def word_less_nat_alt unat_sub_if' not_less)

interpretation sec: reader_at overlay_ok sec_content ReadAt
proof unfold_locales
  fix s :: sectionReadable and off n :: u64
  assume ok: "overlay_ok s"
  note O = overlay_okD [OF ok]
  show "length (sec_content s) < 2 ^ 63" using O(1,2,3) by linarith
  show "ReadAt s off n = Inr (slice (unat off) (unat n) (sec_content s))" if "unat off + unat n \<le> length (sec_content s)"
    using ReadAt_inside [OF ok] that O(1) by simp
  show "\<exists>e. ReadAt s off n = Inl e" if "length (sec_content s) < unat off + unat n"
    using ReadAt_outside [OF ok] that O(1) by simp
qed

section \<open>Pinning keeps the section\<close>

definition same_section :: "sectionReadable \<Rightarrow> sectionReadable \<Rightarrow> bool" where
  "same_section s s' = (s_b s' = s_b s \<and> s_off s' = s_off s \<and> s_n s' = s_n s)"

lemma same_section_content: "same_section s s' \<Longrightarrow> sec_content s' = sec_content s \<and> range_ok s' = range_ok s"
  by (simp add: same_section_def sec_content_def range_ok_def fun_eq_iff)

lemma sort_Search_offsets:
  assumes "sorted_wrt (\<lambda>a b. rr_off a < rr_off b) rs"
  shows "sort_Search (length rs) (\<lambda>i. rr_off (rs ! i) \<ge> off) = length (takeWhile (\<lambda>x. rr_off x < off) rs)"
proof -
  have "sort_Search (length rs) (\<lambda>i. rr_off (rs ! i) \<ge> off) = length (takeWhile (\<lambda>x. \<not> rr_off x \<ge> off) rs)"
    by (rule sort_Search_takeWhile) (metis assms le_neq_implies_less less_imp_le order_trans sorted_wrt_nth_less)
  then show ?thesis by (simp add: not_le)
qed

lemma sorted_insert_offset:
  assumes "sorted_wrt (\<lambda>a b. rr_off a < rr_off b) rs" and "\<forall>r \<in> set rs. rr_off r \<noteq> off"
    and "k = length (takeWhile (\<lambda>x. rr_off x < off) rs)" and "rr_off x = off"
  shows "sorted_wrt (\<lambda>a b. rr_off a < rr_off b) (take k rs @ x # drop k rs)"
  using assms
proof (induction rs arbitrary: k)
  case (Cons r rs)
  show ?case
  proof (cases "rr_off r < off")
    case True
    then obtain j where k: "k = Suc j" "j = length (takeWhile (\<lambda>x. rr_off x < off) rs)" using Cons.prems(3) by simp
    then show ?thesis
      using Cons.IH [of j] Cons.prems True by (auto dest: in_set_takeD in_set_dropD)
  next
    case False
    then have "off < rr_off r" using Cons.prems(2) by (metis linorder_neqE list.set_intros(1))
    then show ?thesis using Cons.prems False by (auto intro: less_trans)
  qed
qed simp

lemma takeWhile_map_of:
  assumes "sorted_wrt (\<lambda>a b. rr_off a < rr_off b) rs" and "k = length (takeWhile (\<lambda>x. rr_off x < off) rs)"
  shows "(if k < length rs \<and> rr_off (rs ! k) = off then Some (rr_data (rs ! k)) else None) =
    map_of (map (\<lambda>r. (rr_off r, rr_data r)) rs) off"
  using assms
proof (induction rs arbitrary: k)
  case (Cons r rs)
  show ?case
  proof (cases "rr_off r < off")
    case True
    then obtain j where "k = Suc j" "j = length (takeWhile (\<lambda>x. rr_off x < off) rs)" using Cons.prems(2) by simp
    then show ?thesis using Cons.IH [of j] Cons.prems(1) True by auto
  next
    case False
    then have k: "k = 0" using Cons.prems(2) by simp
    have "map_of (map (\<lambda>r. (rr_off r, rr_data r)) rs) off = None" if "rr_off r \<noteq> off"
      using Cons.prems(1) False that by (auto simp: map_of_eq_None_iff)
    then show ?thesis by (simp add: k)
  qed
qed simp

lemma residentData_spec:
  assumes "sorted_wrt (\<lambda>a b. rr_off a < rr_off b) (res s)"
  shows "residentData off s = map_of (map (\<lambda>r. (rr_off r, rr_data r)) (res s)) off"
  using takeWhile_map_of [OF assms refl, of off] by (simp add: residentData_def sort_Search_offsets [OF assms])

lemma residentData_None:
  "sorted_wrt (\<lambda>a b. rr_off a < rr_off b) (res s) \<Longrightarrow> residentData off s = None \<longleftrightarrow> (\<forall>r \<in> set (res s). rr_off r \<noteq> off)"
  by (auto simp: residentData_spec map_of_eq_None_iff image_image)

lemma map_of_insert_at:
  "k \<notin> fst ` set al \<Longrightarrow> map_of (take i al @ (k, v) # drop i al) = (map_of al)(k \<mapsto> v)"
proof (induction al arbitrary: i)
  case (Cons a al)
  then show ?case by (cases i) (auto simp: fun_upd_twist)
qed simp

lemma sec_insert_cases:
  assumes "sorted_wrt (\<lambda>a b. rr_off a < rr_off b) (res s)" and "k = length (takeWhile (\<lambda>x. rr_off x < off) (res s))"
  shows "sec_insert off data s = (if residentData off s = None
    then s\<lparr>res := take k (res s) @ \<lparr>rr_off = off, rr_data = data\<rparr> # drop k (res s), resident := resident s + of_nat (length data)\<rparr>
    else s)"
  by (simp add: sec_insert_def residentData_def sort_Search_offsets [OF assms(1)] assms(2) Let_def)

lemma sec_insert_ok:
  assumes ok: "overlay_ok s" and r: "range_ok s \<lparr>rr_off = off, rr_data = data\<rparr>"
  shows "overlay_ok (sec_insert off data s)" and "same_section s (sec_insert off data s)"
    and "residentData o' (sec_insert off data s) = (if o' = off \<and> residentData off s = None then Some data else residentData o' s)"
proof -
  note O = overlay_okD [OF ok]
  define k where "k = length (takeWhile (\<lambda>x. rr_off x < off) (res s))"
  let ?x = "\<lparr>rr_off = off, rr_data = data\<rparr>" and ?s = "sec_insert off data s"
  note ins = sec_insert_cases [OF O(4) k_def, of data]
  show same: "same_section s ?s" by (simp add: ins same_section_def)
  have sorted: "sorted_wrt (\<lambda>a b. rr_off a < rr_off b) (res ?s)"
    using sorted_insert_offset [OF O(4) _ k_def, of ?x] residentData_None [OF O(4), of off] O(4) by (simp add: ins)
  have "set (res ?s) \<subseteq> insert ?x (set (res s))"
    by (auto simp: ins dest: in_set_takeD in_set_dropD)
  then have "list_all (range_ok ?s) (res ?s)"
    using O(5) r same_section_content [OF same] by (auto simp: list_all_iff)
  moreover have "s_tail ?s = s_tail s" by (simp add: ins)
  ultimately show "overlay_ok ?s"
    using ok same sorted same_section_content [OF same] by (simp add: overlay_ok_def same_section_def)
  show "residentData o' ?s = (if o' = off \<and> residentData off s = None then Some data else residentData o' s)"
  proof (cases "residentData off s = None")
    case True
    let ?al = "map (\<lambda>r. (rr_off r, rr_data r)) (res s)"
    have new: "off \<notin> fst ` set ?al" using True residentData_None [OF O(4)] by auto
    have "residentData o' ?s = map_of (take k ?al @ (off, data) # drop k ?al) o'"
      unfolding residentData_spec [OF sorted] using True by (simp add: ins take_map drop_map)
    also have "\<dots> = ((map_of ?al)(off \<mapsto> data)) o'" by (simp only: map_of_insert_at [OF new])
    finally show ?thesis using True residentData_spec [OF O(4)] by simp
  qed (auto simp: ins)
qed

section \<open>What \<open>reside\<close> pins\<close>

fun ends_ok :: "nat \<Rightarrow> nat list \<Rightarrow> nat \<Rightarrow> bool" where
  "ends_ok i [] n = (i = n)"
| "ends_ok i (j # js) n = (i < j \<and> j \<le> n \<and> ends_ok j js n)"

lemma spans_from_ends:
  "ws \<noteq> [] \<Longrightarrow> i0 \<le> i \<Longrightarrow> i0 < i \<or> i = 0 \<Longrightarrow> ends_ok i0 (spans_from gap i e ws @ [i + length ws]) (i + length ws)"
proof (induction ws arbitrary: i0 i e)
  case (Cons r rs)
  show ?case
  proof (cases "rs = []")
    case True
    then show ?thesis using Cons.prems by auto
  next
    case False
    then show ?thesis
      using Cons.IH [of i0 "Suc i" "max e (br_off r + br_n r)"] Cons.IH [of i "Suc i" "max e (br_off r + br_n r)"] Cons.prems by auto
  qed
qed simp

lemma resideSpans_ends: "ends_ok 0 (resideSpans gap want) (length want)"
  using spans_from_ends [of want 0 0 gap 0] by (cases want) (simp_all add: resideSpans_def)

definition br_inside :: "sectionReadable \<Rightarrow> blockRange \<Rightarrow> bool" where
  "br_inside s r = (unat (br_off r) + unat (br_n r) \<le> unat (s_n s))"

definition pinned :: "sectionReadable \<Rightarrow> blockRange \<Rightarrow> bool" where
  "pinned s r = (residentData (br_off r) s = Some (slice (unat (br_off r)) (unat (br_n r)) (sec_content s)))"

text \<open>Everything pinned so far is one of the wanted ranges, and ranges at the same offset agree.\<close>

definition only_wanted :: "blockRange list \<Rightarrow> sectionReadable \<Rightarrow> bool" where
  "only_wanted want s = (\<forall>off d. residentData off s = Some d \<longrightarrow>
     (\<exists>r \<in> set want. br_off r = off \<and> d = slice (unat off) (unat (br_n r)) (sec_content s)))"

lemma fold_max_bounds:
  assumes "\<forall>r \<in> set grp. br_inside s r" and "h0 \<le> s_n s"
  shows "fold (\<lambda>r h. max h (br_off r + br_n r)) grp h0 \<le> s_n s \<and> h0 \<le> fold (\<lambda>r h. max h (br_off r + br_n r)) grp h0 \<and>
    (\<forall>r \<in> set grp. br_off r + br_n r \<le> fold (\<lambda>r h. max h (br_off r + br_n r)) grp h0)"
  using assms
proof (induction grp arbitrary: h0)
  case (Cons g grp)
  have "br_off g + br_n g \<le> s_n s"
    using Cons.prems(1) unat_add_below [of "br_off g" "br_n g" "s_n s"] by (simp add: br_inside_def word_le_nat_alt)
  then show ?case using Cons.IH [of "max h0 (br_off g + br_n g)"] Cons.prems by auto
qed simp

lemma pinRange_ok:
  assumes ok: "overlay_ok s" and r: "r \<in> set want" "br_inside s r"
    and buf: "slice (unat (br_off r - lo)) (unat (br_n r)) buf = slice (unat (br_off r)) (unat (br_n r)) (sec_content s)"
    and same: "\<forall>a \<in> set want. \<forall>b \<in> set want. br_off a = br_off b \<longrightarrow> br_n a = br_n b" and only: "only_wanted want s"
  shows "overlay_ok (pinRange lo buf r s)" and "same_section s (pinRange lo buf r s)" and "s_tail (pinRange lo buf r s) = s_tail s"
    and "only_wanted want (pinRange lo buf r s)" and "pinned (pinRange lo buf r s) r"
    and "pinned s x \<Longrightarrow> pinned (pinRange lo buf r s) x"
proof -
  let ?d = "slice (unat (br_off r)) (unat (br_n r)) (sec_content s)" and ?s = "pinRange lo buf r s"
  have s': "?s = sec_insert (br_off r) ?d s" by (simp add: pinRange_def buf)
  have len: "length ?d = unat (br_n r)" using r(2) overlay_okD(1) [OF ok] by (simp add: br_inside_def)
  have rok: "range_ok s \<lparr>rr_off = br_off r, rr_data = ?d\<rparr>" using r(2) len by (simp add: range_ok_def br_inside_def)
  note I = sec_insert_ok [OF ok rok]
  show "overlay_ok ?s" and same': "same_section s ?s" using I(1,2) s' by simp_all
  have c: "sec_content ?s = sec_content s" using same_section_content [OF same'] by simp
  show "s_tail ?s = s_tail s" by (simp add: s' sec_insert_def Let_def)
  have rd: "residentData x ?s = (if x = br_off r \<and> residentData (br_off r) s = None then Some ?d else residentData x s)" for x
    using I(3) s' by simp
  show only': "only_wanted want ?s"
    unfolding only_wanted_def c rd using only r(1) unfolding only_wanted_def by auto
  show "pinned ?s r"
  proof (cases "residentData (br_off r) s")
    case None
    then show ?thesis by (simp add: pinned_def rd c)
  next
    case (Some d)
    then obtain r' where "r' \<in> set want" "br_off r' = br_off r" "d = slice (unat (br_off r)) (unat (br_n r')) (sec_content s)"
      using only unfolding only_wanted_def by blast
    then have "d = ?d" using same r(1) by metis
    then show ?thesis using Some by (simp add: pinned_def rd c)
  qed
  show "pinned s x \<Longrightarrow> pinned ?s x" by (auto simp: pinned_def rd c)
qed

definition pin_inv :: "blockRange list \<Rightarrow> sectionReadable \<Rightarrow> sectionReadable \<Rightarrow> bool" where
  "pin_inv want s0 s = (overlay_ok s \<and> same_section s0 s \<and> s_tail s = s_tail s0 \<and> only_wanted want s)"

definition consistent :: "blockRange list \<Rightarrow> bool" where
  "consistent want = (\<forall>a \<in> set want. \<forall>b \<in> set want. br_off a = br_off b \<longrightarrow> br_n a = br_n b)"

lemma same_section_trans: "same_section a b \<Longrightarrow> same_section b c \<Longrightarrow> same_section a c"
  by (simp add: same_section_def)

lemma pin_group:
  assumes "pin_inv want s0 s" and "consistent want" and "set grp \<subseteq> set want" and "\<forall>r \<in> set grp. br_inside s0 r"
    and "\<forall>r \<in> set grp. slice (unat (br_off r - lo)) (unat (br_n r)) buf = slice (unat (br_off r)) (unat (br_n r)) (sec_content s0)"
  shows "pin_inv want s0 (fold (pinRange lo buf) grp s) \<and> (\<forall>r \<in> set grp. pinned (fold (pinRange lo buf) grp s) r) \<and>
    (\<forall>r. pinned s r \<longrightarrow> pinned (fold (pinRange lo buf) grp s) r)"
  using assms
proof (induction grp arbitrary: s)
  case (Cons g grp)
  let ?s = "pinRange lo buf g s"
  have inv: "overlay_ok s" "same_section s0 s" "s_tail s = s_tail s0" "only_wanted want s"
    using Cons.prems(1) by (simp_all add: pin_inv_def)
  have c: "sec_content s = sec_content s0" using same_section_content [OF inv(2)] by blast
  have "s_n s = s_n s0" using inv(2) by (simp add: same_section_def)
  then have g: "br_inside s g" "g \<in> set want" using Cons.prems(3,4) by (simp_all add: br_inside_def)
  have buf: "slice (unat (br_off g - lo)) (unat (br_n g)) buf = slice (unat (br_off g)) (unat (br_n g)) (sec_content s)"
    using Cons.prems(5) c by simp
  note P = pinRange_ok [OF inv(1) g(2,1) buf Cons.prems(2) [unfolded consistent_def] inv(4)]
  have "pin_inv want s0 ?s"
    unfolding pin_inv_def using P(1,3,4) same_section_trans [OF inv(2) P(2)] inv(3) by simp
  moreover have "pinned ?s g" by (rule P(5))
  moreover have "\<And>x. pinned s x \<Longrightarrow> pinned ?s x" by (rule P(6))
  ultimately show ?case using Cons.IH [of ?s] Cons.prems by simp
qed simp

lemma resideLoop_ok:
  assumes "pin_inv want s0 s" and "consistent want" and "\<forall>r \<in> set want. br_inside s0 r" and "sorted (map br_off want)"
    and "ends_ok i js (length want)" and "\<forall>r \<in> set (take i want). pinned s r"
  shows "\<exists>s'. resideLoop want i js s = Inr s' \<and> pin_inv want s0 s' \<and> (\<forall>r \<in> set want. pinned s' r)"
  using assms(1,5,6)
proof (induction js arbitrary: i s)
  case Nil
  then show ?case by auto
next
  case (Cons j js)
  define grp where "grp = slice i (j - i) want"
  define lo where "lo = br_off (want ! i)"
  define hi where "hi = fold (\<lambda>r h. max h (br_off r + br_n r)) grp 0"
  have ij: "i < j" "j \<le> length want" "ends_ok j js (length want)" using Cons.prems(2) by auto
  have sub: "set grp \<subseteq> set want" by (auto simp: grp_def dest: in_set_takeD in_set_dropD)
  have ok: "overlay_ok s" and c: "sec_content s = sec_content s0" "s_n s = s_n s0"
    using Cons.prems(1) same_section_content [of s0 s] by (simp_all add: pin_inv_def same_section_def)
  have ins: "\<forall>r \<in> set grp. br_inside s r"
  proof
    fix r assume "r \<in> set grp"
    then have "r \<in> set want" using sub by blast
    then show "br_inside s r" using assms(3) c(2) by (simp add: br_inside_def)
  qed
  have lo_le: "lo \<le> br_off r" if r: "r \<in> set grp" for r
  proof -
    obtain m where m: "m < length grp" "r = grp ! m" using r by (metis in_set_conv_nth)
    define k where "k = i + m"
    have "k < length want" "i \<le> k" "r = want ! k" using m ij by (simp_all add: k_def grp_def)
    then show ?thesis using assms(4) unfolding lo_def by (simp add: sorted_iff_nth_mono)
  qed
  have mem: "want ! i \<in> set grp"
    using ij nth_mem [of 0 grp] by (simp add: grp_def)
  have hi: "hi \<le> s_n s" "r \<in> set grp \<Longrightarrow> br_off r + br_n r \<le> hi" for r
    using fold_max_bounds [OF ins, of 0] by (simp_all add: hi_def)
  have lohi: "lo + br_n (want ! i) \<le> hi" "unat lo \<le> unat hi"
  proof -
    show "lo + br_n (want ! i) \<le> hi" using hi(2) [OF mem] by (simp add: lo_def)
    moreover have "unat (lo + br_n (want ! i)) = unat lo + unat (br_n (want ! i))"
      using ins mem by (intro unat_add_below [of _ _ "s_n s"]) (simp add: br_inside_def lo_def)
    ultimately show "unat lo \<le> unat hi" by (simp add: word_le_nat_alt)
  qed
  have len: "unat (hi - lo) = unat hi - unat lo" using lohi(2) by (simp add: unat_sub_if')
  have rd: "sec_read lo (hi - lo) s = Inr (slice (unat lo) (unat hi - unat lo) (sec_content s))"
    using sec_read_exact [OF ok, of lo "hi - lo"] len lohi(2) hi(1) by (simp add: word_le_nat_alt)
  define buf where "buf = slice (unat lo) (unat hi - unat lo) (sec_content s)"
  have sub_buf: "slice (unat (br_off r - lo)) (unat (br_n r)) buf = slice (unat (br_off r)) (unat (br_n r)) (sec_content s0)"
    if r: "r \<in> set grp" for r
  proof -
    have "unat (br_off r + br_n r) = unat (br_off r) + unat (br_n r)"
      using ins r by (intro unat_add_below [of _ _ "s_n s"]) (auto simp: br_inside_def)
    then have "unat (br_off r) + unat (br_n r) \<le> unat hi" using hi(2) [OF r] by (simp add: word_le_nat_alt)
    moreover have "unat lo \<le> unat (br_off r)" using lo_le [OF r] by (simp add: word_le_nat_alt)
    moreover from this have "unat (br_off r - lo) = unat (br_off r) - unat lo" by (simp add: unat_sub_if')
    ultimately show ?thesis using slice_slice [of "unat lo" "unat (br_off r)" "unat (br_n r)" "unat hi - unat lo" "sec_content s"] c lohi(2) unfolding buf_def by simp
  qed
  let ?s = "fold (pinRange lo buf) grp s"
  have G: "pin_inv want s0 ?s" "\<forall>r \<in> set grp. pinned ?s r" "\<forall>r. pinned s r \<longrightarrow> pinned ?s r"
    using pin_group [OF Cons.prems(1) assms(2) sub, of lo buf] assms(3) sub sub_buf by auto
  have "set (take j want) = set (take i want) \<union> set grp"
    using ij(1) unfolding grp_def by (metis le_add_diff_inverse less_imp_le set_append take_add)
  then have "\<forall>r \<in> set (take j want). pinned ?s r" using G Cons.prems(3) by auto
  then obtain s' where "resideLoop want j js ?s = Inr s'" "pin_inv want s0 s'" "\<forall>r \<in> set want. pinned s' r"
    using Cons.IH [OF G(1) ij(3)] by blast
  moreover have "resideLoop want i (j # js) s = resideLoop want j js ?s"
    using rd by (simp add: Let_def flip: grp_def lo_def) (simp add: hi_def buf_def)
  ultimately show ?case by simp
qed

section \<open>Opening a section\<close>

text \<open>
  What \<^verbatim>\<open>openRunAttempt\<close> does to a section of a run it opens from the artifact: the tail window, the
  handles of the layout, the footer gap, and the window dropped again.
\<close>

definition openSection :: "u64 \<Rightarrow> u64 \<Rightarrow> u64 \<Rightarrow> (u64 \<times> u64) list \<Rightarrow> sectionReadable \<Rightarrow> sectionReadable res" where
  "openSection gap tr dataSize bhs s =
     (case resideTail dataSize s of Inl e \<Rightarrow> Inl e | Inr s \<Rightarrow>
      case reside gap tr bhs s of Inl e \<Rightarrow> Inl e | Inr s \<Rightarrow>
      case pinFooter tr bhs s of Inl e \<Rightarrow> Inl e | Inr s \<Rightarrow> Inr (dropTail s))"

definition handles_ok :: "u64 \<Rightarrow> u64 \<Rightarrow> (u64 \<times> u64) list \<Rightarrow> bool" where
  "handles_ok tr n bhs = ((\<forall>(off, len) \<in> set bhs. unat off + (unat len + unat tr) \<le> unat n) \<and>
     (\<forall>(off, len) \<in> set bhs. \<forall>(off', len') \<in> set bhs. len \<noteq> 0 \<and> len' \<noteq> 0 \<and> off = off' \<longrightarrow> len = len'))"

lemma newSection_ok:
  "length b < 2 ^ 63 \<Longrightarrow> unat off + unat n \<le> length b \<Longrightarrow> overlay_ok (newSection b off n)"
  by (simp add: overlay_ok_def newSection_def)

lemma resideTail_ok:
  assumes "overlay_ok s"
  shows "\<exists>s'. resideTail d s = Inr s' \<and> overlay_ok s' \<and> same_section s s' \<and> res s' = res s"
proof (cases "d = 0 \<or> d \<ge> s_n s")
  case True
  then show ?thesis using assms by (simp add: resideTail_def same_section_def)
next
  case False
  have d: "unat d + unat (s_n s - d) = unat (s_n s)" using False by (simp add: unat_sub_if' word_le_nat_alt not_le word_less_nat_alt)
  let ?t = "\<lparr>rr_off = d, rr_data = slice (unat d) (unat (s_n s - d)) (sec_content s)\<rparr>"
  have r: "blob_Read (s_b s) (s_off s + d) (s_n s - d) = Inr (rr_data ?t)"
    using blob_section [OF assms, of d "s_n s - d"] d by simp
  have "range_ok s ?t" using overlay_okD(1) [OF assms] d by (simp add: range_ok_def)
  then have "overlay_ok (s\<lparr>s_tail := Some ?t\<rparr>)"
    using assms same_section_content [of s "s\<lparr>s_tail := Some ?t\<rparr>"] by (simp add: overlay_ok_def same_section_def)
  then show ?thesis using r False by (simp add: resideTail_def same_section_def)
qed

lemma dropTail_ok: "overlay_ok s \<Longrightarrow> overlay_ok (dropTail s) \<and> same_section s (dropTail s) \<and> res (dropTail s) = res s"
  using same_section_content [of s "dropTail s"] by (simp add: overlay_ok_def dropTail_def same_section_def)

lemma residentData_dropTail: "residentData off (dropTail s) = residentData off s"
  by (simp add: residentData_def dropTail_def Let_def cong: if_cong)

lemma release_ok: "overlay_ok s \<Longrightarrow> overlay_ok (sec_release s) \<and> same_section s (sec_release s)"
  using same_section_content [of s "sec_release s"] by (simp add: overlay_ok_def sec_release_def same_section_def)

lemma resideAll_ok:
  assumes "overlay_ok s"
  shows "\<exists>s'. resideAll s = Inr s' \<and> overlay_ok s' \<and> same_section s s'"
proof (cases "s_n s = 0")
  case True
  then show ?thesis using assms by (simp add: resideAll_def same_section_def)
next
  case False
  note O = overlay_okD [OF assms]
  have c: "copyPieces (blob_Read (s_b s)) (s_off s) (s_n s) 0 [] = Inr (sec_content s)"
    using blob.copyPieces_whole [OF O(2,3)] by (simp add: sec_content_def)
  let ?s = "s\<lparr>res := [\<lparr>rr_off = 0, rr_data = sec_content s\<rparr>], resident := s_n s\<rparr>"
  have same: "same_section s ?s" by (simp add: same_section_def)
  have "overlay_ok ?s"
    using assms same_section_content [OF same] O(1) by (simp add: overlay_ok_def range_ok_def)
  then show ?thesis using c False same by (simp add: resideAll_def)
qed

lemma wantRanges_fresh:
  assumes "res s = []" and "\<forall>(off, len) \<in> set bhs. unat off + (unat len + unat tr) \<le> unat (s_n s)"
  shows "wantRanges tr s bhs = Inr (map (\<lambda>(off, len). \<lparr>br_off = off, br_n = len + tr\<rparr>) (filter (\<lambda>(off, len). len \<noteq> 0) bhs))"
  using assms(2)
proof (induction bhs)
  case (Cons a bhs)
  obtain off len where a: "a = (off, len)" by fastforce
  have b: "unat off + (unat len + unat tr) \<le> unat (s_n s)" using Cons.prems a by simp
  have "unat (len + tr) = unat len + unat tr" using b by (intro unat_add_below [of _ _ "s_n s"]) simp
  moreover from this have "unat (off + (len + tr)) = unat off + unat (len + tr)" using b by (intro unat_add_below [of _ _ "s_n s"]) simp
  ultimately have "\<not> off + (len + tr) > s_n s" using b by (simp add: word_less_nat_alt)
  moreover have "\<not> isResident off s" using assms(1) by (simp add: isResident_def residentData_def)
  ultimately show ?case using Cons by (simp add: a Let_def)
qed simp

lemma reside_fresh:
  assumes ok: "overlay_ok s" and fresh: "res s = []" and h: "handles_ok tr (s_n s) bhs"
  shows "\<exists>s'. reside gap tr bhs s = Inr s' \<and> overlay_ok s' \<and> same_section s s' \<and> s_tail s' = s_tail s \<and>
    (\<forall>(off, len) \<in> set bhs. len \<noteq> 0 \<longrightarrow> pinned s' \<lparr>br_off = off, br_n = len + tr\<rparr>)"
proof -
  define ws where "ws = map (\<lambda>(off, len). \<lparr>br_off = off, br_n = len + tr\<rparr>) (filter (\<lambda>(off, len). len \<noteq> 0) bhs)"
  define want where "want = sort_key br_off ws"
  have w: "wantRanges tr s bhs = Inr ws" using wantRanges_fresh [OF fresh] h by (simp add: handles_ok_def ws_def)
  have inside: "\<forall>r \<in> set want. br_inside s r"
  proof
    fix r assume "r \<in> set want"
    then obtain off len where r: "r = \<lparr>br_off = off, br_n = len + tr\<rparr>" "(off, len) \<in> set bhs" by (auto simp: want_def ws_def)
    then have b: "unat off + (unat len + unat tr) \<le> unat (s_n s)" using h by (auto simp: handles_ok_def)
    then have "unat (len + tr) = unat len + unat tr" by (intro unat_add_below [of _ _ "s_n s"]) simp
    then show "br_inside s r" using b r by (simp add: br_inside_def)
  qed
  have "consistent want"
    using h by (fastforce simp: consistent_def want_def ws_def handles_ok_def)
  moreover have "pin_inv want s s"
    using ok fresh by (simp add: pin_inv_def same_section_def only_wanted_def residentData_def)
  moreover have "sorted (map br_off want)" by (simp add: want_def)
  ultimately obtain s' where s': "resideLoop want 0 (resideSpans gap want) s = Inr s'" "pin_inv want s s'" "\<forall>r \<in> set want. pinned s' r"
    using resideLoop_ok [OF _ _ inside _ resideSpans_ends] by fastforce
  moreover have "\<lparr>br_off = off, br_n = len + tr\<rparr> \<in> set want" if "(off, len) \<in> set bhs" "len \<noteq> 0" for off len
    using that by (force simp: want_def ws_def)
  ultimately show ?thesis by (auto simp: reside_def w want_def Let_def pin_inv_def)
qed

text \<open>A range pinned at exactly the offset of a read answers it, whatever the artifact holds.\<close>

lemma search_at:
  assumes sorted: "sorted_wrt (\<lambda>a b. rr_off a < rr_off b) rs" and r: "r \<in> set rs" and off: "rr_off r = off"
  shows "0 < sort_Search (length rs) (\<lambda>i. rr_off (rs ! i) > off) \<and> rs ! (sort_Search (length rs) (\<lambda>i. rr_off (rs ! i) > off) - 1) = r"
proof -
  define tw where "tw = takeWhile (\<lambda>x. \<not> rr_off x > off) rs"
  have i: "sort_Search (length rs) (\<lambda>i. rr_off (rs ! i) > off) = length tw"
    unfolding tw_def by (rule sort_Search_takeWhile) (metis sorted le_neq_implies_less less_trans sorted_wrt_nth_less)
  obtain p where p: "p < length rs" "rs ! p = r" using r by (metis in_set_conv_nth)
  have "length tw = Suc p"
  proof (rule antisym)
    have below: "\<not> rr_off (rs ! k) > off" if "k \<le> p" for k
      using sorted p that off by (metis le_neq_implies_less less_asym less_irrefl sorted_wrt_nth_less)
    show "Suc p \<le> length tw"
    proof (rule ccontr)
      assume "\<not> Suc p \<le> length tw"
      then have "length tw \<le> p" by simp
      then show False using nth_length_takeWhile [of "\<lambda>x. \<not> rr_off x > off" rs] below p(1) by (simp add: tw_def)
    qed
    show "length tw \<le> Suc p"
    proof (rule ccontr)
      assume "\<not> length tw \<le> Suc p"
      then have s: "Suc p < length tw" by simp
      then have "rs ! Suc p \<in> set tw" by (metis nth_mem takeWhile_nth tw_def)
      then have "\<not> rr_off (rs ! Suc p) > off" by (auto simp: tw_def dest: set_takeWhileD)
      moreover have "Suc p < length rs" using s length_takeWhile_le [of "\<lambda>x. \<not> rr_off x > off" rs] by (simp add: tw_def)
      ultimately show False using sorted p off by (metis lessI sorted_wrt_nth_less)
    qed
  qed
  then show ?thesis using i p by simp
qed

lemma pinned_read:
  assumes ok: "overlay_ok s" and p: "pinned s r" and ins: "br_inside s r"
  shows "ReadAt (s\<lparr>s_b := b'\<rparr>) (br_off r) (br_n r) = Inr (slice (unat (br_off r)) (unat (br_n r)) (sec_content s))"
proof -
  note O = overlay_okD [OF ok]
  let ?d = "slice (unat (br_off r)) (unat (br_n r)) (sec_content s)"
  obtain x where x: "x \<in> set (res s)" "rr_off x = br_off r" "rr_data x = ?d"
    using p residentData_spec [OF O(4), of "br_off r"] unfolding pinned_def by (auto dest!: map_of_SomeD)
  have len: "length ?d = unat (br_n r)" using ins O(1) by (simp add: br_inside_def)
  have "of_nat (length ?d) = br_n r" unfolding len of_nat_unat by simp
  moreover have "\<not> br_off r > s_n s" "\<not> br_n r > s_n s - br_off r" "\<not> 2 ^ 63 \<le> unat (br_off r)"
    using ins O(2,3) by (auto simp: br_inside_def word_less_nat_alt unat_sub_if')
  ultimately show ?thesis
    using search_at [OF O(4) x(1,2)] x(2,3) by (simp add: ReadAt_def Let_def)
qed

lemma pinFooter_ok:
  assumes ok: "overlay_ok s"
  shows "\<exists>s'. pinFooter tr bhs s = Inr s' \<and> overlay_ok s' \<and> same_section s s' \<and> (\<forall>r. pinned s r \<longrightarrow> pinned s' r)"
proof (cases "s_n s > 0 \<and> residentEnd tr bhs < s_n s")
  case False
  then show ?thesis using ok by (auto simp: pinFooter_def Let_def same_section_def)
next
  case True
  define e where "e = residentEnd tr bhs"
  have e: "unat e + unat (s_n s - e) = unat (s_n s)" using True by (simp add: e_def unat_sub_if' word_less_nat_alt)
  let ?d = "slice (unat e) (unat (s_n s - e)) (sec_content s)"
  have rd: "sec_read e (s_n s - e) s = Inr ?d" by (rule sec_read_exact [OF ok]) (simp add: e)
  have "range_ok s \<lparr>rr_off = e, rr_data = ?d\<rparr>" using overlay_okD(1) [OF ok] e by (simp add: range_ok_def)
  note I = sec_insert_ok [OF ok this]
  have "pinned (sec_insert e ?d s) r" if "pinned s r" for r
    using that I(3) same_section_content [OF I(2)] by (auto simp: pinned_def)
  then show ?thesis using I(1,2) rd True by (auto simp: pinFooter_def Let_def e_def)
qed

lemma openSection_ok:
  assumes ok: "overlay_ok (newSection b off n)" and h: "handles_ok tr n bhs"
  shows "\<exists>s. openSection gap tr dataSize bhs (newSection b off n) = Inr s \<and> overlay_ok s \<and> same_section (newSection b off n) s \<and>
    (\<forall>(o', len) \<in> set bhs. len \<noteq> 0 \<longrightarrow> pinned s \<lparr>br_off = o', br_n = len + tr\<rparr>)"
proof -
  obtain s1 where s1: "resideTail dataSize (newSection b off n) = Inr s1" "overlay_ok s1" "same_section (newSection b off n) s1" "res s1 = []"
    using resideTail_ok [OF ok, of dataSize] by (auto simp: newSection_def)
  have n1: "s_n s1 = n" using s1(3) by (simp add: same_section_def newSection_def)
  obtain s2 where s2: "reside gap tr bhs s1 = Inr s2" "overlay_ok s2" "same_section s1 s2"
    "\<forall>(o', len) \<in> set bhs. len \<noteq> 0 \<longrightarrow> pinned s2 \<lparr>br_off = o', br_n = len + tr\<rparr>"
    using reside_fresh [OF s1(2,4) h [folded n1], of gap] by blast
  obtain s3 where s3: "pinFooter tr bhs s2 = Inr s3" "overlay_ok s3" "same_section s2 s3" "\<forall>r. pinned s2 r \<longrightarrow> pinned s3 r"
    using pinFooter_ok [OF s2(2)] by blast
  have D: "overlay_ok (dropTail s3)" "same_section s3 (dropTail s3)" using dropTail_ok [OF s3(2)] by auto
  have "pinned (dropTail s3) r" if "pinned s3 r" for r
    using that residentData_dropTail same_section_content [OF D(2)] by (simp add: pinned_def)
  then have "\<forall>(o', len) \<in> set bhs. len \<noteq> 0 \<longrightarrow> pinned (dropTail s3) \<lparr>br_off = o', br_n = len + tr\<rparr>"
    using s2(4) s3(4) by blast
  moreover have "same_section (newSection b off n) (dropTail s3)"
    by (rule same_section_trans [OF same_section_trans [OF same_section_trans [OF s1(3) s2(3)] s3(3)] D(2)])
  ultimately show ?thesis
    using D(1) by (intro exI [of _ "dropTail s3"]) (simp add: openSection_def s1(1) s2(1) s3(1))
qed

lemma handles_inside:
  assumes "handles_ok tr n bhs" and "(o', len) \<in> set bhs" and "s_n s = n"
  shows "br_inside s \<lparr>br_off = o', br_n = len + tr\<rparr>"
proof -
  have b: "unat o' + (unat len + unat tr) \<le> unat n" using assms(1,2) by (auto simp: handles_ok_def)
  then have "unat (len + tr) = unat len + unat tr" by (intro unat_add_below [of _ _ n]) simp
  then show ?thesis using b assms(3) by (simp add: br_inside_def)
qed

text \<open>
  C13. Opening a section never changes what it reads, and pinned blocks never cost an artifact read: for
  handles inside the section the open succeeds; afterwards every read inside the section returns exactly
  its bytes of the artifact and every read that sticks out is an end of file; and the read of a pinned
  block with its trailer gives the same bytes whatever the artifact is replaced by.
\<close>

theorem open_section_reads:
  assumes "length b < 2 ^ 63" and "unat off + unat n \<le> length b" and "handles_ok tr n bhs"
  shows "\<exists>s. openSection gap tr dataSize bhs (newSection b off n) = Inr s \<and>
    (\<forall>o' k. ReadAt s o' k = (if unat o' + unat k \<le> unat n then Inr (slice (unat off + unat o') (unat k) b) else Inl (Errorf ''EOF''))) \<and>
    (\<forall>(o', len) \<in> set bhs. len \<noteq> 0 \<longrightarrow>
      (\<forall>b'. ReadAt (s\<lparr>s_b := b'\<rparr>) o' (len + tr) = Inr (slice (unat off + unat o') (unat (len + tr)) b)))"
proof -
  have ok: "overlay_ok (newSection b off n)" by (rule newSection_ok [OF assms(1,2)])
  obtain s where s: "openSection gap tr dataSize bhs (newSection b off n) = Inr s" "overlay_ok s" "same_section (newSection b off n) s"
    "\<forall>(o', len) \<in> set bhs. len \<noteq> 0 \<longrightarrow> pinned s \<lparr>br_off = o', br_n = len + tr\<rparr>"
    using openSection_ok [OF ok assms(3)] by blast
  have c: "sec_content s = slice (unat off) (unat n) b" and n': "s_n s = n"
    using s(3) same_section_content [OF s(3)] by (simp_all add: same_section_def newSection_def sec_content_def)
  have sl: "slice o' k (sec_content s) = slice (unat off + o') k b" if "o' + k \<le> unat n" for o' k
    using slice_slice [of "unat off" "unat off + o'" k "unat n" b] that by (simp add: c)
  have P: "ReadAt (s\<lparr>s_b := b'\<rparr>) o' (len + tr) = Inr (slice (unat off + unat o') (unat (len + tr)) b)"
    if h: "(o', len) \<in> set bhs" "len \<noteq> 0" for o' len b'
  proof -
    have i: "br_inside s \<lparr>br_off = o', br_n = len + tr\<rparr>" by (rule handles_inside [OF assms(3) h(1) n'])
    have "pinned s \<lparr>br_off = o', br_n = len + tr\<rparr>" using s(4) h by blast
    from pinned_read [OF s(2) this i] show ?thesis using sl i n' by (simp add: br_inside_def)
  qed
  have "ReadAt s o' k = (if unat o' + unat k \<le> unat n then Inr (slice (unat off + unat o') (unat k) b) else Inl (Errorf ''EOF''))" for o' k
    using ReadAt_inside [OF s(2)] ReadAt_outside [OF s(2)] sl n' by auto
  then show ?thesis using s(1) P by (intro exI [of _ s]) auto
qed

section \<open>Sidecars round trip\<close>

definition addEntry :: "nat \<times> residentRange \<Rightarrow> residentRange list list \<Rightarrow> residentRange list list" where
  "addEntry e acc = acc[fst e := acc ! fst e @ [snd e]]"

definition payload :: "(nat \<times> residentRange) list \<Rightarrow> bytes" where
  "payload es = concat (map (rr_data \<circ> snd) es)"

lemma length_entryBytes [simp]: "length (entryBytes e) = 17"
  by (simp add: entryBytes_def)

lemma drop_entries: "i \<le> length es \<Longrightarrow> drop (17 * i) (concat (map entryBytes es)) = concat (map entryBytes (drop i es))"
proof (induction es arbitrary: i)
  case (Cons e es)
  then show ?case by (cases i) simp_all
qed simp

lemma length_entries: "length (concat (map entryBytes es)) = 17 * length es"
  by (induction es) simp_all

lemma entry_at:
  assumes "hdr = resMagic @ be32 c" and "es = pre @ (s, r) # post" and "s < 256"
    and e_def: "e = drop (12 + length pre * 17) (hdr @ concat (map entryBytes es) @ rest)"
  shows "unat (e ! 0) = s" and "get64 (drop 1 e) = rr_off r" and "get64 (drop 9 e) = of_nat (length (rr_data r))"
proof -
  have "length hdr = 12" by (simp add: assms(1) resMagic_def)
  then have "e = drop (17 * length pre) (concat (map entryBytes es)) @ drop (17 * length pre - 17 * length es) rest"
    using length_entries [of es] by (simp add: e_def mult.commute)
  also have "\<dots> = concat (map entryBytes ((s, r) # post)) @ rest"
    using drop_entries [of "length pre" es] assms(2) by simp
  finally have e: "e = of_nat s # be64 (rr_off r) @ be64 (of_nat (length (rr_data r))) @ concat (map entryBytes post) @ rest"
    by (simp add: entryBytes_def)
  show "unat (e ! 0) = s" using assms(3) by (simp add: e unat_of_nat)
  show "get64 (drop 1 e) = rr_off r" "get64 (drop 9 e) = of_nat (length (rr_data r))"
    by (simp_all add: e get64_be64)
qed

lemma loadEntries_write:
  assumes "hdr = resMagic @ be32 c" and "data = hdr @ concat (map entryBytes es) @ payload es" and "length data < 2 ^ 63"
    and "\<forall>e \<in> set es. fst e < numSections" and "es = pre @ post" and "length acc = numSections"
  shows "loadEntries data (length pre) (length post) (of_nat (12 + 17 * length es + length (payload pre))) acc =
    Inr (of_nat (length data), fold addEntry post acc)"
  using assms(5,6)
proof (induction post arbitrary: pre acc)
  case Nil
  then show ?case using assms(1,2) by (simp add: resMagic_def length_entries)
next
  case (Cons e post)
  obtain s r where e: "e = (s, r)" by fastforce
  have s: "s < numSections" using assms(4) Cons.prems(1) e by simp
  have hl: "length hdr = 12" using assms(1) by (simp add: resMagic_def)
  let ?pay = "12 + 17 * length es + length (payload pre)"
  define P N :: u64 where "P = of_nat ?pay" and "N = of_nat (length (rr_data r))"
  have s256: "s < 256" using s by (simp add: numSections_def)
  note E = entry_at [OF assms(1) Cons.prems(1) [unfolded e] s256 refl, of "payload es", folded assms(2), folded N_def]
  have split: "payload es = payload pre @ rr_data r @ payload post" by (simp add: Cons.prems(1) e payload_def)
  have len: "length data = ?pay + length (rr_data r) + length (payload post)"
    unfolding assms(2) split by (simp add: hl length_entries)
  have N: "unat N = length (rr_data r)" using len assms(3) by (simp add: N_def unat_of_nat)
  have P: "unat P = ?pay" unfolding P_def by (rule unat_of_nat_small) (use len assms(3) in simp)
  have PN: "unat (P + N) = ?pay + length (rr_data r)"
    using len assms(3) P N unat_add_small [of P N] by simp
  have D: "unat (of_nat (length data) :: u64) = length data" using assms(3) by (simp add: unat_of_nat)
  have sl: "slice (unat P) (unat N) data = rr_data r"
    unfolding P N unfolding assms(2) split by (simp add: hl length_entries)
  have IH: "loadEntries data (length (pre @ [e])) (length post) (of_nat (12 + 17 * length es + length (payload (pre @ [e])))) (addEntry e acc) =
    Inr (of_nat (length data), fold addEntry post (addEntry e acc))"
    by (rule Cons.IH) (use Cons.prems in \<open>simp_all add: addEntry_def\<close>)
  have next': "of_nat (12 + 17 * length es + length (payload (pre @ [e]))) = P + N"
    by (simp add: P_def N_def payload_def e)
  have rr: "\<lparr>rr_off = rr_off r, rr_data = rr_data r\<rparr> = r" by (cases r) simp
  have c: "\<not> P + N > of_nat (length data)" "\<not> P + N < P"
    unfolding word_less_nat_alt PN P D using len by simp_all
  have "loadEntries data (length pre) (Suc (length post)) P acc =
    (if s \<ge> numSections \<or> P + N > of_nat (length data) then Inl (Errorf ''sidecar entry is torn'')
     else if P + N < P then Inl GoPanic
     else loadEntries data (Suc (length pre)) (length post) (P + N) (acc[s := acc ! s @ [\<lparr>rr_off = rr_off r, rr_data = slice (unat P) (unat N) data\<rparr>]]))"
    by (simp only: loadEntries.simps Let_def E)
  also have "\<dots> = loadEntries data (length (pre @ [e])) (length post) (P + N) (addEntry e acc)"
    using s c unfolding sl rr by (simp add: addEntry_def e)
  finally show ?case using IH unfolding next' by (simp add: P_def)
qed

lemma fold_addEntry:
  "i < length acc \<Longrightarrow> fold addEntry (map (Pair i) rs) acc = acc[i := acc ! i @ rs]"
  by (induction rs arbitrary: acc) (simp_all add: addEntry_def)

lemma fold_sidecarEntries:
  assumes "length secs = numSections"
  shows "fold addEntry (sidecarEntries secs) (replicate numSections []) = secs"
proof -
  obtain a b c where "secs = [a, b, c]"
    using assms by (auto simp: numSections_def length_Suc_conv numeral_3_eq_3)
  then show ?thesis by (simp add: sidecarEntries_def numSections_def fold_addEntry numeral_3_eq_3)
qed

lemma load_writeSidecar:
  assumes "length secs = numSections" and "\<forall>rs \<in> set secs. sorted_wrt (\<lambda>a b. rr_off a < rr_off b) rs"
    and "length (writeSidecar secs) < 2 ^ 63" and "length (sidecarEntries secs) < 2 ^ 32"
  shows "loadSidecar (writeSidecar secs) = Inr secs"
proof -
  define es where "es = sidecarEntries secs"
  define c :: u32 where "c = of_nat (length es)"
  have c: "unat c = length es" using assms(4) by (simp add: c_def es_def unat_of_nat)
  have w: "writeSidecar secs = (resMagic @ be32 c) @ concat (map entryBytes es) @ payload es"
    by (simp add: writeSidecar_def es_def c_def payload_def Let_def)
  have fs: "\<forall>e \<in> set es. fst e < numSections"
    using assms(1) by (auto simp: es_def sidecarEntries_def in_set_enumerate_eq)
  have m: "length resMagic = 8" by (simp add: resMagic_def)
  have l: "loadEntries (writeSidecar secs) 0 (length es) (of_nat (12 + 17 * length es)) (replicate numSections []) =
      Inr (of_nat (length (writeSidecar secs)), secs)"
    using loadEntries_write [OF refl w assms(3) fs, of "[]" es "replicate numSections []"] fold_sidecarEntries [OF assms(1)]
    by (simp add: payload_def es_def)
  have "sort_key rr_off rs = rs" if "rs \<in> set secs" for rs
  proof (rule sort_key_id_if_sorted)
    have "sorted_wrt (<) (map rr_off rs)" using assms(2) that by (simp add: sorted_wrt_map)
    then show "sorted (map rr_off rs)" by (rule strict_sorted_imp_sorted)
  qed
  then have s: "map (sort_key rr_off) secs = secs" by (simp add: map_idI)
  have "take 8 (writeSidecar secs) = resMagic" "drop 8 (writeSidecar secs) = be32 c @ concat (map entryBytes es) @ payload es"
    by (simp_all add: w m)
  moreover have "length (writeSidecar secs) \<ge> 12 + length es * 17" by (simp add: w m length_entries)
  ultimately show ?thesis
    using l c s by (simp add: loadSidecar_def Let_def mult.commute)
qed

text \<open>
  C15. A sidecar gives back the pinned ranges: writing the overlays of the three sections and loading the
  file again yields the same ranges, in the order the reader's binary search needs.
\<close>

theorem sidecar_roundtrip:
  assumes "length secs = numSections" and "\<forall>rs \<in> set secs. sorted_wrt (\<lambda>a b. rr_off a < rr_off b) rs"
    and "length (writeSidecar secs) < 2 ^ 63" and "length (sidecarEntries secs) < 2 ^ 32"
  shows "loadSidecar (writeSidecar secs) = Inr secs"
  using assms by (rule load_writeSidecar)

text \<open>
  C28. A corrupt length crashes the load: an entry whose length makes \<open>pay + n\<close> wrap passes the size test,
  and the slice expression then panics, so the file is not answered by a rebuild.
\<close>

theorem sidecar_wrap_panics:
  assumes "length rest < 2 ^ 32" and "2 ^ 64 \<le> unat n + 29"
  shows "loadSidecar (resMagic @ be32 1 @ [0] @ be64 off @ be64 n @ rest) = Inl GoPanic"
proof -
  define data where "data = resMagic @ be32 1 @ [0] @ be64 off @ be64 n @ rest"
  have m: "length resMagic = 8" by (simp add: resMagic_def)
  have e: "drop 12 data = 0 # be64 off @ be64 n @ rest" by (simp add: m data_def)
  have pn: "unat (29 + n) = unat n + 29 - 2 ^ 64"
    using assms(2) unsigned_less [of n, where ?'a = nat] by (simp add: unat_word_ariths mod_if)
  have "length data = 29 + length rest" by (simp add: m data_def)
  then have "unat (of_nat (length data) :: u64) = 29 + length rest"
    using assms(1) unat_of_nat_small [of "length data"] by simp
  then have c: "\<not> 29 + n > of_nat (length data)" "29 + n < 29"
    using assms(2) pn unsigned_less [of n, where ?'a = nat] by (auto simp: word_less_nat_alt)
  have "loadEntries data 0 (Suc 0) 29 (replicate numSections []) = Inl GoPanic"
    using c by (simp add: e numSections_def Let_def)
  moreover have "take 8 data = resMagic" "get32 (drop 8 data) = 1" "12 + 17 \<le> length data" by (simp_all add: data_def m)
  ultimately show ?thesis unfolding data_def [symmetric] by (simp add: loadSidecar_def)
qed

section \<open>Instances\<close>

theorem open_section_reads_witness:
  "\<exists>s. openSection 4 1 3 [(3, 1), (5, 2)] (newSection [9, 10, 11, 12, 13, 14, 15, 16, 17, 18] 1 8) = Inr s \<and>
    ReadAt s 0 3 = Inr [10, 11, 12] \<and> ReadAt s 7 2 = Inl (Errorf ''EOF'') \<and> ReadAt (s\<lparr>s_b := []\<rparr>) 5 3 = Inr [15, 16, 17]"
proof -
  let ?b = "[9, 10, 11, 12, 13, 14, 15, 16, 17, 18] :: bytes" and ?h = "[(3, 1), (5, 2)] :: (u64 \<times> u64) list"
  have "handles_ok 1 8 ?h" by (simp add: handles_ok_def)
  then obtain s where s: "openSection 4 1 3 ?h (newSection ?b 1 8) = Inr s"
    and r: "\<forall>o' k. ReadAt s o' k = (if unat o' + unat k \<le> unat (8 :: u64) then Inr (slice (unat (1 :: u64) + unat o') (unat k) ?b) else Inl (Errorf ''EOF''))"
    and p: "\<forall>(o', len) \<in> set ?h. len \<noteq> 0 \<longrightarrow>
      (\<forall>b'. ReadAt (s\<lparr>s_b := b'\<rparr>) o' (len + 1) = Inr (slice (unat (1 :: u64) + unat o') (unat (len + 1)) ?b))"
    using open_section_reads [of ?b 1 8 1 ?h 4 3] by auto
  have "ReadAt (s\<lparr>s_b := []\<rparr>) 5 (2 + 1) = Inr (slice (unat (1 :: u64) + unat (5 :: u64)) (unat (2 + 1 :: u64)) ?b)"
    using p by simp
  then show ?thesis using s r by (intro exI [of _ s]) simp
qed

definition sample_overlay :: "residentRange list list" where
  "sample_overlay = [[\<lparr>rr_off = 3, rr_data = [1, 2]\<rparr>, \<lparr>rr_off = 7, rr_data = [4]\<rparr>], [], [\<lparr>rr_off = 0, rr_data = [5]\<rparr>]]"

theorem sidecar_roundtrip_witness: "loadSidecar (writeSidecar sample_overlay) = Inr sample_overlay"
proof -
  have "length (writeSidecar sample_overlay) < 2 ^ 63" "length (sidecarEntries sample_overlay) < 2 ^ 32"
    by code_simp+
  then show ?thesis
    using sidecar_roundtrip [of sample_overlay] by (simp add: sample_overlay_def numSections_def)
qed

theorem sidecar_wrap_panics_witness:
  "loadSidecar (resMagic @ be32 1 @ [0] @ be64 0 @ be64 0xFFFFFFFFFFFFFFF8 @ [1, 2, 3]) = Inl GoPanic"
  using sidecar_wrap_panics [of "[1, 2, 3]" "0xFFFFFFFFFFFFFFF8" 0] by simp

end
