(* ===== verification/Manifest.thy ===== *)
theory Manifest
  imports Text Keys
begin

text \<open>
  The live run list, \<^verbatim>\<open>RunRef\<close> and \<^verbatim>\<open>Manifest\<close> of \<^verbatim>\<open>src/store/db.go\<close>, the span the next terminal run is made of
  (\<^verbatim>\<open>mergeSpanLocked\<close> and the splice of \<^verbatim>\<open>merge\<close> in \<^verbatim>\<open>src/store/merge.go\<close>) and the published part of the list
  (\<^verbatim>\<open>publishable\<close> in \<^verbatim>\<open>src/store/join.go\<close>).  A manifest file is the manifest that its JSON encodes.
\<close>

section \<open>Runs and manifests\<close>

definition FlushTxs :: u64 where "FlushTxs = 500000"
definition FlushBlocks :: u64 where "FlushBlocks = 50000"
definition TerminalTxs :: u64 where "TerminalTxs = 8000000"
definition MergeFanIn :: u64 where "MergeFanIn = TerminalTxs div FlushTxs"
definition TerminalLevel :: nat where "TerminalLevel = 1"

record RunRef =
  rf_FromTx :: u64
  rf_ToTx :: u64
  rf_FromHeight :: u64
  rf_ToHeight :: u64
  rf_Name :: string
  rf_Level :: nat

definition Terminal :: "RunRef \<Rightarrow> bool" where
  "Terminal r = (rf_Level r \<ge> TerminalLevel)"

record Manifest =
  mf_StorageVersion :: nat
  mf_ChainRoot :: string
  mf_Runs :: "RunRef list"

fun checkTiling :: "RunRef list \<Rightarrow> err option" where
  "checkTiling (a # b # rs) =
     (if rf_FromTx b \<noteq> rf_ToTx a \<or> rf_FromHeight b \<noteq> rf_ToHeight a + 1 then Some NoTiling else checkTiling (b # rs))"
| "checkTiling rs = None"

definition loadManifest :: "Manifest option \<Rightarrow> Manifest res" where
  "loadManifest f =
     (case f of
        None \<Rightarrow> Inr \<lparr>mf_StorageVersion = StorageVersion, mf_ChainRoot = '''', mf_Runs = []\<rparr>
      | Some m \<Rightarrow>
          if mf_StorageVersion m \<noteq> StorageVersion then Inl (ManifestVersion (mf_StorageVersion m))
          else case checkTiling (mf_Runs m) of Some e \<Rightarrow> Inl e | None \<Rightarrow> Inr m)"

definition Head :: "RunRef list \<Rightarrow> string" where
  "Head runs = (if length runs = 0 then '''' else rf_Name (runs ! (length runs - 1)))"

section \<open>Names as hashes\<close>

definition hexName :: "bytes \<Rightarrow> string" where
  "hexName h = hex_EncodeToString h"

definition fromHex :: "char \<Rightarrow> nat option" where
  "fromHex c = (let n = of_char c :: nat in
     if 48 \<le> n \<and> n \<le> 57 then Some (n - 48)
     else if 97 \<le> n \<and> n \<le> 102 then Some (n - 87)
     else if 65 \<le> n \<and> n \<le> 70 then Some (n - 55)
     else None)"

fun hex_DecodeString :: "string \<Rightarrow> bytes option" where
  "hex_DecodeString [] = Some []"
| "hex_DecodeString [c] = None"
| "hex_DecodeString (a # b # cs) =
     (case fromHex a of None \<Rightarrow> None | Some x \<Rightarrow>
      case fromHex b of None \<Rightarrow> None | Some y \<Rightarrow>
      map_option ((#) (of_nat (16 * x + y))) (hex_DecodeString cs))"

definition decodeRoot :: "string \<Rightarrow> bytes res" where
  "decodeRoot s = (case hex_DecodeString s of Some raw \<Rightarrow> if length raw = 32 then Inr raw else Inl BadHashName | None \<Rightarrow> Inl BadHashName)"

lemma fromHex_hexdigit: "n < 16 \<Longrightarrow> fromHex (hexdigit n) = Some n"
proof -
  assume "n < 16"
  then have "n \<in> {0, 1, 2, 3, 4, 5, 6, 7, 8, 9, 10, 11, 12, 13, 14, 15}" by simp presburger
  then show ?thesis by (elim insertE) (simp_all add: hexdigit_def fromHex_def)
qed

lemma hex_roundtrip: "hex_DecodeString (hex_EncodeToString bs) = Some bs"
proof (induction bs)
  case (Cons b bs)
  have b: "unat b < 256" by (rule unat_byte_bound)
  then have "of_nat (16 * (unat b div 16) + unat b mod 16) = b"
    unfolding mult_div_mod_eq by simp
  then show ?case using Cons b by (simp add: hex_EncodeToString_def fromHex_hexdigit)
qed (simp add: hex_EncodeToString_def)

lemma decodeRoot_hexName: "length h = 32 \<Longrightarrow> decodeRoot (hexName h) = Inr h"
  by (simp add: decodeRoot_def hexName_def hex_roundtrip)

section \<open>The span of the next terminal run\<close>

fun spanStart :: "RunRef list \<Rightarrow> nat \<Rightarrow> nat" where
  "spanStart runs 0 = 0"
| "spanStart runs (Suc i) = (if rf_Level (runs ! i) = 0 then spanStart runs i else Suc i)"

definition mergeSpan :: "u64 \<Rightarrow> RunRef list \<Rightarrow> (nat \<times> nat) option" where
  "mergeSpan terminalTxs runs =
     (let start = spanStart runs (length runs) in
      case find (\<lambda>e. rf_ToTx (runs ! e) - rf_FromTx (runs ! start) \<ge> terminalTxs) [start..<length runs] of
        None \<Rightarrow> None
      | Some e \<Rightarrow> Some (start, e + 1))"

definition splice :: "nat \<Rightarrow> nat \<Rightarrow> 'a \<Rightarrow> 'a list \<Rightarrow> 'a list" where
  "splice start stop x old = take start old @ x # drop stop old"

fun publishable :: "RunRef list \<Rightarrow> RunRef list" where
  "publishable [] = []"
| "publishable (r # rs) = (if \<not> Terminal r then [] else r # publishable rs)"

section \<open>Tiling\<close>

lemma tiling_append:
  "checkTiling (as @ b # bs) = None \<longleftrightarrow> checkTiling (as @ [b]) = None \<and> checkTiling (b # bs) = None"
  by (induction as rule: checkTiling.induct) auto

lemma tiling_snoc:
  "as \<noteq> [] \<Longrightarrow> checkTiling (as @ [b]) = None \<longleftrightarrow>
    checkTiling as = None \<and> rf_FromTx b = rf_ToTx (last as) \<and> rf_FromHeight b = rf_ToHeight (last as) + 1"
  by (induction as rule: checkTiling.induct) auto

lemma tiling_Cons:
  "checkTiling (a # bs) = None \<longleftrightarrow> checkTiling bs = None \<and> (bs \<noteq> [] \<longrightarrow> rf_FromTx (hd bs) = rf_ToTx a \<and> rf_FromHeight (hd bs) = rf_ToHeight a + 1)"
  by (cases bs) auto

text \<open>A run that covers a stretch of the list can take its place.\<close>

lemma tiling_replace:
  assumes "checkTiling (as @ ms @ bs) = None" and "ms \<noteq> []"
    and "rf_FromTx x = rf_FromTx (hd ms)" "rf_FromHeight x = rf_FromHeight (hd ms)"
    and "rf_ToTx x = rf_ToTx (last ms)" "rf_ToHeight x = rf_ToHeight (last ms)"
  shows "checkTiling (as @ x # bs) = None"
proof -
  obtain m ms' where ms: "ms = m # ms'" using assms(2) by (cases ms) auto
  have l: "checkTiling (as @ [m]) = None" and r: "checkTiling (ms @ bs) = None"
    using assms(1) tiling_append [of as m "ms' @ bs"] by (simp_all add: ms)
  have "checkTiling (as @ [x]) = None" using l assms(3,4) tiling_snoc [of as x] tiling_snoc [of as m] by (cases "as = []") (auto simp: ms)
  moreover have "checkTiling (x # bs) = None"
  proof (cases bs)
    case (Cons b bs')
    have "checkTiling (ms @ [b]) = None" "checkTiling (b # bs') = None" using r tiling_append [of ms b bs'] by (simp_all add: Cons)
    then show ?thesis using tiling_snoc [OF assms(2)] assms(5,6) by (simp add: Cons)
  qed simp
  ultimately show ?thesis using tiling_append [of as x bs] by simp
qed

lemma splice_tiling:
  assumes "checkTiling runs = None" and "start < stop" and "stop \<le> length runs"
    and "rf_FromTx x = rf_FromTx (runs ! start)" "rf_FromHeight x = rf_FromHeight (runs ! start)"
    and "rf_ToTx x = rf_ToTx (runs ! (stop - 1))" "rf_ToHeight x = rf_ToHeight (runs ! (stop - 1))"
  shows "checkTiling (splice start stop x runs) = None"
proof -
  define ms where "ms = take (stop - start) (drop start runs)"
  have e: "runs = take start runs @ ms @ drop stop runs"
    unfolding ms_def using assms(2) by (metis append_take_drop_id drop_drop le_add_diff_inverse2 less_imp_le append.assoc take_add le_add_diff_inverse)
  have ne: "ms \<noteq> []" and h: "hd ms = runs ! start" and l: "last ms = runs ! (stop - 1)"
    using assms(2,3) by (auto simp: ms_def hd_drop_conv_nth last_conv_nth)
  have "checkTiling (take start runs @ ms @ drop stop runs) = None" using assms(1) e by simp
  from tiling_replace [OF this ne] show ?thesis using assms(4-7) h l by (simp add: splice_def)
qed

section \<open>The span is fixed by content\<close>

lemma spanStart_le: "spanStart runs n \<le> n"
  by (induction n) auto

lemma spanStart_append: "n \<le> length runs \<Longrightarrow> spanStart (runs @ new) n = spanStart runs n"
  by (induction n) (auto simp: nth_append)

lemma spanStart_new:
  assumes "\<forall>r \<in> set new. rf_Level r = 0"
  shows "spanStart (runs @ new) (length (runs @ new)) = spanStart runs (length runs)"
proof -
  have "spanStart (runs @ new) (length runs + k) = spanStart (runs @ new) (length runs)" if "k \<le> length new" for k
    using that assms by (induction k) (auto simp: nth_append)
  from this [of "length new"] show ?thesis using spanStart_append [of "length runs" runs new] by simp
qed

lemma find_append: "find P (xs @ ys) = (case find P xs of None \<Rightarrow> find P ys | Some x \<Rightarrow> Some x)"
  by (induction xs) auto

lemma find_cong_set: "(\<And>x. x \<in> set xs \<Longrightarrow> P x = Q x) \<Longrightarrow> find P xs = find Q xs"
  by (induction xs) auto

lemma mergeSpan_append:
  assumes "mergeSpan t runs = Some (a, b)" and "\<forall>r \<in> set new. rf_Level r = 0"
  shows "mergeSpan t (runs @ new) = Some (a, b)"
proof -
  define s where "s = spanStart runs (length runs)"
  have s: "s \<le> length runs" by (simp add: s_def spanStart_le)
  have ss: "spanStart (runs @ new) (length (runs @ new)) = s" using spanStart_new [OF assms(2)] by (simp add: s_def)
  define P where "P rs e \<longleftrightarrow> rf_ToTx (rs ! e) - rf_FromTx (rs ! s) \<ge> t" for rs :: "RunRef list" and e
  obtain e where e: "find (P runs) [s..<length runs] = Some e" "a = s" "b = e + 1"
    using assms(1) by (auto simp: mergeSpan_def Let_def s_def [symmetric] P_def [abs_def] split: option.splits)
  have "find (P (runs @ new)) [s..<length runs] = find (P runs) [s..<length runs]"
    by (rule find_cong_set) (use s in \<open>auto simp: P_def nth_append\<close>)
  moreover have "[s..<length (runs @ new)] = [s..<length runs] @ [length runs..<length (runs @ new)]"
    unfolding length_append using s by (rule upt_add_eq_append)
  ultimately have "find (P (runs @ new)) [s..<length (runs @ new)] = Some e" using e by (simp only: find_append option.case)
  then show ?thesis unfolding mergeSpan_def Let_def ss P_def [abs_def] using e by simp
qed

lemma mergeSpan_bounds:
  assumes "mergeSpan t runs = Some (a, b)"
  shows "a < b" and "b \<le> length runs" and "\<forall>i. a \<le> i \<longrightarrow> i < length runs \<longrightarrow> rf_Level (runs ! i) = 0"
    and "0 < a \<longrightarrow> rf_Level (runs ! (a - 1)) \<noteq> 0"
proof -
  define s where "s = spanStart runs (length runs)"
  obtain e where e: "e \<in> set [s..<length runs]" "a = s" "b = e + 1"
    using assms find_SomeD by (fastforce simp: mergeSpan_def Let_def s_def [symmetric] split: option.splits)
  then show "a < b" "b \<le> length runs" by auto
  have "(\<forall>i. spanStart runs n \<le> i \<longrightarrow> i < n \<longrightarrow> rf_Level (runs ! i) = 0) \<and> (0 < spanStart runs n \<longrightarrow> rf_Level (runs ! (spanStart runs n - 1)) \<noteq> 0)" for n
    by (induction n) (auto simp: less_Suc_eq)
  from this [of "length runs"] show "\<forall>i. a \<le> i \<longrightarrow> i < length runs \<longrightarrow> rf_Level (runs ! i) = 0" "0 < a \<longrightarrow> rf_Level (runs ! (a - 1)) \<noteq> 0"
    using e(2) by (simp_all add: s_def)
qed

lemma publishable_takeWhile: "publishable runs = takeWhile Terminal runs"
  by (induction runs) auto

end
