(* ===== verification/Run.thy ===== *)
theory Run
  imports Reside Manifest
begin

text \<open>
  Sealed runs, \<^verbatim>\<open>src/store/run.go\<close>: the footer, the writer that streams three sorted tables into one
  artifact, opening a run from the artifact, from a seed or from a sidecar, and the reads.  The table
  format is Pebble's and is the record \<open>sst_lib\<close>: a writer from rows to bytes and a reader over any
  \<^verbatim>\<open>ReadAt\<close>; what the code relies on is \<open>sst_laws\<close>.  A section is its index, 0 chain, 1 state, 2 lookup.
\<close>

section \<open>Footer\<close>

definition runMagic :: bytes where "runMagic = ascii ''EPOCHRUN''"
definition footerSize :: nat where "footerSize = 124"

record Footer =
  Off :: "u64 list"
  Len :: "u64 list"
  FromTx :: u64
  ToTx :: u64
  FromHeight :: u64
  ToHeight :: u64
  Prev :: bytes
  Version :: u32

definition encodeFooter :: "Footer \<Rightarrow> bytes" where
  "encodeFooter f =
     concat (map (\<lambda>i. be64 (Off f ! i) @ be64 (Len f ! i)) [0..<numSections]) @
     be64 (FromTx f) @ be64 (ToTx f) @ be64 (FromHeight f) @ be64 (ToHeight f) @ Prev f @ be32 (Version f) @ runMagic"

definition decodeFooterVersion :: "bytes \<Rightarrow> u32 \<Rightarrow> Footer res" where
  "decodeFooterVersion b version =
     (if length b \<noteq> footerSize then Inl (FooterSize (length b))
      else if drop (length b - length runMagic) b \<noteq> runMagic then Inl BadMagic
      else
        let u = (\<lambda>i. get64 (drop (8 * i) b));
            v = get32 (drop 112 b) in
        if v \<noteq> version then Inl (RunVersion v)
        else Inr \<lparr>Off = map (\<lambda>i. u (2 * i)) [0..<numSections], Len = map (\<lambda>i. u (2 * i + 1)) [0..<numSections],
          FromTx = u 6, ToTx = u 7, FromHeight = u 8, ToHeight = u 9, Prev = slice 80 32 b, Version = v\<rparr>)"

definition decodeFooter :: "bytes \<Rightarrow> Footer res" where
  "decodeFooter b = decodeFooterVersion b (of_nat StorageVersion)"

section \<open>Tables\<close>

record sst_table =
  t_rows :: "row list"
  t_handles :: "(u64 \<times> u64) list"        \<comment> \<open>the blocks of the layout that stay resident, filters included\<close>
  t_filter :: "(u64 \<times> u64) option"
  t_dataSize :: u64

record sst_lib =
  sst_write :: "nat \<Rightarrow> nat \<Rightarrow> row list \<Rightarrow> bytes option"  \<comment> \<open>section, level, rows; \<open>None\<close> when a key is out of order\<close>
  sst_open :: "(u64 \<Rightarrow> u64 \<Rightarrow> bytes res) \<Rightarrow> u64 \<Rightarrow> sst_table option" \<comment> \<open>\<open>NewReader\<close>, \<open>Layout\<close> and the rows its iterators yield\<close>
  sst_checksum :: "bytes \<Rightarrow> bool"       \<comment> \<open>the trailer of a block with its trailer\<close>
  sst_probe :: "bytes \<Rightarrow> bytes \<Rightarrow> bool"  \<comment> \<open>a filter block asked for a prefix\<close>
  sst_trailer :: u64

section \<open>Writing\<close>

record RunWriter =
  w_level :: nat
  w_out :: bytes             \<comment> \<open>what the file holds, flushed or buffered\<close>
  w_hash :: bytes            \<comment> \<open>what the hasher has seen\<close>
  w_off :: u64
  w_footer :: Footer
  w_cur :: int
  w_sst :: "row list option" \<comment> \<open>the rows of the open section\<close>
  w_Rows :: "u64 list"
  w_Bytes :: "u64 list"

definition NewRunWriter :: "bytes \<Rightarrow> nat \<Rightarrow> RunWriter" where
  "NewRunWriter prev level =
     \<lparr>w_level = level, w_out = [], w_hash = [], w_off = 0,
      w_footer = \<lparr>Off = replicate numSections 0, Len = replicate numSections 0, FromTx = 0, ToTx = 0, FromHeight = 0,
        ToHeight = 0, Prev = prev, Version = of_nat StorageVersion\<rparr>,
      w_cur = -1, w_sst = None, w_Rows = replicate numSections 0, w_Bytes = replicate numSections 0\<rparr>"

definition w_Write :: "bytes \<Rightarrow> RunWriter \<Rightarrow> RunWriter" where
  "w_Write p w = w\<lparr>w_hash := w_hash w @ p, w_out := w_out w @ p\<rparr>"

definition Begin :: "nat \<Rightarrow> RunWriter \<Rightarrow> RunWriter res" where
  "Begin s w =
     (if int s \<noteq> w_cur w + 1 then Inl SectionOrder
      else Inr (w\<lparr>w_cur := int s, w_sst := Some [], w_footer := (w_footer w)\<lparr>Off := (Off (w_footer w))[s := w_off w]\<rparr>\<rparr>))"

definition Set :: "bytes \<Rightarrow> bytes \<Rightarrow> RunWriter \<Rightarrow> RunWriter res" where
  "Set key val w =
     (case w_sst w of
        None \<Rightarrow> Inl GoPanic
      | Some rows \<Rightarrow>
          let s = nat (w_cur w) in
          Inr (w\<lparr>w_Rows := (w_Rows w)[s := w_Rows w ! s + 1],
                 w_Bytes := (w_Bytes w)[s := w_Bytes w ! s + of_nat (length key + length val)],
                 w_sst := Some (rows @ [(key, val)])\<rparr>))"

definition End :: "sst_lib \<Rightarrow> RunWriter \<Rightarrow> RunWriter res" where
  "End T w =
     (case w_sst w of
        None \<Rightarrow> Inl GoPanic
      | Some rows \<Rightarrow>
          let s = nat (w_cur w) in
          case sst_write T s (w_level w) rows of
            None \<Rightarrow> Inl RowsOutOfOrder
          | Some c \<Rightarrow>
              let n = of_nat (length c); w = w_Write c w in
              Inr (w\<lparr>w_footer := (w_footer w)\<lparr>Len := (Len (w_footer w))[s := n]\<rparr>, w_off := w_off w + n, w_sst := None\<rparr>))"

definition CopySection :: "nat \<Rightarrow> (u64 \<Rightarrow> u64 \<Rightarrow> bytes res) \<Rightarrow> u64 \<Rightarrow> u64 \<Rightarrow> RunWriter \<Rightarrow> RunWriter res" where
  "CopySection s src off n w =
     (if int s \<noteq> w_cur w + 1 then Inl SectionOrder
      else
        let w = w\<lparr>w_cur := int s, w_footer := (w_footer w)\<lparr>Off := (Off (w_footer w))[s := w_off w], Len := (Len (w_footer w))[s := n]\<rparr>\<rparr> in
        case copyPieces src off n 0 [] of
          Inl e \<Rightarrow> Inl e
        | Inr c \<Rightarrow> Inr ((w_Write c w)\<lparr>w_off := w_off w + n\<rparr>))"

text \<open>The label of a run beside its hash: \<^verbatim>\<open>%s-%016d-%016d\<close>.\<close>

definition RunLabel :: "nat \<Rightarrow> u64 \<Rightarrow> u64 \<Rightarrow> string" where
  "RunLabel level fromTx toTx =
     (if level \<ge> TerminalLevel then ''t'' else ''l'' @ itoa level) @ ''-'' @ pad16 (unat fromTx) @ ''-'' @ pad16 (unat toTx)"

definition Finish :: "'r cas_lib \<Rightarrow> u64 \<Rightarrow> u64 \<Rightarrow> u64 \<Rightarrow> u64 \<Rightarrow> RunWriter \<Rightarrow> 'r Store \<Rightarrow> (string \<times> Footer) \<times> 'r Store" where
  "Finish L fromTx toTx fromHeight toHeight w st =
     (let f = (w_footer w)\<lparr>FromTx := fromTx, ToTx := toTx, FromHeight := fromHeight, ToHeight := toHeight\<rparr>;
          w = w_Write (encodeFooter f) w in
      case (if w_level w \<ge> TerminalLevel then Adopt L (w_out w) (w_hash w) st
            else AdoptLocal L (w_out w) (RunLabel (w_level w) fromTx toTx) (w_hash w) st) of
        (name, st') \<Rightarrow> ((name, f), st'))"

section \<open>Opening\<close>

record Run =
  Name :: string
  r_footer :: Footer
  r_sec :: "sectionReadable list"
  r_table :: "sst_table list"
  r_filter :: "bytes option list"

text \<open>One section of a run that is built from the artifact; \<open>gap\<close> is the chunk size.\<close>

definition buildSection :: "sst_lib \<Rightarrow> u64 \<Rightarrow> bytes \<Rightarrow> Footer \<Rightarrow> nat \<Rightarrow> (sectionReadable \<times> sst_table) res" where
  "buildSection T gap blob f s =
     (let sec = newSection blob (Off f ! s) (Len f ! s) in
      case sst_open T (ReadAt sec) (Len f ! s) of
        None \<Rightarrow> Inl RunOpen
      | Some t \<Rightarrow>
          (case openSection gap (sst_trailer T) (t_dataSize t) (t_handles t) sec of
             Inl e \<Rightarrow> Inl e
           | Inr sec' \<Rightarrow> Inr (sec', t)))"

text \<open>A section over the ranges a seed or a sidecar carries; a sidecar that does not cover a block of the layout is stale.\<close>

definition carrySection :: "sst_lib \<Rightarrow> u64 \<Rightarrow> bool \<Rightarrow> residentRange list \<Rightarrow> u64 \<Rightarrow> bytes \<Rightarrow> Footer \<Rightarrow> nat \<Rightarrow> (sectionReadable \<times> sst_table) res" where
  "carrySection T gap fromSidecar rs n blob f s =
     (let sec = (newSection blob (Off f ! s) (Len f ! s))\<lparr>res := rs, resident := n\<rparr> in
      case sst_open T (ReadAt sec) (Len f ! s) of
        None \<Rightarrow> Inl RunOpen
      | Some t \<Rightarrow>
          if fromSidecar then
            (if \<exists>(off, len) \<in> set (t_handles t). len > 0 \<and> \<not> isResident off sec
             then Inl (Errorf ''sidecar does not cover block'') else Inr (sec, t))
          else (case reside gap (sst_trailer T) (t_handles t) sec of Inl e \<Rightarrow> Inl e | Inr sec' \<Rightarrow> Inr (sec', t)))"

definition rangeBytes :: "residentRange list \<Rightarrow> u64" where
  "rangeBytes rs = of_nat (sum_list (map (\<lambda>r. length (rr_data r)) rs))"

fun collect :: "('a \<Rightarrow> 'b res) \<Rightarrow> 'a list \<Rightarrow> 'b list res" where
  "collect f [] = Inr []"
| "collect f (x # xs) = (case f x of Inl e \<Rightarrow> Inl e | Inr y \<Rightarrow> (case collect f xs of Inl e \<Rightarrow> Inl e | Inr ys \<Rightarrow> Inr (y # ys)))"

text \<open>The bloom of a section: the pinned bytes of the filter block, its checksum tested.\<close>

definition takeFilter :: "sst_lib \<Rightarrow> sectionReadable \<times> sst_table \<Rightarrow> bytes option res" where
  "takeFilter T st =
     (case t_filter (snd st) of
        None \<Rightarrow> Inr None
      | Some (off, len) \<Rightarrow>
          if len = 0 then Inr None
          else (case residentData off (fst st) of
             None \<Rightarrow> Inl (Errorf ''filter block not resident'')
           | Some f \<Rightarrow> if sst_checksum T f then Inr (Some (take (unat len) f)) else Inl (Errorf ''filter block checksum'')))"

definition finishOpen :: "sst_lib \<Rightarrow> string \<Rightarrow> Footer \<Rightarrow> (sectionReadable \<times> sst_table) list \<Rightarrow> Run res" where
  "finishOpen T name f secs =
     (case collect (takeFilter T) secs of
        Inl e \<Rightarrow> Inl e
      | Inr flts \<Rightarrow> Inr \<lparr>Name = name, r_footer = f, r_sec = map fst secs, r_table = map snd secs, r_filter = flts\<rparr>)"

definition readFooter :: "bytes \<Rightarrow> u32 \<Rightarrow> Footer res" where
  "readFooter blob version =
     (case blob_Read blob (of_nat (length blob) - of_nat footerSize) (of_nat footerSize) of
        Inl e \<Rightarrow> Inl e
      | Inr fb \<Rightarrow> decodeFooterVersion fb version)"

text \<open>\<open>side\<close> is the directory of sidecars; the result is the run, with that directory after the attempt.\<close>

definition openBuild :: "sst_lib \<Rightarrow> u64 \<Rightarrow> string \<Rightarrow> bytes \<Rightarrow> Footer \<Rightarrow> files \<Rightarrow> (Run \<times> files) res" where
  "openBuild T gap name blob f side =
     (case collect (buildSection T gap blob f) [0..<numSections] of
        Inl e \<Rightarrow> Inl e
      | Inr secs \<Rightarrow>
          let buf = writeSidecar (map (res \<circ> fst) secs);
              secs = (case loadSidecar buf of
                Inl _ \<Rightarrow> secs
              | Inr sres \<Rightarrow> map (\<lambda>((sec, t), rs). (sec\<lparr>res := rs, resident := rangeBytes rs\<rparr>, t)) (zip secs sres))
          in case finishOpen T name f secs of Inl e \<Rightarrow> Inl e | Inr r \<Rightarrow> Inr (r, AList.update name buf side))"

definition openSidecar :: "sst_lib \<Rightarrow> u64 \<Rightarrow> string \<Rightarrow> bytes \<Rightarrow> Footer \<Rightarrow> residentRange list list \<Rightarrow> files \<Rightarrow> (Run \<times> files) res" where
  "openSidecar T gap name blob f sres side =
     (case collect (\<lambda>s. carrySection T gap True (sres ! s) (rangeBytes (sres ! s)) blob f s) [0..<numSections] of
        Inl e \<Rightarrow> Inl e
      | Inr secs \<Rightarrow> (case finishOpen T name f secs of Inl e \<Rightarrow> Inl e | Inr r \<Rightarrow> Inr (r, side)))"

definition openSeed :: "sst_lib \<Rightarrow> u64 \<Rightarrow> string \<Rightarrow> bytes \<Rightarrow> Run \<Rightarrow> files \<Rightarrow> (Run \<times> files) res" where
  "openSeed T gap name blob seed side =
     (case collect (\<lambda>s. carrySection T gap False (res (r_sec seed ! s)) (resident (r_sec seed ! s)) blob (r_footer seed) s) [0..<numSections] of
        Inl e \<Rightarrow> Inl e
      | Inr secs \<Rightarrow> Inr (\<lparr>Name = name, r_footer = r_footer seed, r_sec = map fst secs, r_table = map snd secs, r_filter = r_filter seed\<rparr>, side))"

definition openRunAttempt :: "'r cas_lib \<Rightarrow> sst_lib \<Rightarrow> u64 \<Rightarrow> string \<Rightarrow> Run option \<Rightarrow> u32 \<Rightarrow> 'r Store \<Rightarrow> files \<Rightarrow> (Run \<times> files) res" where
  "openRunAttempt L T gap name seed version st side =
     (case Open L name st of
        Inl e \<Rightarrow> Inl e
      | Inr blob \<Rightarrow>
          if length blob < footerSize then Inl (Errorf ''too small for a footer'')
          else case seed of
            Some sd \<Rightarrow> openSeed T gap name blob sd side
          | None \<Rightarrow>
              (case readFooter blob version of
                 Inl e \<Rightarrow> Inl e
               | Inr f \<Rightarrow>
                   (case map_of side name of
                      None \<Rightarrow> openBuild T gap name blob f side
                    | Some buf \<Rightarrow>
                        (case loadSidecar buf of
                           Inl GoPanic \<Rightarrow> Inl GoPanic
                         | Inl _ \<Rightarrow> openBuild T gap name blob f side
                         | Inr sres \<Rightarrow> openSidecar T gap name blob f sres side))))"

text \<open>Any failure with a sidecar present, a stale one included, is answered by removing it and one more attempt.\<close>

definition openRunVersion :: "'r cas_lib \<Rightarrow> sst_lib \<Rightarrow> u64 \<Rightarrow> string \<Rightarrow> Run option \<Rightarrow> u32 \<Rightarrow> 'r Store \<Rightarrow> files \<Rightarrow> (Run \<times> files) res" where
  "openRunVersion L T gap name seed version st side =
     (case openRunAttempt L T gap name seed version st side of
        Inr x \<Rightarrow> Inr x
      | Inl GoPanic \<Rightarrow> Inl GoPanic
      | Inl e \<Rightarrow>
          if seed = None \<and> map_of side name \<noteq> None
          then openRunAttempt L T gap name seed version st (AList.delete name side)
          else Inl e)"

definition OpenRun :: "'r cas_lib \<Rightarrow> sst_lib \<Rightarrow> u64 \<Rightarrow> string \<Rightarrow> 'r Store \<Rightarrow> files \<Rightarrow> (Run \<times> files) res" where
  "OpenRun L T gap name st side = openRunVersion L T gap name None (of_nat StorageVersion) st side"

definition ReopenRun :: "'r cas_lib \<Rightarrow> sst_lib \<Rightarrow> u64 \<Rightarrow> Run \<Rightarrow> 'r Store \<Rightarrow> files \<Rightarrow> (Run \<times> files) res" where
  "ReopenRun L T gap old st side = openRunVersion L T gap (Name old) (Some old) (of_nat StorageVersion) st side"

section \<open>Reading\<close>

definition MayHave :: "sst_lib \<Rightarrow> Run \<Rightarrow> nat \<Rightarrow> bytes \<Rightarrow> bool" where
  "MayHave T r s key = mayContain (map_option (sst_probe T) (r_filter r ! s)) key"

definition SeekGE :: "bytes \<Rightarrow> row list \<Rightarrow> row option" where
  "SeekGE key rows = find (\<lambda>kv. fst kv \<ge> key) rows"

definition SeekLT :: "bytes \<Rightarrow> row list \<Rightarrow> row option" where
  "SeekLT key rows = find (\<lambda>kv. fst kv < key) (rev rows)"

definition Get :: "sst_lib \<Rightarrow> Run \<Rightarrow> nat \<Rightarrow> bytes \<Rightarrow> bytes option" where
  "Get T r s key =
     (if \<not> MayHave T r s key then None
      else case SeekGE key (t_rows (r_table r ! s)) of
        None \<Rightarrow> None
      | Some (k, v) \<Rightarrow> if k \<noteq> key then None else Some v)"

definition run_Latest :: "sst_lib \<Rightarrow> Run \<Rightarrow> nat \<Rightarrow> bytes \<Rightarrow> u64 \<Rightarrow> (bytes \<times> u64) option" where
  "run_Latest T r s pfx at =
     (if \<not> MayHave T r s (Suffixed pfx 0) then None
      else case SeekLT (Suffixed pfx (at + 1)) (t_rows (r_table r ! s)) of
        None \<Rightarrow> None
      | Some (k, v) \<Rightarrow>
          if length k \<noteq> length pfx + 8 \<or> take (length pfx) k \<noteq> pfx then None
          else Some (v, TxNumOf k))"

text \<open>The rows a scan visits, of which the callback takes a prefix; \<open>None\<close> is the upper bound \<^verbatim>\<open>nil\<close>, no bound.\<close>

definition ScanRange :: "Run \<Rightarrow> nat \<Rightarrow> bytes \<Rightarrow> bytes option \<Rightarrow> row list" where
  "ScanRange r s loKey hiKey =
     takeWhile (\<lambda>kv. case hiKey of None \<Rightarrow> True | Some hi \<Rightarrow> fst kv < hi) (dropWhile (\<lambda>kv. fst kv < loKey) (t_rows (r_table r ! s)))"

definition ResidentBytes :: "Run \<Rightarrow> u64" where
  "ResidentBytes r = sum_list (map resident (r_sec r))"

section \<open>The footer round trips\<close>

definition footer_ok :: "Footer \<Rightarrow> bool" where
  "footer_ok f = (length (Off f) = numSections \<and> length (Len f) = numSections \<and> length (Prev f) = 32)"

lemma length_encodeFooter: "length (Prev f) = 32 \<Longrightarrow> length (encodeFooter f) = footerSize"
  by (simp add: encodeFooter_def numSections_def footerSize_def runMagic_def numeral_3_eq_3)

lemma decode_encodeFooter:
  assumes "footer_ok f"
  shows "decodeFooterVersion (encodeFooter f) (Version f) = Inr f"
proof -
  obtain a b c where off: "Off f = [a, b, c]"
    using assms by (auto simp: footer_ok_def numSections_def length_Suc_conv numeral_3_eq_3)
  obtain a' b' c' where len: "Len f = [a', b', c']"
    using assms by (auto simp: footer_ok_def numSections_def length_Suc_conv numeral_3_eq_3)
  have p: "length (Prev f) = 32" using assms by (simp add: footer_ok_def)
  have e: "encodeFooter f = be64 a @ be64 a' @ be64 b @ be64 b' @ be64 c @ be64 c' @ be64 (FromTx f) @ be64 (ToTx f) @
      be64 (FromHeight f) @ be64 (ToHeight f) @ Prev f @ be32 (Version f) @ runMagic"
    by (simp add: encodeFooter_def off len numSections_def numeral_3_eq_3)
  have m: "length runMagic = 8" by (simp add: runMagic_def)
  have l: "length (encodeFooter f) = footerSize" using p by (rule length_encodeFooter)
  show ?thesis
    unfolding decodeFooterVersion_def Let_def l
    by (simp add: e p m footerSize_def numSections_def numeral_3_eq_3 off [symmetric] len [symmetric])
qed

section \<open>Documented behaviour of the table library\<close>

text \<open>
  A table is written exactly when its keys rise strictly.  Opening one over any reader that returns its
  bytes yields the rows that were written, a layout of disjoint blocks inside the table, each followed
  by a trailer of five bytes, and a filter block, if there is one, that passes its checksum and answers
  yes for the prefix of every key.
\<close>

definition exact_reader :: "(u64 \<Rightarrow> u64 \<Rightarrow> bytes res) \<Rightarrow> bytes \<Rightarrow> bool" where
  "exact_reader rd c = (\<forall>off n. unat off + unat n \<le> length c \<longrightarrow> rd off n = Inr (slice (unat off) (unat n) c))"

definition table_ok :: "sst_lib \<Rightarrow> bytes \<Rightarrow> row list \<Rightarrow> sst_table \<Rightarrow> bool" where
  "table_ok T c rows t = (
     t_rows t = rows \<and> handles_ok (sst_trailer T) (of_nat (length c)) (t_handles t) \<and>
     sum_list (map (\<lambda>(off, len). unat len + unat (sst_trailer T)) (filter (\<lambda>(off, len). len \<noteq> 0) (t_handles t))) \<le> length c \<and>
     (\<forall>off len. t_filter t = Some (off, len) \<longrightarrow> len \<noteq> 0 \<longrightarrow> (off, len) \<in> set (t_handles t) \<and>
        sst_checksum T (slice (unat off) (unat (len + sst_trailer T)) c) \<and>
        (\<forall>(k, v) \<in> set rows. sst_probe T (slice (unat off) (unat len) c) (bloom_prefix k))))"

definition sst_laws :: "sst_lib \<Rightarrow> bool" where
  "sst_laws T = (
     sst_trailer T = 5 \<and>
     (\<forall>s level rows. sst_write T s level rows \<noteq> None \<longleftrightarrow> sorted_wrt (<) (map fst rows)) \<and>
     (\<forall>s level rows c. sst_write T s level rows = Some c \<longrightarrow> length c < 2 ^ 63 \<longrightarrow>
        (\<exists>t. table_ok T c rows t \<and> (\<forall>rd. exact_reader rd c \<longrightarrow> sst_open T rd (of_nat (length c)) = Some t))))"

lemma sst_lawsD:
  assumes "sst_laws T"
  shows "sst_trailer T = 5" and "sst_write T s level rows \<noteq> None \<longleftrightarrow> sorted_wrt (<) (map fst rows)"
    and "sst_write T s level rows = Some c \<Longrightarrow> length c < 2 ^ 63 \<Longrightarrow>
      \<exists>t. table_ok T c rows t \<and> (\<forall>rd. exact_reader rd c \<longrightarrow> sst_open T rd (of_nat (length c)) = Some t)"
  using assms unfolding sst_laws_def by blast+

lemma overlay_exact: "overlay_ok s \<Longrightarrow> exact_reader (ReadAt s) (sec_content s)"
  unfolding exact_reader_def using ReadAt_inside overlay_okD(1) by simp

section \<open>The writer\<close>

fun setRows :: "row list \<Rightarrow> RunWriter \<Rightarrow> RunWriter res" where
  "setRows [] w = Inr w"
| "setRows ((k, v) # rows) w = (case Set k v w of Inl e \<Rightarrow> Inl e | Inr w \<Rightarrow> setRows rows w)"

definition writeSection :: "sst_lib \<Rightarrow> nat \<Rightarrow> row list \<Rightarrow> RunWriter \<Rightarrow> RunWriter res" where
  "writeSection T s rows w =
     (case Begin s w of Inl e \<Rightarrow> Inl e | Inr w \<Rightarrow>
      case setRows rows w of Inl e \<Rightarrow> Inl e | Inr w \<Rightarrow> End T w)"

definition writeRun :: "sst_lib \<Rightarrow> row list list \<Rightarrow> RunWriter \<Rightarrow> RunWriter res" where
  "writeRun T rows w =
     (case writeSection T 0 (rows ! 0) w of Inl e \<Rightarrow> Inl e | Inr w \<Rightarrow>
      case writeSection T 1 (rows ! 1) w of Inl e \<Rightarrow> Inl e | Inr w \<Rightarrow> writeSection T 2 (rows ! 2) w)"

lemma setRows_sst:
  "w_sst w = Some rs \<Longrightarrow> \<exists>ns bs. setRows rows w = Inr (w\<lparr>w_sst := Some (rs @ rows), w_Rows := ns, w_Bytes := bs\<rparr>)"
proof (induction rows arbitrary: w rs)
  case Nil
  have "w\<lparr>w_sst := Some rs, w_Rows := w_Rows w, w_Bytes := w_Bytes w\<rparr> = w" using Nil by simp
  then show ?case by (metis append_Nil2 setRows.simps(1))
next
  case (Cons r rows)
  obtain k v where r: "r = (k, v)" by fastforce
  define w' where "w' = w\<lparr>w_Rows := (w_Rows w)[nat (w_cur w) := w_Rows w ! nat (w_cur w) + 1],
    w_Bytes := (w_Bytes w)[nat (w_cur w) := w_Bytes w ! nat (w_cur w) + of_nat (length k + length v)], w_sst := Some (rs @ [(k, v)])\<rparr>"
  have "Set k v w = Inr w'" using Cons.prems by (simp add: Set_def Let_def w'_def)
  moreover have "w_sst w' = Some (rs @ [(k, v)])" by (simp add: w'_def)
  ultimately show ?case using Cons.IH [of w' "rs @ [(k, v)]"] by (auto simp: r w'_def)
qed

text \<open>What the writer holds after the sections of \<open>cs\<close>: the bytes, their hash, the offsets and the lengths.\<close>

definition offset :: "bytes list \<Rightarrow> nat \<Rightarrow> u64" where
  "offset cs i = of_nat (length (concat (take i cs)))"

definition pad_to :: "nat \<Rightarrow> u64 list \<Rightarrow> u64 list" where
  "pad_to n xs = xs @ replicate (n - length xs) 0"

definition written :: "bytes \<Rightarrow> nat \<Rightarrow> bytes list \<Rightarrow> RunWriter \<Rightarrow> bool" where
  "written prev level cs w = (
     w_level w = level \<and> w_out w = concat cs \<and> w_hash w = concat cs \<and> w_off w = of_nat (length (concat cs)) \<and>
     w_cur w = int (length cs) - 1 \<and> Prev (w_footer w) = prev \<and> Version (w_footer w) = of_nat StorageVersion \<and>
     Off (w_footer w) = pad_to numSections (map (offset cs) [0..<length cs]) \<and>
     Len (w_footer w) = pad_to numSections (map (\<lambda>c. of_nat (length c)) cs))"

lemma pad_to_update: "length xs < n \<Longrightarrow> (pad_to n xs)[length xs := y] = pad_to n (xs @ [y])"
  by (simp add: pad_to_def list_update_append Suc_diff_Suc [symmetric])

lemma written_section:
  assumes w: "written prev level cs w" and s: "s = length cs" "s < numSections"
    and c: "sst_write T s level rows = Some c"
  shows "\<exists>w'. writeSection T s rows w = Inr w' \<and> written prev level (cs @ [c]) w'"
proof -
  define w1 where "w1 = w\<lparr>w_cur := int s, w_sst := Some [], w_footer := (w_footer w)\<lparr>Off := (Off (w_footer w))[s := w_off w]\<rparr>\<rparr>"
  have b: "Begin s w = Inr w1" using w s by (simp add: Begin_def written_def w1_def)
  obtain ns bs where r: "setRows rows w1 = Inr (w1\<lparr>w_sst := Some rows, w_Rows := ns, w_Bytes := bs\<rparr>)"
    using setRows_sst [of w1 "[]" rows] by (auto simp: w1_def)
  have off: "map (offset (cs @ [c])) [0..<length (cs @ [c])] = map (offset cs) [0..<length cs] @ [of_nat (length (concat cs))]"
    by (simp add: offset_def)
  have "(pad_to numSections (map (offset cs) [0..<length cs]))[s := of_nat (length (concat cs))] =
      pad_to numSections (map (offset (cs @ [c])) [0..<length (cs @ [c])])"
    unfolding off using pad_to_update [of "map (offset cs) [0..<length cs]" numSections] s by simp
  moreover have "(pad_to numSections (map (\<lambda>c. of_nat (length c)) cs))[s := of_nat (length c)] = pad_to numSections (map (\<lambda>c. of_nat (length c)) (cs @ [c]))"
    using pad_to_update [of "map (\<lambda>c. of_nat (length c)) cs" numSections] s by simp
  moreover have "writeSection T s rows w = End T (w1\<lparr>w_sst := Some rows, w_Rows := ns, w_Bytes := bs\<rparr>)"
    by (simp add: writeSection_def b r)
  ultimately show ?thesis
    using w c s(1) by (simp add: written_def End_def Let_def w_Write_def w1_def)
qed

lemma written_new: "written prev level [] (NewRunWriter prev level)"
  by (simp add: written_def NewRunWriter_def pad_to_def numSections_def)

lemma written_run:
  assumes "length rows = numSections" and "length cs = numSections"
    and "\<forall>s < numSections. sst_write T s level (rows ! s) = Some (cs ! s)"
  shows "\<exists>w. writeRun T rows (NewRunWriter prev level) = Inr w \<and> written prev level cs w"
proof -
  obtain a b c where cs: "cs = [a, b, c]" using assms(2) by (auto simp: numSections_def length_Suc_conv numeral_3_eq_3)
  have a: "sst_write T 0 level (rows ! 0) = Some a" "sst_write T 1 level (rows ! 1) = Some b" "sst_write T 2 level (rows ! 2) = Some c"
    using assms(3) by (simp_all add: cs numSections_def)
  obtain w1 where w1: "writeSection T 0 (rows ! 0) (NewRunWriter prev level) = Inr w1" "written prev level [a] w1"
    using written_section [OF written_new _ _ a(1)] by (auto simp: numSections_def)
  obtain w2 where w2: "writeSection T 1 (rows ! 1) w1 = Inr w2" "written prev level [a, b] w2"
    using written_section [OF w1(2) _ _ a(2)] by (auto simp: numSections_def)
  obtain w3 where w3: "writeSection T 2 (rows ! 2) w2 = Inr w3" "written prev level [a, b, c] w3"
    using written_section [OF w2(2) _ _ a(3)] by (auto simp: numSections_def)
  show ?thesis using w1 w2 w3 by (simp add: writeRun_def cs)
qed

section \<open>What an overlay costs\<close>

abbreviation cost :: "sectionReadable \<Rightarrow> nat" where
  "cost s \<equiv> sum_list (map (\<lambda>r. length (rr_data r)) (res s))"

lemma sec_insert_cost:
  "length (res (sec_insert off d s)) \<le> Suc (length (res s)) \<and> cost (sec_insert off d s) \<le> cost s + length d"
proof -
  have "sum_list (map f (take i xs)) + sum_list (map f (drop i xs)) = sum_list (map f xs)" for f :: "residentRange \<Rightarrow> nat" and i xs
    by (metis append_take_drop_id map_append sum_list_append)
  then show ?thesis by (auto simp: sec_insert_def Let_def)
qed

lemma pin_cost:
  "length (res (fold (pinRange lo buf) grp s)) \<le> length (res s) + length grp \<and>
   cost (fold (pinRange lo buf) grp s) \<le> cost s + sum_list (map (\<lambda>r. unat (br_n r)) grp)"
proof (induction grp arbitrary: s)
  case (Cons r grp)
  define s' where "s' = pinRange lo buf r s"
  have "length (res s') \<le> Suc (length (res s)) \<and> cost s' \<le> cost s + unat (br_n r)"
    using sec_insert_cost [of "br_off r" "slice (unat (br_off r - lo)) (unat (br_n r)) buf" s] by (auto simp: pinRange_def s'_def)
  then show ?case using Cons.IH [of s'] by (simp add: s'_def [symmetric])
qed simp

lemma resideLoop_cost:
  assumes "resideLoop want i js s = Inr s'" and "ends_ok i js (length want)"
  shows "length (res s') \<le> length (res s) + (length want - i) \<and> cost s' \<le> cost s + sum_list (map (\<lambda>r. unat (br_n r)) (drop i want))"
  using assms
proof (induction js arbitrary: i s)
  case (Cons j js)
  define grp where "grp = slice i (j - i) want"
  have j: "i < j" "j \<le> length want" "ends_ok j js (length want)" using Cons.prems(2) by simp_all
  obtain lo buf where r: "resideLoop want j js (fold (pinRange lo buf) grp s) = Inr s'"
    using Cons.prems(1) by (auto simp: Let_def grp_def split: sum.splits)
  have "drop i want = grp @ drop j want"
    using j(1) by (simp add: grp_def) (metis append_take_drop_id drop_drop le_add_diff_inverse2 less_imp_le)
  moreover have "length grp = j - i" using j by (simp add: grp_def)
  ultimately show ?case using Cons.IH [OF r j(3)] pin_cost [of lo buf grp s] j by simp arith
qed simp

lemma wantRanges_cost:
  assumes "wantRanges tr s bhs = Inr ws"
  shows "length ws \<le> length (filter (\<lambda>(off, len). len \<noteq> 0) bhs) \<and>
    sum_list (map (\<lambda>r. unat (br_n r)) ws) \<le> sum_list (map (\<lambda>(off, len). unat len + unat tr) (filter (\<lambda>(off, len). len \<noteq> 0) bhs))"
  using assms
proof (induction bhs arbitrary: ws)
  case (Cons h bhs)
  obtain off len where h: "h = (off, len)" by fastforce
  have u: "unat (len + tr) \<le> unat len + unat tr" by (simp add: unat_word_ariths)
  consider "wantRanges tr s bhs = Inr ws" | ws' where "len \<noteq> 0" "wantRanges tr s bhs = Inr ws'" "ws = \<lparr>br_off = off, br_n = len + tr\<rparr> # ws'"
    using Cons.prems by (auto simp: h Let_def split: if_splits sum.splits)
  then show ?case
  proof cases
    case 1
    show ?thesis using Cons.IH [OF 1] by (simp add: h)
  next
    case 2
    show ?thesis using Cons.IH [OF 2(2)] 2(1,3) u by (simp add: h)
  qed
qed simp

lemma sum_list_sort_key: "sum_list (map f (sort_key k xs)) = sum_list (map (f :: 'a \<Rightarrow> nat) xs)"
proof -
  have "sum_list (map f (insort_key k x ys)) = f x + sum_list (map f ys)" for x ys by (induction ys) simp_all
  then show ?thesis by (induction xs) (simp_all add: sort_key_def)
qed

lemma reside_cost:
  assumes "reside gap tr bhs s = Inr s'"
  shows "length (res s') \<le> length (res s) + length (filter (\<lambda>(off, len). len \<noteq> 0) bhs) \<and>
    cost s' \<le> cost s + sum_list (map (\<lambda>(off, len). unat len + unat tr) (filter (\<lambda>(off, len). len \<noteq> 0) bhs))"
proof -
  obtain ws where ws: "wantRanges tr s bhs = Inr ws" using assms by (auto simp: reside_def split: sum.splits)
  define want where "want = sort_key br_off ws"
  have "resideLoop want 0 (resideSpans gap want) s = Inr s'" using assms ws by (simp add: reside_def Let_def want_def)
  from resideLoop_cost [OF this resideSpans_ends] show ?thesis
    using wantRanges_cost [OF ws] by (simp add: want_def sum_list_sort_key)
qed

lemma pinFooter_cost:
  assumes "pinFooter tr bhs s = Inr s'" and "overlay_ok s"
  shows "length (res s') \<le> Suc (length (res s)) \<and> cost s' \<le> cost s + unat (s_n s)"
proof (cases "s_n s > 0 \<and> residentEnd tr bhs < s_n s")
  case True
  define e where "e = residentEnd tr bhs"
  have e: "unat e + unat (s_n s - e) = unat (s_n s)" using True by (simp add: e_def unat_sub_if' word_less_nat_alt)
  have "sec_read e (s_n s - e) s = Inr (slice (unat e) (unat (s_n s - e)) (sec_content s))"
    by (rule sec_read_exact [OF assms(2)]) (simp add: e)
  then have "s' = sec_insert e (slice (unat e) (unat (s_n s - e)) (sec_content s)) s"
    using assms(1) True by (simp add: pinFooter_def Let_def e_def)
  then show ?thesis using sec_insert_cost [of e "slice (unat e) (unat (s_n s - e)) (sec_content s)" s] e by auto
next
  case False
  then show ?thesis using assms(1) by (auto simp: pinFooter_def Let_def)
qed

lemma openSection_cost:
  assumes o: "openSection gap tr d bhs (newSection b off n) = Inr s" and ok: "overlay_ok (newSection b off n)" and h: "handles_ok tr n bhs"
  shows "length (res s) \<le> Suc (length (filter (\<lambda>(off, len). len \<noteq> 0) bhs)) \<and>
    cost s \<le> sum_list (map (\<lambda>(off, len). unat len + unat tr) (filter (\<lambda>(off, len). len \<noteq> 0) bhs)) + unat n \<and> s_tail s = None"
proof -
  obtain s1 where s1: "resideTail d (newSection b off n) = Inr s1" "overlay_ok s1" "same_section (newSection b off n) s1" "res s1 = []"
    using resideTail_ok [OF ok, of d] by (auto simp: newSection_def)
  have n1: "s_n s1 = n" using s1(3) by (simp add: same_section_def newSection_def)
  obtain s2 where s2: "reside gap tr bhs s1 = Inr s2" "overlay_ok s2" "same_section s1 s2"
    using reside_fresh [OF s1(2,4) h [folded n1], of gap] by blast
  obtain s3 where s3: "pinFooter tr bhs s2 = Inr s3" using pinFooter_ok [OF s2(2)] by blast
  have "s = dropTail s3" using o s1(1) s2(1) s3 by (simp add: openSection_def)
  moreover have "s_n s2 = n" using s2(3) n1 by (simp add: same_section_def)
  ultimately show ?thesis using reside_cost [OF s2(1)] pinFooter_cost [OF s3 s2(2)] s1(4) by (simp add: dropTail_def)
qed

lemma length_sidecar:
  "length (sidecarEntries secs) = sum_list (map length secs)"
  "length (writeSidecar secs) = 12 + 17 * sum_list (map length secs) + sum_list (map (\<lambda>rs. sum_list (map (\<lambda>r. length (rr_data r)) rs)) secs)"
proof -
  have e: "length (concat (map (\<lambda>(i, rs). map (Pair i) rs) (enumerate n secs))) = sum_list (map length secs)" for n
    by (induction secs arbitrary: n) simp_all
  show l: "length (sidecarEntries secs) = sum_list (map length secs)" using e by (simp add: sidecarEntries_def)
  have p: "length (payload (concat (map (\<lambda>(i, rs). map (Pair i) rs) (enumerate n secs)))) = sum_list (map (\<lambda>rs. sum_list (map (\<lambda>r. length (rr_data r)) rs)) secs)" for n
  proof (induction secs arbitrary: n)
    case (Cons rs secs)
    have "length (payload (map (Pair n) rs)) = sum_list (map (\<lambda>r. length (rr_data r)) rs)" by (induction rs) (simp_all add: payload_def)
    then show ?case using Cons [of "Suc n"] by (simp add: payload_def)
  qed (simp add: payload_def)
  show "length (writeSidecar secs) = 12 + 17 * sum_list (map length secs) + sum_list (map (\<lambda>rs. sum_list (map (\<lambda>r. length (rr_data r)) rs)) secs)"
    using p [of 0] l by (simp add: writeSidecar_def Let_def resMagic_def length_entries payload_def sidecarEntries_def)
qed

section \<open>Opening a run\<close>

definition section_ok :: "sst_lib \<Rightarrow> bytes \<Rightarrow> u64 \<Rightarrow> u64 \<Rightarrow> sst_table \<Rightarrow> sectionReadable \<Rightarrow> bool" where
  "section_ok T b off n t s = (
     overlay_ok s \<and> same_section (newSection b off n) s \<and> s_tail s = None \<and>
     (\<forall>(o', len) \<in> set (t_handles t). len \<noteq> 0 \<longrightarrow> pinned s \<lparr>br_off = o', br_n = len + sst_trailer T\<rparr>))"

text \<open>A section of an artifact whose bytes are the table \<open>c\<close> with the rows \<open>rows\<close>, which opens as \<open>t\<close>.\<close>

definition section_image :: "sst_lib \<Rightarrow> bytes \<Rightarrow> u64 \<Rightarrow> u64 \<Rightarrow> bytes \<Rightarrow> row list \<Rightarrow> sst_table \<Rightarrow> bool" where
  "section_image T b off n c rows t = (
     length b < 2 ^ 63 \<and> n = of_nat (length c) \<and> unat off + length c \<le> length b \<and> slice (unat off) (length c) b = c \<and>
     table_ok T c rows t \<and> (\<forall>rd. exact_reader rd c \<longrightarrow> sst_open T rd n = Some t))"

lemma section_image_n: "section_image T b off n c rows t \<Longrightarrow> unat n = length c"
  using unat_of_nat_small [of "length c"] by (simp add: section_image_def)

lemma section_image_content:
  assumes "section_image T b off n c rows t" and "same_section (newSection b off n) s"
  shows "sec_content s = c"
  using assms section_image_n [OF assms(1)] by (simp add: section_image_def same_section_def newSection_def sec_content_def)

lemma section_opens:
  assumes i: "section_image T b off n c rows t" and s: "overlay_ok s" "same_section (newSection b off n) s"
  shows "sst_open T (ReadAt s) n = Some t"
  using overlay_exact [OF s(1)] section_image_content [OF i s(2)] i unfolding section_image_def by auto

lemma newSection_image:
  assumes "section_image T b off n c rows t"
  shows "overlay_ok (newSection b off n)"
  using assms section_image_n [OF assms] by (intro newSection_ok) (auto simp: section_image_def)

lemma buildSection_ok:
  assumes i: "section_image T b (Off f ! s) (Len f ! s) c rows t"
  shows "\<exists>sec. buildSection T gap b f s = Inr (sec, t) \<and> section_ok T b (Off f ! s) (Len f ! s) t sec \<and>
    length (res sec) \<le> Suc (length (filter (\<lambda>(off, len). len \<noteq> 0) (t_handles t))) \<and> cost sec \<le> 2 * length c"
proof -
  define off n where "off = Off f ! s" and "n = Len f ! s"
  note i = i [folded off_def n_def]
  note ok = newSection_image [OF i]
  have h: "handles_ok (sst_trailer T) n (t_handles t)" "n = of_nat (length c)" using i by (auto simp: section_image_def table_ok_def)
  obtain sec where sec: "openSection gap (sst_trailer T) (t_dataSize t) (t_handles t) (newSection b off n) = Inr sec" "overlay_ok sec"
    "same_section (newSection b off n) sec" "\<forall>(o', len) \<in> set (t_handles t). len \<noteq> 0 \<longrightarrow> pinned sec \<lparr>br_off = o', br_n = len + sst_trailer T\<rparr>"
    using openSection_ok [OF ok h(1)] by blast
  have "sst_open T (ReadAt (newSection b off n)) n = Some t"
    by (rule section_opens [OF i ok]) (simp add: same_section_def)
  then have "buildSection T gap b f s = Inr (sec, t)" using sec(1) by (simp add: buildSection_def Let_def off_def n_def)
  then show ?thesis
    using sec openSection_cost [OF sec(1) ok h(1)] i section_image_n [OF i]
    by (simp add: section_ok_def off_def n_def section_image_def table_ok_def)
qed

text \<open>Nothing is left to pin over the ranges of an opened section.\<close>

lemma wantRanges_carried:
  assumes "\<forall>(off, len) \<in> set bhs. unat off + (unat len + unat tr) \<le> unat (s_n s)" and "\<forall>(off, len) \<in> set bhs. len \<noteq> 0 \<longrightarrow> isResident off s"
  shows "wantRanges tr s bhs = Inr []"
  using assms
proof (induction bhs)
  case (Cons a bhs)
  obtain off len where a: "a = (off, len)" by fastforce
  have b: "unat off + (unat len + unat tr) \<le> unat (s_n s)" using Cons.prems a by simp
  have "unat (len + tr) = unat len + unat tr" using b by (intro unat_add_below [of _ _ "s_n s"]) simp
  moreover from this have "unat (off + (len + tr)) = unat off + unat (len + tr)" using b by (intro unat_add_below [of _ _ "s_n s"]) simp
  ultimately have "\<not> off + (len + tr) > s_n s" using b by (simp add: word_less_nat_alt)
  then show ?case using Cons by (simp add: a Let_def)
qed simp

lemma section_ok_carry:
  assumes "section_ok T b off n t s"
  shows "section_ok T b off n t ((newSection b off n)\<lparr>res := res s, resident := m\<rparr>)"
proof -
  let ?s = "(newSection b off n)\<lparr>res := res s, resident := m\<rparr>"
  have s: "same_section s ?s" "same_section (newSection b off n) ?s"
    using assms by (simp_all add: section_ok_def same_section_def newSection_def)
  have "overlay_ok ?s" using assms same_section_content [OF s(1)] by (auto simp: section_ok_def overlay_ok_def newSection_def same_section_def)
  moreover have "residentData o' ?s = residentData o' s" for o' by (simp add: residentData_def Let_def cong: if_cong)
  ultimately show ?thesis
    using assms s same_section_content [OF s(1)] by (auto simp: section_ok_def pinned_def) (simp add: newSection_def)
qed

lemma carrySection_ok:
  assumes i: "section_image T b (Off f ! s) (Len f ! s) c rows t" and s0: "section_ok T b (Off f ! s) (Len f ! s) t s0"
  shows "\<exists>sec. carrySection T gap fs (res s0) m b f s = Inr (sec, t) \<and> section_ok T b (Off f ! s) (Len f ! s) t sec \<and> res sec = res s0"
proof -
  define sec where "sec = (newSection b (Off f ! s) (Len f ! s))\<lparr>res := res s0, resident := m\<rparr>"
  have ok: "section_ok T b (Off f ! s) (Len f ! s) t sec" unfolding sec_def by (rule section_ok_carry [OF s0])
  have o: "sst_open T (ReadAt sec) (Len f ! s) = Some t" by (rule section_opens [OF i]) (use ok in \<open>simp_all add: section_ok_def\<close>)
  have r: "\<forall>(off, len) \<in> set (t_handles t). len \<noteq> 0 \<longrightarrow> isResident off sec"
    using ok by (auto simp: section_ok_def isResident_def pinned_def split: prod.splits)
  have h: "\<forall>(off, len) \<in> set (t_handles t). unat off + (unat len + unat (sst_trailer T)) \<le> unat (s_n sec)"
    using i by (simp add: section_image_def table_ok_def handles_ok_def sec_def newSection_def)
  have "reside gap (sst_trailer T) (t_handles t) sec = Inr sec"
    by (simp add: reside_def wantRanges_carried [OF h r] resideSpans_def)
  moreover have "\<not> (\<exists>(off, len) \<in> set (t_handles t). len > 0 \<and> \<not> isResident off sec)" using r by (auto simp: word_gt_0)
  ultimately have "carrySection T gap fs (res s0) m b f s = Inr (sec, t)"
    using o unfolding carrySection_def sec_def [symmetric] Let_def by (cases fs) simp_all
  then show ?thesis using ok by (auto simp: sec_def)
qed

definition filter_of :: "bytes \<Rightarrow> sst_table \<Rightarrow> bytes option" where
  "filter_of c t = (case t_filter t of None \<Rightarrow> None | Some (off, len) \<Rightarrow> if len = 0 then None else Some (slice (unat off) (unat len) c))"

lemma takeFilter_ok:
  assumes i: "section_image T b off n c rows t" and s: "section_ok T b off n t sec"
  shows "takeFilter T (sec, t) = Inr (filter_of c t)"
proof (cases "\<exists>o' len. t_filter t = Some (o', len) \<and> len \<noteq> 0")
  case False
  then show ?thesis by (auto simp: takeFilter_def filter_of_def split: option.splits)
next
  case True
  then obtain o' len where f: "t_filter t = Some (o', len)" "len \<noteq> 0" by blast
  then have t: "(o', len) \<in> set (t_handles t)" "sst_checksum T (slice (unat o') (unat (len + sst_trailer T)) c)"
    using i by (auto simp: section_image_def table_ok_def)
  have p: "pinned sec \<lparr>br_off = o', br_n = len + sst_trailer T\<rparr>" using s t(1) f(2) by (auto simp: section_ok_def)
  have "sec_content sec = c" using section_image_content [OF i] s by (simp add: section_ok_def)
  with p have d: "residentData o' sec = Some (slice (unat o') (unat (len + sst_trailer T)) c)" by (simp add: pinned_def)
  have "unat o' + (unat len + unat (sst_trailer T)) \<le> unat n"
    using i t(1) by (auto simp: section_image_def table_ok_def handles_ok_def)
  then have "unat (len + sst_trailer T) = unat len + unat (sst_trailer T)" by (intro unat_add_below [of _ _ n]) simp
  then have "take (unat len) (slice (unat o') (unat (len + sst_trailer T)) c) = slice (unat o') (unat len) c" by (simp add: min_def)
  then show ?thesis using f d t(2) by (simp add: takeFilter_def filter_of_def)
qed

lemma filter_of_probe:
  assumes "table_ok T c rows t" and "(k, v) \<in> set rows"
  shows "mayContain (map_option (sst_probe T) (filter_of c t)) k"
  using assms by (auto simp: mayContain_def filter_of_def table_ok_def split: option.splits if_splits)

lemma collect_Inr: "collect f xs = Inr ys \<longleftrightarrow> list_all2 (\<lambda>x y. f x = Inr y) xs ys"
proof (induction xs arbitrary: ys)
  case (Cons x xs)
  show ?case
  proof (cases ys)
    case (Cons y zs)
    then show ?thesis using Cons.IH [of zs] by (auto split: sum.splits)
  qed (simp split: sum.splits)
qed auto

definition run_image :: "sst_lib \<Rightarrow> row list list \<Rightarrow> bytes list \<Rightarrow> sst_table list \<Rightarrow> bytes \<Rightarrow> Footer \<Rightarrow> bool" where
  "run_image T rows cs ts blob f = (
     sst_laws T \<and> length rows = numSections \<and> length cs = numSections \<and> length ts = numSections \<and> length blob < 2 ^ 34 \<and>
     length (concat cs) \<le> length blob \<and>
     (\<forall>s < numSections. section_image T blob (Off f ! s) (Len f ! s) (cs ! s) (rows ! s) (ts ! s)))"

definition run_good :: "sst_lib \<Rightarrow> bytes list \<Rightarrow> sst_table list \<Rightarrow> bytes \<Rightarrow> Footer \<Rightarrow> string \<Rightarrow> Run \<Rightarrow> bool" where
  "run_good T cs ts blob f name r = (
     Name r = name \<and> r_footer r = f \<and> r_table r = ts \<and> length (r_sec r) = numSections \<and> r_filter r = map2 filter_of cs ts \<and>
     (\<forall>s < numSections. section_ok T blob (Off f ! s) (Len f ! s) (ts ! s) (r_sec r ! s)))"

lemma collect_sections:
  assumes "\<And>s. s < numSections \<Longrightarrow> \<exists>y. g s = Inr y \<and> P s y"
  shows "\<exists>ys. collect g [0..<numSections] = Inr ys \<and> length ys = numSections \<and> (\<forall>s < numSections. P s (ys ! s))"
proof -
  obtain h where h: "\<And>s. s < numSections \<Longrightarrow> g s = Inr (h s) \<and> P s (h s)" using assms by metis
  have "collect g [0..<numSections] = Inr (map h [0..<numSections])"
    unfolding collect_Inr by (simp add: list_all2_conv_all_nth h)
  then show ?thesis using h by auto
qed

lemma collect_filters:
  assumes "run_image T rows cs ts blob f" and "length secs = numSections"
    and "\<And>s. s < numSections \<Longrightarrow> snd (secs ! s) = ts ! s \<and> section_ok T blob (Off f ! s) (Len f ! s) (ts ! s) (fst (secs ! s))"
  shows "collect (takeFilter T) secs = Inr (map2 filter_of cs ts)"
  unfolding collect_Inr
proof (rule list_all2_all_nthI)
  show "length secs = length (map2 filter_of cs ts)" using assms(1,2) by (simp add: run_image_def)
  fix s assume "s < length secs"
  then have s: "s < numSections" using assms(2) by simp
  have "section_image T blob (Off f ! s) (Len f ! s) (cs ! s) (rows ! s) (ts ! s)" using assms(1) s by (simp add: run_image_def)
  from takeFilter_ok [OF this] assms(3) [OF s] show "takeFilter T (secs ! s) = Inr (map2 filter_of cs ts ! s)"
    using assms(1) s by (cases "secs ! s") (simp add: run_image_def)
qed

lemma finishOpen_ok:
  assumes i: "run_image T rows cs ts blob f" and l: "length secs = numSections"
    and s: "\<And>s. s < numSections \<Longrightarrow> snd (secs ! s) = ts ! s \<and> section_ok T blob (Off f ! s) (Len f ! s) (ts ! s) (fst (secs ! s))"
  shows "\<exists>r. finishOpen T name f secs = Inr r \<and> run_good T cs ts blob f name r \<and> map res (r_sec r) = map (res \<circ> fst) secs"
proof -
  have "map snd secs = ts" using i l s by (intro nth_equalityI) (simp_all add: run_image_def)
  then show ?thesis using collect_filters [OF assms] l s by (simp add: finishOpen_def run_good_def)
qed

lemma small_layout:
  assumes "table_ok T c rows t" and "sst_trailer T = 5"
  shows "6 * length (filter (\<lambda>(off, len). len \<noteq> 0) (t_handles t)) \<le> length c"
proof -
  define hs where "hs = filter (\<lambda>(off, len). len \<noteq> 0) (t_handles t)"
  have "\<forall>(off, len) \<in> set hs. len \<noteq> 0" by (auto simp: hs_def)
  then have "6 * length hs \<le> sum_list (map (\<lambda>(off, len). unat len + unat (5 :: u64)) hs)"
  proof (induction hs)
    case (Cons h hs)
    obtain off len where h: "h = (off, len)" by fastforce
    have "unat len \<noteq> 0" using Cons.prems by (simp add: h unat_eq_zero)
    then show ?case using Cons by (simp add: h)
  qed simp
  then show ?thesis using assms by (simp add: table_ok_def hs_def)
qed

lemma sections_small:
  assumes i: "run_image T rows cs ts blob f" and l: "length secs = numSections"
    and s: "\<And>s. s < numSections \<Longrightarrow> length (res (secs ! s)) \<le> Suc (length (filter (\<lambda>(off, len). len \<noteq> 0) (t_handles (ts ! s)))) \<and> cost (secs ! s) \<le> 2 * length (cs ! s)"
  shows "length (sidecarEntries (map res secs)) < 2 ^ 32 \<and> length (writeSidecar (map res secs)) < 2 ^ 63"
proof -
  obtain a b c where abc: "secs = [a, b, c]" using l by (auto simp: numSections_def length_Suc_conv numeral_3_eq_3)
  obtain x y z where xyz: "cs = [x, y, z]" using i by (auto simp: run_image_def numSections_def length_Suc_conv numeral_3_eq_3)
  have p: "6 * length (res (secs ! s)) \<le> 6 + length (cs ! s) \<and> cost (secs ! s) \<le> 2 * length (cs ! s)" if "s < numSections" for s
    using small_layout [of T "cs ! s" "rows ! s" "ts ! s"] s [OF that] i that sst_lawsD(1) [of T]
    by (auto simp: run_image_def section_image_def)
  have "length x + length y + length z < 2 ^ 34" using i xyz by (simp add: run_image_def)
  then show ?thesis using p [of 0] p [of 1] p [of 2] by (simp add: length_sidecar abc xyz numSections_def)
qed

lemma openBuild_ok:
  assumes i: "run_image T rows cs ts blob f"
  shows "\<exists>r buf. openBuild T gap name blob f side = Inr (r, AList.update name buf side) \<and> run_good T cs ts blob f name r \<and>
    loadSidecar buf = Inr (map res (r_sec r))"
proof -
  define P where "P s y \<longleftrightarrow> snd y = ts ! s \<and> section_ok T blob (Off f ! s) (Len f ! s) (ts ! s) (fst y) \<and>
    length (res (fst y)) \<le> Suc (length (filter (\<lambda>(off, len). len \<noteq> 0) (t_handles (ts ! s)))) \<and> cost (fst y) \<le> 2 * length (cs ! s)" for s y
  have "\<exists>y. buildSection T gap blob f s = Inr y \<and> P s y" if "s < numSections" for s
    using buildSection_ok [of T blob f s "cs ! s" "rows ! s" "ts ! s" gap] i that by (auto simp: run_image_def P_def)
  from collect_sections [of "buildSection T gap blob f" P, OF this] obtain secs where secs: "collect (buildSection T gap blob f) [0..<numSections] = Inr secs"
    "length secs = numSections" "\<forall>s < numSections. P s (secs ! s)" by auto
  define sres where "sres = map (res \<circ> fst) secs"
  have small: "length (sidecarEntries sres) < 2 ^ 32" "length (writeSidecar sres) < 2 ^ 63"
    using sections_small [OF i, of "map fst secs"] secs by (simp_all add: sres_def P_def)
  have sorted: "\<forall>rs \<in> set sres. sorted_wrt (\<lambda>a b. rr_off a < rr_off b) rs"
  proof
    fix rs assume "rs \<in> set sres"
    then obtain s where s: "s < numSections" "rs = res (fst (secs ! s))" using secs(2) by (auto simp: sres_def in_set_conv_nth)
    then show "sorted_wrt (\<lambda>a b. rr_off a < rr_off b) rs" using secs(3) overlay_okD(4) by (simp add: P_def section_ok_def)
  qed
  have ld: "loadSidecar (writeSidecar sres) = Inr sres"
    using load_writeSidecar [OF _ sorted small(2,1)] secs(2) by (simp add: sres_def)
  define secs' where "secs' = map (\<lambda>((sec, t), rs). (sec\<lparr>res := rs, resident := rangeBytes rs\<rparr>, t)) (zip secs sres)"
  have n: "secs' ! s = ((fst (secs ! s))\<lparr>resident := rangeBytes (res (fst (secs ! s)))\<rparr>, snd (secs ! s))" if "s < numSections" for s
    using secs(2) that by (simp add: secs'_def sres_def split: prod.split)
  have k: "section_ok T b off n t (sec\<lparr>resident := m\<rparr>)" if "section_ok T b off n t sec" for b off n t sec m
  proof -
    have "sec\<lparr>resident := m\<rparr> = (newSection b off n)\<lparr>res := res sec, resident := m\<rparr>"
      using that by (simp add: section_ok_def same_section_def newSection_def)
    then show ?thesis using section_ok_carry [OF that] by simp
  qed
  have "snd (secs' ! s) = ts ! s \<and> section_ok T blob (Off f ! s) (Len f ! s) (ts ! s) (fst (secs' ! s))" if "s < numSections" for s
    using secs(3) that by (simp add: n P_def k)
  from finishOpen_ok [OF i _ this, of name] obtain r where r: "finishOpen T name f secs' = Inr r"
    "run_good T cs ts blob f name r" "map res (r_sec r) = map (res \<circ> fst) secs'" using secs(2) by (auto simp: secs'_def sres_def)
  have e: "map (res \<circ> fst) secs' = sres"
    by (rule nth_equalityI) (use secs(2) n in \<open>simp_all add: sres_def secs'_def del: nth_zip\<close>)
  have "openBuild T gap name blob f side = Inr (r, AList.update name (writeSidecar sres) side)"
    unfolding openBuild_def secs(1) sum.case Let_def sres_def [symmetric] ld secs'_def [symmetric] r(1) ..
  then show ?thesis using r ld e by auto
qed

lemma openSidecar_ok:
  assumes i: "run_image T rows cs ts blob f" and r0: "run_good T cs ts blob f name r0"
  shows "\<exists>r. openSidecar T gap name blob f (map res (r_sec r0)) side = Inr (r, side) \<and> run_good T cs ts blob f name r"
proof -
  let ?g = "\<lambda>s. carrySection T gap True (map res (r_sec r0) ! s) (rangeBytes (map res (r_sec r0) ! s)) blob f s"
  define P where "P s y \<longleftrightarrow> snd y = ts ! s \<and> section_ok T blob (Off f ! s) (Len f ! s) (ts ! s) (fst y)" for s y
  have "\<exists>y. ?g s = Inr y \<and> P s y" if "s < numSections" for s
    using carrySection_ok [of T blob f s "cs ! s" "rows ! s" "ts ! s" "r_sec r0 ! s" gap True] i r0 that
    by (fastforce simp: run_image_def run_good_def P_def)
  from collect_sections [of ?g P, OF this] obtain secs where secs: "collect ?g [0..<numSections] = Inr secs"
    "length secs = numSections" "\<forall>s < numSections. P s (secs ! s)" by auto
  have "snd (secs ! s) = ts ! s \<and> section_ok T blob (Off f ! s) (Len f ! s) (ts ! s) (fst (secs ! s))" if "s < numSections" for s
    using secs(3) that by (simp add: P_def)
  from finishOpen_ok [OF i secs(2) this, of name] show ?thesis by (auto simp: openSidecar_def secs(1))
qed

lemma openSeed_ok:
  assumes i: "run_image T rows cs ts blob f" and r0: "run_good T cs ts blob f name r0"
  shows "\<exists>r. openSeed T gap name blob r0 side = Inr (r, side) \<and> run_good T cs ts blob f name r"
proof -
  let ?g = "\<lambda>s. carrySection T gap False (res (r_sec r0 ! s)) (resident (r_sec r0 ! s)) blob (r_footer r0) s"
  define P where "P s y \<longleftrightarrow> snd y = ts ! s \<and> section_ok T blob (Off f ! s) (Len f ! s) (ts ! s) (fst y)" for s y
  have "\<exists>y. ?g s = Inr y \<and> P s y" if "s < numSections" for s
    using carrySection_ok [of T blob f s "cs ! s" "rows ! s" "ts ! s" "r_sec r0 ! s" gap False] i r0 that
    by (fastforce simp: run_image_def run_good_def P_def)
  from collect_sections [of ?g P, OF this] obtain secs where secs: "collect ?g [0..<numSections] = Inr secs"
    "length secs = numSections" "\<forall>s < numSections. P s (secs ! s)" by auto
  have "map snd secs = ts" by (rule nth_equalityI) (use i secs in \<open>simp_all add: run_image_def P_def\<close>)
  then show ?thesis using secs r0 by (auto simp: openSeed_def run_good_def P_def)
qed

definition no_collision :: "'r cas_lib \<Rightarrow> bytes \<Rightarrow> bool" where
  "no_collision L c = (\<forall>x. cas_name L x = cas_name L c \<longrightarrow> x = c)"

text \<open>A run that serves the rows it was written with: no key is hidden by a filter.\<close>

definition run_serves :: "sst_lib \<Rightarrow> row list list \<Rightarrow> string \<Rightarrow> Footer \<Rightarrow> Run \<Rightarrow> bool" where
  "run_serves T rows name f r = (
     Name r = name \<and> r_footer r = f \<and> map t_rows (r_table r) = rows \<and>
     (\<forall>s < numSections. \<forall>(k, v) \<in> set (rows ! s). MayHave T r s k))"

lemma run_good_serves:
  assumes i: "run_image T rows cs ts blob f" and g: "run_good T cs ts blob f name r"
  shows "run_serves T rows name f r"
proof -
  have t: "table_ok T (cs ! s) (rows ! s) (ts ! s)" if "s < numSections" for s
    using i that by (auto simp: run_image_def section_image_def)
  have "map t_rows ts = rows"
    by (rule nth_equalityI) (use i t in \<open>simp_all add: run_image_def table_ok_def\<close>)
  moreover have "MayHave T r s k" if "s < numSections" "(k, v) \<in> set (rows ! s)" for s k v
    using filter_of_probe [OF t [OF that(1)] that(2)] i g that(1) by (simp add: MayHave_def run_good_def run_image_def)
  ultimately show ?thesis using g by (auto simp: run_serves_def run_good_def)
qed

lemma readFooter_ok:
  assumes "footer_ok f" and "length c < 2 ^ 34"
  shows "readFooter (c @ encodeFooter f) (Version f) = Inr f"
proof -
  have l: "length (encodeFooter f) = footerSize" using assms(1) by (simp add: length_encodeFooter footer_ok_def)
  define b where "b = c @ encodeFooter f"
  have lb: "length b = length c + footerSize" by (simp add: b_def l)
  have o: "of_nat (length b) - of_nat footerSize = (of_nat (length c) :: u64)" by (simp add: lb)
  have u: "unat (of_nat (length c) :: u64) = length c" "unat (of_nat footerSize :: u64) = footerSize"
    using assms(2) by (auto simp: unat_of_nat footerSize_def)
  have "blob_Read b (of_nat (length c)) (of_nat footerSize) = Inr (encodeFooter f)"
    using assms(2) lb unfolding blob_Read_exact [of b] by (subst blob_Read_exact) (simp_all add: u footerSize_def b_def l)
  then show ?thesis unfolding readFooter_def b_def [symmetric] o using decode_encodeFooter [OF assms(1)] by simp
qed

lemma offset_slice:
  assumes "s < length cs"
  shows "slice (length (concat (take s cs))) (length (cs ! s)) (concat cs @ e) = cs ! s"
    and "length (concat (take s cs)) + length (cs ! s) \<le> length (concat cs)"
proof -
  have e: "concat cs = concat (take s cs) @ cs ! s @ concat (drop (Suc s) cs)"
    by (metis assms concat.simps(2) concat_append id_take_nth_drop)
  show "slice (length (concat (take s cs))) (length (cs ! s)) (concat cs @ e) = cs ! s" by (subst e) simp
  show "length (concat (take s cs)) + length (cs ! s) \<le> length (concat cs)" by (subst e) simp
qed

lemma written_image:
  assumes w: "written prev level cs w" and n: "length cs = numSections" "length rows = numSections" and T: "sst_laws T"
    and cs: "\<forall>s < numSections. sst_write T s level (rows ! s) = Some (cs ! s)"
    and f: "Off f = Off (w_footer w)" "Len f = Len (w_footer w)" and small: "length (concat cs) + footerSize < 2 ^ 34" "length (encodeFooter f) = footerSize"
  shows "\<exists>ts. run_image T rows cs ts (concat cs @ encodeFooter f) f"
proof -
  have "\<exists>t. table_ok T (cs ! s) (rows ! s) t \<and> (\<forall>rd. exact_reader rd (cs ! s) \<longrightarrow> sst_open T rd (of_nat (length (cs ! s))) = Some t)"
    if "s < numSections" for s
  proof -
    have "length (cs ! s) < 2 ^ 63" using offset_slice(2) [of s cs] that n(1) small(1) by simp
    then show ?thesis using sst_lawsD(3) [OF T] cs that by blast
  qed
  then obtain h where h: "\<And>s. s < numSections \<Longrightarrow> table_ok T (cs ! s) (rows ! s) (h s) \<and>
      (\<forall>rd. exact_reader rd (cs ! s) \<longrightarrow> sst_open T rd (of_nat (length (cs ! s))) = Some (h s))" by metis
  have "section_image T (concat cs @ encodeFooter f) (Off f ! s) (Len f ! s) (cs ! s) (rows ! s) (h s)" if s: "s < numSections" for s
  proof -
    have o: "Off f ! s = of_nat (length (concat (take s cs)))" "Len f ! s = of_nat (length (cs ! s))"
      using w s n(1) by (simp_all add: f written_def pad_to_def nth_append offset_def)
    have "unat (Off f ! s) = length (concat (take s cs))"
      unfolding o by (rule unat_of_nat_small) (use offset_slice(2) [of s cs] s n(1) small(1) in simp)
    then show ?thesis using h [OF s] offset_slice [of s cs] s n(1) small o(2) by (simp add: section_image_def)
  qed
  then have "run_image T rows cs (map h [0..<numSections]) (concat cs @ encodeFooter f) f"
    using T n small by (simp add: run_image_def)
  then show ?thesis by blast
qed

lemma openRun_ways:
  assumes i: "run_image T rows cs ts blob f" and o: "Open L name st = Inr blob" and ft: "readFooter blob v = Inr f"
    and b: "length blob \<ge> footerSize"
  shows "map_of side name = None \<Longrightarrow> \<exists>r buf. openRunVersion L T gap name None v st side = Inr (r, AList.update name buf side) \<and>
      run_good T cs ts blob f name r \<and> loadSidecar buf = Inr (map res (r_sec r))"
    and "map_of side name = Some buf \<Longrightarrow> loadSidecar buf = Inr (map res (r_sec r0)) \<Longrightarrow> run_good T cs ts blob f name r0 \<Longrightarrow>
      \<exists>r. openRunVersion L T gap name None v st side = Inr (r, side) \<and> run_good T cs ts blob f name r"
    and "run_good T cs ts blob f name r0 \<Longrightarrow>
      \<exists>r. openRunVersion L T gap name (Some r0) v st side = Inr (r, side) \<and> run_good T cs ts blob f name r"
proof -
  show "\<exists>r buf. openRunVersion L T gap name None v st side = Inr (r, AList.update name buf side) \<and>
      run_good T cs ts blob f name r \<and> loadSidecar buf = Inr (map res (r_sec r))" if "map_of side name = None"
    using openBuild_ok [OF i, of gap name side] that o ft b by (auto simp: openRunVersion_def openRunAttempt_def)
  show "\<exists>r. openRunVersion L T gap name None v st side = Inr (r, side) \<and> run_good T cs ts blob f name r"
    if "map_of side name = Some buf" "loadSidecar buf = Inr (map res (r_sec r0))" "run_good T cs ts blob f name r0"
    using openSidecar_ok [OF i that(3), of gap side] that o ft b by (auto simp: openRunVersion_def openRunAttempt_def)
  show "\<exists>r. openRunVersion L T gap name (Some r0) v st side = Inr (r, side) \<and> run_good T cs ts blob f name r"
    if "run_good T cs ts blob f name r0"
    using openSeed_ok [OF i that, of gap side] o b by (auto simp: openRunVersion_def openRunAttempt_def)
qed

lemma Finish_stores:
  assumes "w_hash w = w_out w" and "Finish L ftx ttx fh th w st = ((name, f), st')"
  shows "f = (w_footer w)\<lparr>FromTx := ftx, ToTx := ttx, FromHeight := fh, ToHeight := th\<rparr>"
    and "\<exists>op. stores (w_out w @ encodeFooter f) op \<and> st' = apply_op L op st \<and> name = cas_name L (w_out w @ encodeFooter f)"
proof -
  show f: "f = (w_footer w)\<lparr>FromTx := ftx, ToTx := ttx, FromHeight := fh, ToHeight := th\<rparr>"
    using assms(2) by (auto simp: Finish_def Let_def split: prod.splits)
  define c where "c = w_out w @ encodeFooter f"
  have e: "(name, st') = (if w_level w \<ge> TerminalLevel then Adopt L c c st else AdoptLocal L c (RunLabel (w_level w) ftx ttx) c st)"
    using assms by (auto simp: Finish_def Let_def w_Write_def c_def f [symmetric] split: prod.splits)
  show "\<exists>op. stores c op \<and> st' = apply_op L op st \<and> name = cas_name L c"
  proof (cases "w_level w \<ge> TerminalLevel")
    case True
    then show ?thesis using e by (intro exI [of _ "OAdopt c"]) (auto simp: Adopt_def seal_def split: prod.splits)
  next
    case False
    then show ?thesis
      using e by (intro exI [of _ "OAdoptLocal c (RunLabel (w_level w) ftx ttx)"]) (auto simp: AdoptLocal_def seal_def split: prod.splits)
  qed
qed

lemma stored_content:
  assumes "stores c op" and "store_ok L st" and "cas_laws L" and "no_collision L c" and "ODrop (cas_name L c) \<notin> set ops"
  shows "Open L (cas_name L c) (fold (apply_op L) ops (apply_op L op st)) = Inr c"
proof -
  obtain b where "Open L (cas_name L c) (apply_op L op st) = Inr b" using stores_Open [OF assms(1-3)] by blast
  from run_kept [OF this apply_op_ok [OF assms(2)] assms(3,5)] obtain b' where
    b': "Open L (cas_name L c) (fold (apply_op L) ops (apply_op L op st)) = Inr b'" by blast
  from Open_sound [OF this Dist.run_ok [OF apply_op_ok [OF assms(2)]] assms(3)] show ?thesis
    using b' assms(4) by (simp add: no_collision_def)
qed

text \<open>The artifact of a run: its name is that of its content alone, and the content is what the writer laid out.\<close>

definition artifact :: "'r cas_lib \<Rightarrow> sst_lib \<Rightarrow> row list list \<Rightarrow> bytes list \<Rightarrow> sst_table list \<Rightarrow> bytes \<Rightarrow> Footer \<Rightarrow> string \<Rightarrow> bool" where
  "artifact L T rows cs ts blob f name = (
     name = cas_name L blob \<and> no_collision L blob \<and> run_image T rows cs ts blob f \<and>
     readFooter blob (of_nat StorageVersion) = Inr f \<and> footerSize \<le> length blob)"

lemma sealed_artifact:
  assumes L: "cas_laws L" and T: "sst_laws T" and st: "store_ok L st" and n: "length rows = numSections" "length prev = 32"
    and sorted: "\<forall>rs \<in> set rows. sorted_wrt (<) (map fst rs)"
  shows "\<exists>w. writeRun T rows (NewRunWriter prev level) = Inr w \<and>
    (\<forall>name f st'. Finish L ftx ttx fh th w st = ((name, f), st') \<longrightarrow> length (w_out w) + footerSize < 2 ^ 34 \<longrightarrow>
      no_collision L (w_out w @ encodeFooter f) \<longrightarrow>
      FromTx f = ftx \<and> ToTx f = ttx \<and> FromHeight f = fh \<and> ToHeight f = th \<and> Prev f = prev \<and>
      (\<exists>op cs ts. stores (w_out w @ encodeFooter f) op \<and> st' = apply_op L op st \<and> artifact L T rows cs ts (w_out w @ encodeFooter f) f name))"
proof -
  define cs where "cs = map (\<lambda>s. the (sst_write T s level (rows ! s))) [0..<numSections]"
  have cs: "length cs = numSections" "\<forall>s < numSections. sst_write T s level (rows ! s) = Some (cs ! s)"
    using sst_lawsD(2) [OF T] sorted n(1) by (auto simp: cs_def)
  obtain w where w: "writeRun T rows (NewRunWriter prev level) = Inr w" "written prev level cs w"
    using written_run [OF n(1) cs] by blast
  have wo: "w_out w = concat cs" "w_hash w = w_out w" using w(2) by (simp_all add: written_def)
  show ?thesis
  proof (intro exI [of _ w] conjI allI impI w(1))
    fix name f st'
    assume fin: "Finish L ftx ttx fh th w st = ((name, f), st')" and small: "length (w_out w) + footerSize < 2 ^ 34"
      and col: "no_collision L (w_out w @ encodeFooter f)"
    note f = Finish_stores(1) [OF wo(2) fin]
    then show "FromTx f = ftx" "ToTx f = ttx" "FromHeight f = fh" "ToHeight f = th" "Prev f = prev"
      using w(2) by (simp_all add: written_def)
    define blob where "blob = w_out w @ encodeFooter f"
    have fok: "footer_ok f" "Version f = of_nat StorageVersion" using f w(2) n(2) cs(1) by (simp_all add: footer_ok_def written_def pad_to_def)
    have lf: "length (encodeFooter f) = footerSize" using fok by (simp add: length_encodeFooter footer_ok_def)
    obtain ts where i: "run_image T rows cs ts blob f"
      using written_image [OF w(2) cs(1) n(1) T cs(2) _ _ _ lf] f small wo(1) by (auto simp: blob_def)
    have rf: "readFooter blob (of_nat StorageVersion) = Inr f"
      using readFooter_ok [OF fok(1), of "w_out w"] small fok(2) by (simp add: blob_def)
    have lb: "length blob \<ge> footerSize" by (simp add: blob_def lf)
    show "\<exists>op cs ts. stores (w_out w @ encodeFooter f) op \<and> st' = apply_op L op st \<and> artifact L T rows cs ts (w_out w @ encodeFooter f) f name"
      using Finish_stores(2) [OF wo(2) fin] i rf lb col unfolding artifact_def blob_def by blast
  qed
qed

text \<open>Opening an artifact that the store returns, from the artifact, over its sidecar, and over the run that was open.\<close>

lemma artifact_opens:
  assumes a: "artifact L T rows cs ts blob f name" and o: "Open L name st = Inr blob"
  shows "map_of side name = None \<Longrightarrow> \<exists>r buf. OpenRun L T gap name st side = Inr (r, AList.update name buf side) \<and>
      run_good T cs ts blob f name r \<and> loadSidecar buf = Inr (map res (r_sec r))"
    and "map_of side name = Some buf \<Longrightarrow> loadSidecar buf = Inr (map res (r_sec r0)) \<Longrightarrow> run_good T cs ts blob f name r0 \<Longrightarrow>
      \<exists>r. OpenRun L T gap name st side = Inr (r, side) \<and> run_good T cs ts blob f name r"
    and "run_good T cs ts blob f name r0 \<Longrightarrow>
      \<exists>r. ReopenRun L T gap r0 st side = Inr (r, side) \<and> run_good T cs ts blob f name r"
proof -
  have i: "run_image T rows cs ts blob f" "readFooter blob (of_nat StorageVersion) = Inr f" "length blob \<ge> footerSize"
    using a by (simp_all add: artifact_def)
  note W = openRun_ways [OF i(1) o i(2,3)]
  show "map_of side name = None \<Longrightarrow> \<exists>r buf. OpenRun L T gap name st side = Inr (r, AList.update name buf side) \<and>
      run_good T cs ts blob f name r \<and> loadSidecar buf = Inr (map res (r_sec r))"
    unfolding OpenRun_def by (rule W(1))
  show "map_of side name = Some buf \<Longrightarrow> loadSidecar buf = Inr (map res (r_sec r0)) \<Longrightarrow> run_good T cs ts blob f name r0 \<Longrightarrow>
      \<exists>r. OpenRun L T gap name st side = Inr (r, side) \<and> run_good T cs ts blob f name r"
    unfolding OpenRun_def by (rule W(2))
  show "\<exists>r. ReopenRun L T gap r0 st side = Inr (r, side) \<and> run_good T cs ts blob f name r" if "run_good T cs ts blob f name r0"
    using W(3) [OF that] that by (simp add: ReopenRun_def run_good_def)
qed

lemma sealed_run:
  assumes L: "cas_laws L" and T: "sst_laws T" and st: "store_ok L st" and n: "length rows = numSections" "length prev = 32"
    and sorted: "\<forall>rs \<in> set rows. sorted_wrt (<) (map fst rs)"
  shows "\<exists>w. writeRun T rows (NewRunWriter prev level) = Inr w \<and>
    (\<forall>name f st'. Finish L ftx ttx fh th w st = ((name, f), st') \<longrightarrow> length (w_out w) + footerSize < 2 ^ 34 \<longrightarrow>
      no_collision L (w_out w @ encodeFooter f) \<longrightarrow> ODrop name \<notin> set ops \<longrightarrow> map_of side name = None \<longrightarrow>
      FromTx f = ftx \<and> ToTx f = ttx \<and> FromHeight f = fh \<and> ToHeight f = th \<and> Prev f = prev \<and>
      (\<exists>r side' r1 r2. let st'' = fold (apply_op L) ops st' in
        OpenRun L T gap name st'' side = Inr (r, side') \<and> run_serves T rows name f r \<and>
        OpenRun L T gap name st'' side' = Inr (r1, side') \<and> run_serves T rows name f r1 \<and>
        ReopenRun L T gap r st'' side' = Inr (r2, side') \<and> run_serves T rows name f r2))"
proof -
  obtain w where w: "writeRun T rows (NewRunWriter prev level) = Inr w"
    and F: "\<And>name f st'. Finish L ftx ttx fh th w st = ((name, f), st') \<Longrightarrow> length (w_out w) + footerSize < 2 ^ 34 \<Longrightarrow>
      no_collision L (w_out w @ encodeFooter f) \<Longrightarrow>
      FromTx f = ftx \<and> ToTx f = ttx \<and> FromHeight f = fh \<and> ToHeight f = th \<and> Prev f = prev \<and>
      (\<exists>op cs ts. stores (w_out w @ encodeFooter f) op \<and> st' = apply_op L op st \<and> artifact L T rows cs ts (w_out w @ encodeFooter f) f name)"
    using sealed_artifact [OF assms, of level ftx ttx fh th] by blast
  show ?thesis
  proof (intro exI [of _ w] conjI allI impI w)
    fix name f st'
    assume fin: "Finish L ftx ttx fh th w st = ((name, f), st')" and small: "length (w_out w) + footerSize < 2 ^ 34"
      and col: "no_collision L (w_out w @ encodeFooter f)" and dr: "ODrop name \<notin> set ops" and side: "map_of side name = None"
    note f = F [OF fin small col]
    then show "FromTx f = ftx" "ToTx f = ttx" "FromHeight f = fh" "ToHeight f = th" "Prev f = prev" by blast+
    define blob st'' where "blob = w_out w @ encodeFooter f" and "st'' = fold (apply_op L) ops st'"
    obtain op cs ts where a: "stores blob op" "st' = apply_op L op st" "artifact L T rows cs ts blob f name"
      using f unfolding blob_def by blast
    have nm: "name = cas_name L blob" and i: "run_image T rows cs ts blob f" using a(3) by (simp_all add: artifact_def)
    have o: "Open L name st'' = Inr blob"
      using stored_content [OF a(1) st L, of ops] col dr a(2) by (simp add: st''_def nm blob_def)
    obtain r buf where r: "OpenRun L T gap name st'' side = Inr (r, AList.update name buf side)"
      "run_good T cs ts blob f name r" "loadSidecar buf = Inr (map res (r_sec r))" using artifact_opens(1) [OF a(3) o side] by blast
    have "map_of (AList.update name buf side) name = Some buf" by (simp add: update_conv')
    from artifact_opens(2) [OF a(3) o this r(3,2)] artifact_opens(3) [OF a(3) o r(2)] run_good_serves [OF i] r
    show "\<exists>r side' r1 r2. let st'' = fold (apply_op L) ops st' in
        OpenRun L T gap name st'' side = Inr (r, side') \<and> run_serves T rows name f r \<and>
        OpenRun L T gap name st'' side' = Inr (r1, side') \<and> run_serves T rows name f r1 \<and>
        ReopenRun L T gap r st'' side' = Inr (r2, side') \<and> run_serves T rows name f r2"
      unfolding st''_def [symmetric] Let_def by metis
  qed
qed

text \<open>
  C3. A sealed run serves what was written, however it is opened.  Strictly sorted rows are always
  accepted by the writer; and once the file is adopted, after any sequence of store operations that does
  not drop it, the run opens with exactly its footer and rows and no filter hides a stored key, when it
  is built from the artifact, when it is opened again over the sidecar the first open wrote, and when a
  reopen carries the resident ranges of the old handle across.
\<close>

theorem sealed_run_opens:
  assumes L: "cas_laws L" and T: "sst_laws T" and st: "store_ok L st" and n: "length rows = numSections" "length prev = 32"
    and sorted: "\<forall>rs \<in> set rows. sorted_wrt (<) (map fst rs)"
  shows "\<exists>w. writeRun T rows (NewRunWriter prev level) = Inr w \<and>
    (\<forall>name f st'. Finish L ftx ttx fh th w st = ((name, f), st') \<longrightarrow> length (w_out w) + footerSize < 2 ^ 34 \<longrightarrow>
      no_collision L (w_out w @ encodeFooter f) \<longrightarrow> ODrop name \<notin> set ops \<longrightarrow> map_of side name = None \<longrightarrow>
      FromTx f = ftx \<and> ToTx f = ttx \<and> FromHeight f = fh \<and> ToHeight f = th \<and> Prev f = prev \<and>
      (\<exists>r side' r1 r2. let st'' = fold (apply_op L) ops st' in
        OpenRun L T gap name st'' side = Inr (r, side') \<and> run_serves T rows name f r \<and>
        OpenRun L T gap name st'' side' = Inr (r1, side') \<and> run_serves T rows name f r1 \<and>
        ReopenRun L T gap r st'' side' = Inr (r2, side') \<and> run_serves T rows name f r2))"
  using assms by (rule sealed_run)

text \<open>A small table library: rows in a prefix code, no filter and no index blocks.\<close>

fun toy_bytes :: "bytes \<Rightarrow> bytes" where
  "toy_bytes [] = [0]"
| "toy_bytes (b # bs) = 1 # b # toy_bytes bs"

fun toy_rows :: "row list \<Rightarrow> bytes" where
  "toy_rows [] = [0]"
| "toy_rows ((k, v) # rows) = 1 # toy_bytes k @ toy_bytes v @ toy_rows rows"

fun untoy_bytes :: "bytes \<Rightarrow> bytes \<times> bytes" where
  "untoy_bytes (t # b # bs) = (if t = 0 then ([], b # bs) else (case untoy_bytes bs of (x, y) \<Rightarrow> (b # x, y)))"
| "untoy_bytes bs = ([], [])"

fun untoy_rows :: "bytes \<Rightarrow> bytes \<Rightarrow> row list" where
  "untoy_rows (f # fuel) (t # bs) =
     (if t = 0 then [] else case untoy_bytes bs of (k, bs) \<Rightarrow> (case untoy_bytes bs of (v, bs) \<Rightarrow> (k, v) # untoy_rows fuel bs))"
| "untoy_rows fuel bs = []"

definition toy_sst :: sst_lib where
  "toy_sst = \<lparr>sst_write = (\<lambda>s level rows. if sorted_wrt (<) (map fst rows) then Some (toy_rows rows) else None),
     sst_open = (\<lambda>rd n. case rd 0 n of Inl e \<Rightarrow> None
       | Inr c \<Rightarrow> Some \<lparr>t_rows = untoy_rows c c, t_handles = [], t_filter = None, t_dataSize = 0\<rparr>),
     sst_checksum = (\<lambda>b. True), sst_probe = (\<lambda>f k. True), sst_trailer = 5\<rparr>"

lemma untoy_bytes: "rest \<noteq> [] \<Longrightarrow> untoy_bytes (toy_bytes bs @ rest) = (bs, rest)"
  by (induction bs) (auto simp: neq_Nil_conv)

lemma toy_rows_nonempty [simp]: "toy_bytes bs \<noteq> []" "toy_rows rows \<noteq> []"
  by (cases bs; simp) (cases rows rule: toy_rows.cases; simp)

lemma untoy_rows: "length rows < length fuel \<Longrightarrow> untoy_rows fuel (toy_rows rows) = rows"
proof (induction rows arbitrary: fuel rule: toy_rows.induct)
  case 1
  then show ?case by (cases fuel) simp_all
next
  case (2 k v rows)
  then show ?case by (cases fuel) (simp_all add: untoy_bytes)
qed

lemma toy_rows_length: "length rows < length (toy_rows rows)"
  by (induction rows rule: toy_rows.induct) simp_all

lemma toy_sst_laws: "sst_laws toy_sst"
proof -
  have "\<exists>t. table_ok toy_sst c rows t \<and> (\<forall>rd. exact_reader rd c \<longrightarrow> sst_open toy_sst rd (of_nat (length c)) = Some t)"
    if c: "c = toy_rows rows" "length c < 2 ^ 63" for c rows
  proof (intro exI conjI allI impI)
    let ?t = "\<lparr>t_rows = rows, t_handles = [], t_filter = None, t_dataSize = 0\<rparr> :: sst_table"
    show "table_ok toy_sst c rows ?t" by (simp add: table_ok_def handles_ok_def)
    fix rd assume "exact_reader rd c"
    moreover have "unat (of_nat (length c) :: u64) = length c" using c(2) by (simp add: unat_of_nat_small)
    ultimately have "rd 0 (of_nat (length c)) = Inr c" by (simp add: exact_reader_def)
    then show "sst_open toy_sst rd (of_nat (length c)) = Some ?t"
      by (simp add: toy_sst_def c(1) untoy_rows toy_rows_length)
  qed
  then show ?thesis by (auto simp: sst_laws_def toy_sst_def)
qed

definition sample_rows :: "row list list" where
  "sample_rows = [[], [([1], [2])], [([1], []), ([2], [3])]]"

definition sample_writer :: RunWriter where
  "sample_writer = (case writeRun toy_sst sample_rows (NewRunWriter (replicate 32 0) 1) of Inr w \<Rightarrow> w | Inl _ \<Rightarrow> NewRunWriter [] 0)"

definition sample_footer :: Footer where
  "sample_footer = (w_footer sample_writer)\<lparr>FromTx := 3, ToTx := 9, FromHeight := 1, ToHeight := 2\<rparr>"

definition sample_lib :: "files cas_lib" where
  "sample_lib = toy_lib (w_out sample_writer @ encodeFooter sample_footer)"

theorem sealed_run_opens_witness:
  "\<exists>name st r side. Finish sample_lib 3 9 1 2 sample_writer (Local\<lparr>cas := Some []\<rparr>) = ((name, sample_footer), st) \<and>
    OpenRun sample_lib toy_sst 0 name (fold (apply_op sample_lib) [OSync] st) [] = Inr (r, side) \<and> run_serves toy_sst sample_rows name sample_footer r"
proof -
  have L: "cas_laws sample_lib" unfolding sample_lib_def by (rule toy_laws)
  obtain w where w: "writeRun toy_sst sample_rows (NewRunWriter (replicate 32 0) 1) = Inr w" and
    t: "\<And>name f st'. Finish sample_lib 3 9 1 2 w (Local\<lparr>cas := Some []\<rparr>) = ((name, f), st') \<Longrightarrow> length (w_out w) + footerSize < 2 ^ 34 \<Longrightarrow>
      no_collision sample_lib (w_out w @ encodeFooter f) \<Longrightarrow> ODrop name \<notin> set [OSync] \<Longrightarrow>
      \<exists>r side. OpenRun sample_lib toy_sst 0 name (fold (apply_op sample_lib) [OSync] st') [] = Inr (r, side) \<and> run_serves toy_sst sample_rows name f r"
    using sealed_run_opens [OF L toy_sst_laws store_ok_Local, of sample_rows "replicate 32 0" 1 3 9 1 2 "Some []" "[OSync]" "[]" 0]
    unfolding Let_def by (fastforce simp: sample_rows_def numSections_def)
  have sw: "sample_writer = w" unfolding sample_writer_def w by simp
  have h: "w_hash w = w_out w" "length (w_out w) + footerSize < 2 ^ 34" unfolding sw [symmetric] by code_simp+
  obtain name f st where fin: "Finish sample_lib 3 9 1 2 w (Local\<lparr>cas := Some []\<rparr>) = ((name, f), st)" by (metis prod.exhaust)
  have f: "f = sample_footer" using Finish_stores(1) [OF h(1) fin] by (simp add: sample_footer_def sw)
  have "no_collision sample_lib (w_out w @ encodeFooter f)"
    by (simp add: no_collision_def sample_lib_def toy_lib_def toy_name_def f sw split: if_splits)
  from t [OF fin h(2) this] show ?thesis using fin by (auto simp: f sw)
qed

end
