(* ===== verification/Reads.thy ===== *)
theory Reads
  imports Run Memtable
begin

text \<open>
  Point reads of one source, \<^verbatim>\<open>Run.Get\<close>, \<^verbatim>\<open>Run.Latest\<close>, \<^verbatim>\<open>Run.ScanRange\<close> and \<^verbatim>\<open>memtable.latestState\<close>, against what
  the source holds.  The interface the database descends over is the locale \<open>versioned\<close>: a source has a
  history per key prefix and answers with the newest entry at or below a TxNum.
\<close>

section \<open>The newest entry at or below\<close>

type_synonym history = "(u64 \<times> bytes) list"

definition newest_at :: "history \<Rightarrow> u64 \<Rightarrow> (bytes \<times> u64) option" where
  "newest_at h at = (case filter (\<lambda>e. fst e \<le> at) h of [] \<Rightarrow> None | e # es \<Rightarrow> Some (snd (last (e # es)), fst (last (e # es))))"

lemma newest_at_Nil [simp]: "newest_at [] at = None"
  by (simp add: newest_at_def)

lemma newest_at_alt:
  "newest_at h at = (let es = filter (\<lambda>e. fst e \<le> at) h in if es = [] then None else Some (snd (last es), fst (last es)))"
  unfolding newest_at_def Let_def by (cases "filter (\<lambda>e. fst e \<le> at) h") simp_all

text \<open>The newer part of a history wins; a part above the bound does not answer.\<close>

lemma newest_at_append:
  "newest_at (old @ new) at = (case newest_at new at of Some x \<Rightarrow> Some x | None \<Rightarrow> newest_at old at)"
  by (simp add: newest_at_alt Let_def)

lemma newest_at_above: "\<forall>e \<in> set h. at < fst e \<Longrightarrow> newest_at h at = None"
  by (simp add: newest_at_alt Let_def filter_empty_conv not_le)

text \<open>
  The contract of a source: \<open>ok s p\<close> says that the source is well formed under the prefix \<open>p\<close>, \<open>hist\<close> is
  what it holds there.  The descent asks the sources from the newest to the oldest and stops at the
  first answer.
\<close>

locale versioned =
  fixes ok :: "'s \<Rightarrow> bytes \<Rightarrow> bool" and hist :: "'s \<Rightarrow> bytes \<Rightarrow> history" and newest :: "'s \<Rightarrow> bytes \<Rightarrow> u64 \<Rightarrow> (bytes \<times> u64) option"
  assumes newest: "ok s p \<Longrightarrow> at \<noteq> -1 \<Longrightarrow> newest s p at = newest_at (hist s p) at"
begin

fun descend :: "('s \<Rightarrow> bool) \<Rightarrow> 's list \<Rightarrow> bytes \<Rightarrow> u64 \<Rightarrow> (bytes \<times> u64) option" where
  "descend skip [] p at = None"
| "descend skip (s # ss) p at =
     (if skip s then descend skip ss p at
      else case newest s p at of Some x \<Rightarrow> Some x | None \<Rightarrow> descend skip ss p at)"

lemma descend_newest:
  assumes "at \<noteq> -1" and "\<forall>s \<in> set ss. ok s p" and "\<forall>s \<in> set ss. skip s \<longrightarrow> (\<forall>e \<in> set (hist s p). at < fst e)"
  shows "descend skip ss p at = newest_at (concat (map (\<lambda>s. hist s p) (rev ss))) at"
  using assms(2,3)
proof (induction ss)
  case (Cons s ss)
  then show ?case
    using newest_at_above [of "hist s p" at] newest [OF _ assms(1), of s p]
    by (auto simp: newest_at_append split: option.split)
qed simp

end

section \<open>The window\<close>

definition mem_hist :: "memtable \<Rightarrow> bytes \<Rightarrow> history" where
  "mem_hist m p = (case map_of (mstate m) p of None \<Rightarrow> [] | Some h \<Rightarrow> h)"

definition mem_sorted :: "memtable \<Rightarrow> bytes \<Rightarrow> bool" where
  "mem_sorted m p = sorted_wrt (<) (map fst (mem_hist m p))"

lemma takeWhile_filter_sorted:
  "sorted_wrt (<) (map fst h) \<Longrightarrow> takeWhile (\<lambda>e. \<not> fst e > (at :: u64)) h = filter (\<lambda>e. fst e \<le> at) h"
proof (induction h)
  case (Cons e h)
  show ?case
  proof (cases "fst e \<le> at")
    case False
    then have "\<forall>x \<in> set h. \<not> fst x \<le> at" using Cons.prems by auto
    then show ?thesis using False by (simp add: filter_empty_conv)
  qed (use Cons in auto)
qed simp

lemma latestState_newest:
  assumes "mem_sorted m p"
  shows "latestState p at m = newest_at (mem_hist m p) at"
proof -
  define h where "h = mem_hist m p"
  have s: "sorted_wrt (<) (map fst h)" using assms by (simp add: mem_sorted_def h_def)
  have "sort_Search (length h) (\<lambda>i. fst (h ! i) > at) = length (takeWhile (\<lambda>e. \<not> fst e > at) h)"
  proof (rule sort_Search_takeWhile)
    fix a b assume ab: "a \<le> b" "b < length h" "fst (h ! a) > at"
    have "fst (h ! a) \<le> fst (h ! b)"
      using sorted_wrt_nth_less [OF s, of a b] ab(1,2) by (cases "a = b") auto
    then show "fst (h ! b) > at" using ab(3) by simp
  qed
  then have i: "sort_Search (length h) (\<lambda>i. fst (h ! i) > at) = length (filter (\<lambda>e. fst e \<le> at) h)"
    by (simp only: takeWhile_filter_sorted [OF s])
  have "h ! (length (filter (\<lambda>e. fst e \<le> at) h) - 1) = last (filter (\<lambda>e. fst e \<le> at) h)" if "filter (\<lambda>e. fst e \<le> at) h \<noteq> []"
    using that takeWhile_nth [of "length (filter (\<lambda>e. fst e \<le> at) h) - 1" "\<lambda>e. \<not> fst e > at" h]
    by (simp add: takeWhile_filter_sorted [OF s] last_conv_nth)
  then show ?thesis
    by (simp add: latestState_def newest_at_alt mem_hist_def [symmetric] h_def [symmetric] Let_def i)
qed

interpretation win: versioned mem_sorted mem_hist "\<lambda>m p at. latestState p at m"
  by unfold_locales (simp add: latestState_newest)

section \<open>A run\<close>

definition under :: "bytes \<Rightarrow> bytes \<Rightarrow> bool" where
  "under p k = (length k = length p + 8 \<and> take (length p) k = p)"

definition row_hist :: "row list \<Rightarrow> bytes \<Rightarrow> history" where
  "row_hist rows p = map (\<lambda>(k, v). (TxNumOf k, v)) (filter (\<lambda>(k, v). under p k) rows)"

lemma underE: "under p k \<Longrightarrow> k = Suffixed p (TxNumOf k)"
proof -
  assume u: "under p k"
  then have "drop (length p) k = be64 (get64 (drop (length p) k))" by (simp add: under_def be64_get64)
  moreover have "p @ drop (length p) k = k" using u append_take_drop_id [of "length p" k] by (simp add: under_def)
  ultimately show ?thesis using u by (simp add: TxNumOf_def Suffixed_def under_def)
qed

lemma under_Suffixed [simp]: "under p (Suffixed p n)"
  by (simp add: under_def) (simp add: Suffixed_def)

text \<open>
  A section is well formed for point reads when its keys rise and no filter hides one of them, and for a
  prefix when every key under it carries a TxNum and no two of them have different bloom entries.
\<close>

definition sec_rows :: "nat \<Rightarrow> Run \<Rightarrow> row list" where
  "sec_rows s r = t_rows (r_table r ! s)"

definition sec_ok :: "sst_lib \<Rightarrow> nat \<Rightarrow> Run \<Rightarrow> bool" where
  "sec_ok T s r = (sorted_wrt (<) (map fst (sec_rows s r)) \<and> (\<forall>(k, v) \<in> set (sec_rows s r). MayHave T r s k))"

definition prefix_ok :: "bytes \<Rightarrow> row list \<Rightarrow> bool" where
  "prefix_ok p rows = ((\<forall>(k, v) \<in> set rows. HasPrefix k p \<longrightarrow> length k = length p + 8) \<and>
     (\<forall>n. bloom_prefix (Suffixed p n) = bloom_prefix (Suffixed p 0)))"

lemma MayHave_bloom: "bloom_prefix k = bloom_prefix k' \<Longrightarrow> MayHave T r s k = MayHave T r s k'"
  by (simp add: MayHave_def mayContain_def split: option.split)

lemma last_filter_last: "xs \<noteq> [] \<Longrightarrow> Q (last xs) \<Longrightarrow> last (filter Q xs) = last xs"
  by (induction xs rule: rev_induct) simp_all

lemma find_rev: "find P (rev xs) = (if filter P xs = [] then None else Some (last (filter P xs)))"
  by (induction xs rule: rev_induct) auto

lemma last_ge:
  assumes "sorted_wrt (<) (map fst xs)" and "x \<in> set xs"
  shows "fst x \<le> (fst (last xs) :: bytes)"
  using assms by (induction xs rule: rev_induct) (auto simp: sorted_wrt_append)

lemma run_Latest_newest:
  assumes ok: "sec_ok T s r" and p: "prefix_ok p (sec_rows s r)" and at: "at \<noteq> -1"
  shows "run_Latest T r s p at = newest_at (row_hist (sec_rows s r) p) at"
proof -
  define rows where "rows = sec_rows s r"
  define Q where "Q = (\<lambda>(k :: bytes, v :: bytes). under p k \<and> TxNumOf k \<le> at)"
  define A where "A = filter (\<lambda>kv. fst kv < Suffixed p (at + 1)) rows"
  have sorted: "sorted_wrt (<) (map fst rows)" "sorted_wrt (<) (map fst A)"
    using ok by (auto simp: sec_ok_def rows_def A_def sorted_wrt_map intro: sorted_wrt_filter)
  have below: "fst kv < Suffixed p (at + 1)" if "Q kv" for kv
  proof -
    have u: "under p (fst kv)" "TxNumOf (fst kv) \<le> at" using that by (simp_all add: Q_def case_prod_unfold)
    have "TxNumOf (fst kv) < at + 1" using u(2) less_add1_u64 [OF at] by simp
    then have "Suffixed p (TxNumOf (fst kv)) < Suffixed p (at + 1)" by simp
    then show ?thesis by (simp only: underE [OF u(1), symmetric])
  qed
  have FA: "filter Q A = filter Q rows" unfolding A_def filter_filter by (rule filter_cong [OF refl]) (use below in blast)
  have h: "newest_at (row_hist rows p) at = (if filter Q A = [] then None else Some (snd (last (filter Q A)), TxNumOf (fst (last (filter Q A)))))"
  proof -
    have "filter (\<lambda>e. fst e \<le> at) (row_hist rows p) = map (\<lambda>(k, v). (TxNumOf k, v)) (filter Q rows)"
      unfolding row_hist_def filter_map filter_filter Q_def by (rule arg_cong [OF filter_cong [OF refl]]) auto
    then show ?thesis unfolding FA newest_at_alt Let_def by (simp add: last_map case_prod_unfold)
  qed
  have seek: "SeekLT (Suffixed p (at + 1)) rows = (if A = [] then None else Some (last A))"
    by (simp add: SeekLT_def find_rev A_def)
  have inA: "Q kv" if "kv \<in> set A" "under p (fst kv)" for kv
  proof -
    have "fst kv < Suffixed p (at + 1)" using that(1) by (simp add: A_def)
    then have "Suffixed p (TxNumOf (fst kv)) < Suffixed p (at + 1)" by (simp only: underE [OF that(2), symmetric])
    then have "TxNumOf (fst kv) < at + 1" by simp
    then have "TxNumOf (fst kv) \<le> at" using at less_add1_u64 [OF at] unat_add1 [of at "at + 1"] by (simp add: word_less_nat_alt word_le_nat_alt)
    then show ?thesis using that(2) by (simp add: Q_def case_prod_unfold)
  qed
  show ?thesis
  proof (cases "filter Q A = []")
    case True
    then have "A \<noteq> [] \<longrightarrow> \<not> under p (fst (last A))" using inA [of "last A"] by (auto simp: filter_empty_conv)
    then have "run_Latest T r s p at = None"
      using seek by (auto simp: run_Latest_def rows_def sec_rows_def under_def case_prod_unfold split: option.split)
    then show ?thesis using h True by (simp add: rows_def)
  next
    case False
    then obtain kv where kv: "kv \<in> set A" "Q kv" by (auto simp: filter_empty_conv)
    then have ne: "A \<noteq> []" by auto
    have u: "under p (fst kv)" using kv(2) by (simp add: Q_def case_prod_unfold)
    have l: "last A \<in> set A" "fst kv \<le> fst (last A)" using ne last_ge [OF sorted(2) kv(1)] by simp_all
    have "p @ be64 (TxNumOf (fst kv)) \<le> fst (last A)" using l(2) unfolding Suffixed_def [symmetric] underE [OF u, symmetric] .
    moreover have "\<forall>kv \<in> set A. fst kv \<le> p @ be64 (at + 1)" by (auto simp: A_def Suffixed_def)
    then have "fst (last A) \<le> p @ be64 (at + 1)" using l(1) by blast
    ultimately have "\<exists>c. fst (last A) = p @ c" by (rule lex_between_prefix)
    moreover have "last A \<in> set rows" using l(1) by (simp add: A_def)
    ultimately have lu: "under p (fst (last A))" using p by (auto simp: prefix_ok_def rows_def under_def HasPrefix_def)
    have "MayHave T r s (fst kv)" using ok kv(1) by (auto simp: sec_ok_def A_def rows_def)
    moreover have "bloom_prefix (Suffixed p (TxNumOf (fst kv))) = bloom_prefix (Suffixed p 0)" using p by (simp add: prefix_ok_def)
    then have "bloom_prefix (fst kv) = bloom_prefix (Suffixed p 0)" by (simp only: underE [OF u, symmetric])
    ultimately have "MayHave T r s (Suffixed p 0)" using MayHave_bloom [of "fst kv" "Suffixed p 0" T r s] by simp
    then have "run_Latest T r s p at = Some (snd (last A), TxNumOf (fst (last A)))"
      using seek ne lu by (simp add: run_Latest_def rows_def sec_rows_def under_def case_prod_unfold)
    moreover have "last (filter Q A) = last A" using inA [OF l(1) lu] ne by (intro last_filter_last)
    ultimately show ?thesis using h False by (simp add: rows_def)
  qed
qed


text \<open>The state section, index 1.\<close>

interpretation run: versioned "\<lambda>r p. sec_ok T 1 r \<and> prefix_ok p (sec_rows 1 r)" "\<lambda>r p. row_hist (sec_rows 1 r) p"
    "\<lambda>r p at. run_Latest T r 1 p at" for T
  by unfold_locales (simp add: run_Latest_newest)

lemma find_sorted_ge:
  assumes "sorted_wrt (<) (map fst rows)"
  shows "(case find (\<lambda>kv. fst kv \<ge> key) rows of None \<Rightarrow> None | Some (k, v) \<Rightarrow> if k \<noteq> key then None else Some v) = map_of rows (key :: bytes)"
  using assms
proof (induction rows)
  case (Cons kv rows)
  obtain k v where kv: "kv = (k, v)" by fastforce
  have "map_of rows key = None" if "k > key"
    using Cons.prems that kv by (force simp: map_of_eq_None_iff)
  then show ?case using Cons by (auto simp: kv)
qed simp

lemma Get_map_of:
  assumes "sec_ok T s r"
  shows "Get T r s key = map_of (sec_rows s r) key"
proof (cases "MayHave T r s key")
  case True
  then show ?thesis
    using find_sorted_ge [of "sec_rows s r" key] assms by (simp add: Get_def SeekGE_def sec_rows_def sec_ok_def)
next
  case False
  then have "map_of (sec_rows s r) key = None"
    using assms by (auto simp: sec_ok_def map_of_eq_None_iff)
  then show ?thesis using False by (simp add: Get_def)
qed

lemma ScanRange_filter:
  assumes "sorted_wrt (<) (map fst (sec_rows s r))"
  shows "ScanRange r s lo hi = filter (\<lambda>kv. lo \<le> fst kv \<and> (case hi of None \<Rightarrow> True | Some h \<Rightarrow> fst kv < h)) (sec_rows s r)"
proof -
  define below where "below k = (case hi of None \<Rightarrow> True | Some h \<Rightarrow> k < h)" for k :: bytes
  have mono: "below k" if "below k'" "k < k'" for k k' using that by (auto simp: below_def split: option.splits)
  have "takeWhile (\<lambda>kv. below (fst kv)) (dropWhile (\<lambda>kv. fst kv < lo) rows) = filter (\<lambda>kv. lo \<le> fst kv \<and> below (fst kv)) rows"
    if "sorted_wrt (<) (map fst rows)" for rows :: "row list"
    using that
  proof (induction rows)
    case (Cons kv rows)
    have gt: "\<forall>x \<in> set rows. fst kv < fst x" and s: "sorted_wrt (<) (map fst rows)" using Cons.prems by auto
    show ?case
    proof (cases "fst kv < lo")
      case True
      then show ?thesis using Cons.IH [OF s] by (simp add: not_le)
    next
      case False
      then have ge: "\<forall>x \<in> set rows. lo \<le> fst x" using gt by (meson less_imp_le not_le order_le_less_trans)
      then have d: "dropWhile (\<lambda>kv. fst kv < lo) rows = rows" by (cases rows) (auto simp: not_less)
      show ?thesis
      proof (cases "below (fst kv)")
        case True
        then show ?thesis using False Cons.IH [OF s] d by (simp add: not_less)
      next
        case nb: False
        then have "\<forall>x \<in> set rows. \<not> below (fst x)" using gt mono by blast
        then show ?thesis using False nb by (simp add: filter_empty_conv)
      qed
    qed
  qed simp
  from this [OF assms] show ?thesis unfolding ScanRange_def sec_rows_def [symmetric] below_def .
qed

lemma sorted_rows_cong: "run_serves T rows name f r \<Longrightarrow> s < numSections \<Longrightarrow> length rows = numSections \<Longrightarrow> sec_rows s r = rows ! s"
  by (auto simp: run_serves_def sec_rows_def)

text \<open>An opened run is well formed for every point read.\<close>

lemma run_serves_sec_ok:
  assumes "run_serves T rows name f r" and "s < numSections" and "length rows = numSections" and "sorted_wrt (<) (map fst (rows ! s))"
  shows "sec_ok T s r" and "sec_rows s r = rows ! s"
  using assms sorted_rows_cong [OF assms(1-3)] by (auto simp: sec_ok_def run_serves_def)

end
