(* ===== verification/GoHeap.thy ===== *)
theory GoHeap
  imports Prelude "HOL-Library.Multiset"
begin

text \<open>
  Go's \<^verbatim>\<open>container/heap\<close> as the mergers of \<^verbatim>\<open>src/store/merge.go\<close> and \<^verbatim>\<open>src/store/frontier.go\<close> use it: a
  binary heap in a slice, ordered by a comparison \<open>lt\<close>.  What the package asks of \<open>lt\<close> is the locale
  \<open>heap_less\<close>; there the operations are shown to permute the slice and to put a least element first.
\<close>

definition swap :: "'a list \<Rightarrow> nat \<Rightarrow> nat \<Rightarrow> 'a list" where
  "swap h i j = h[i := h ! j, j := h ! i]"

text \<open>The child of \<open>i\<close> that \<^verbatim>\<open>down\<close> compares with: the second when it exists and is less than the first.\<close>

definition child :: "('a \<Rightarrow> 'a \<Rightarrow> bool) \<Rightarrow> 'a list \<Rightarrow> nat \<Rightarrow> nat" where
  "child lt h i = (let j1 = 2 * i + 1; j2 = j1 + 1 in if j2 < length h \<and> lt (h ! j2) (h ! j1) then j2 else j1)"

lemma child_bounds:
  assumes "2 * i + 1 < length h"
  shows "i < child lt h i \<and> child lt h i < length h \<and> (child lt h i - 1) div 2 = i"
  using assms by (auto simp: child_def Let_def)

lemma length_swap [simp]: "length (swap h i j) = length h"
  by (simp add: swap_def)

function down :: "('a \<Rightarrow> 'a \<Rightarrow> bool) \<Rightarrow> 'a list \<Rightarrow> nat \<Rightarrow> 'a list \<times> nat" where
  "down lt h i =
     (if \<not> 2 * i + 1 < length h then (h, i)
      else
        let j = child lt h i in
        if \<not> lt (h ! j) (h ! i) then (h, i)
        else down lt (swap h i j) j)"
  by pat_completeness auto
termination
proof (relation "measure (\<lambda>(lt, h, i). length h - i)")
  fix lt :: "'a \<Rightarrow> 'a \<Rightarrow> bool" and h i j
  assume "\<not> \<not> 2 * i + 1 < length h" and j: "j = child lt h i"
  then have "i < j" "j < length h" using child_bounds [of i h lt] by auto
  then show "((lt, swap h i j, j), lt, h, i) \<in> measure (\<lambda>(lt, h, i). length h - i)" by simp
qed simp

declare down.simps [simp del]

function up :: "('a \<Rightarrow> 'a \<Rightarrow> bool) \<Rightarrow> 'a list \<Rightarrow> nat \<Rightarrow> 'a list" where
  "up lt h j =
     (let i = (j - 1) div 2 in
      if i = j \<or> \<not> lt (h ! j) (h ! i) then h else up lt (swap h i j) i)"
  by pat_completeness auto
termination
  by (relation "measure (\<lambda>(lt, h, j). j)") auto

declare up.simps [simp del]

text \<open>\<^verbatim>\<open>heap.Init\<close> sifts down from the last inner node; \<^verbatim>\<open>heap.Fix\<close> sifts up when nothing moved down.\<close>

definition heap_Init :: "('a \<Rightarrow> 'a \<Rightarrow> bool) \<Rightarrow> 'a list \<Rightarrow> 'a list" where
  "heap_Init lt h = fold (\<lambda>i h. fst (down lt h i)) (rev [0..<length h div 2]) h"

definition heap_Fix :: "('a \<Rightarrow> 'a \<Rightarrow> bool) \<Rightarrow> 'a list \<Rightarrow> nat \<Rightarrow> 'a list" where
  "heap_Fix lt h i = (case down lt h i of (h', i') \<Rightarrow> if \<not> i < i' then up lt h' i else h')"

section \<open>The slice is permuted\<close>

lemma mset_swap_nth: "i < length h \<Longrightarrow> j < length h \<Longrightarrow> mset (swap h i j) = mset h"
  by (simp add: swap_def mset_swap)

lemma mset_down [simp]: "mset (fst (down lt h i)) = mset h"
proof (induction lt h i rule: down.induct)
  case (1 lt h i)
  show ?case
  proof (cases "2 * i + 1 < length h \<and> lt (h ! child lt h i) (h ! i)")
    case True
    then have c: "i < child lt h i" "child lt h i < length h" using child_bounds by blast+
    have "mset (fst (down lt (swap h i (child lt h i)) (child lt h i))) = mset (swap h i (child lt h i))"
      by (rule 1) (use True in simp_all)
    also have "\<dots> = mset h" using c by (intro mset_swap_nth) simp_all
    finally show ?thesis using True by (subst down.simps) (simp add: Let_def)
  next
    case False
    then show ?thesis by (subst down.simps) (auto simp: Let_def)
  qed
qed

lemma down_index: "i \<le> snd (down lt h i)"
proof (induction lt h i rule: down.induct)
  case (1 lt h i)
  show ?case
  proof (cases "2 * i + 1 < length h \<and> lt (h ! child lt h i) (h ! i)")
    case True
    then have c: "i < child lt h i" using child_bounds by blast
    have "child lt h i \<le> snd (down lt (swap h i (child lt h i)) (child lt h i))" by (rule 1) (use True in simp_all)
    then show ?thesis using True c by (subst down.simps) (simp add: Let_def)
  next
    case False
    then show ?thesis by (subst down.simps) (auto simp: Let_def)
  qed
qed

lemma length_down [simp]: "length (fst (down lt h i)) = length h"
  by (metis mset_down size_mset)

lemma up_root [simp]: "up lt h 0 = h"
  by (simp add: up.simps)

lemma heap_Fix_root: "heap_Fix lt h 0 = fst (down lt h 0)"
  by (simp add: heap_Fix_def split: prod.split)

lemma fold_down: "mset (fold (\<lambda>i h. fst (down lt h i)) is h) = mset h"
  by (induction "is" arbitrary: h) simp_all

lemma mset_Init [simp]: "mset (heap_Init lt h) = mset h"
  by (simp add: heap_Init_def fold_down)

lemma mset_Fix_root [simp]: "mset (heap_Fix lt h 0) = mset h"
  by (simp add: heap_Fix_root)

section \<open>The least element is first\<close>

text \<open>What \<^verbatim>\<open>heap.Interface\<close> asks of its comparison: a strict weak order.\<close>

locale heap_less =
  fixes lt :: "'a \<Rightarrow> 'a \<Rightarrow> bool"
  assumes asym: "lt a b \<Longrightarrow> \<not> lt b a" and weak: "\<not> lt b a \<Longrightarrow> \<not> lt c b \<Longrightarrow> \<not> lt c a"
begin

definition ordered_from :: "nat \<Rightarrow> 'a list \<Rightarrow> bool" where
  "ordered_from k h = (\<forall>j < length h. 0 < j \<and> k \<le> (j - 1) div 2 \<longrightarrow> \<not> lt (h ! j) (h ! ((j - 1) div 2)))"

text \<open>Ordered except below \<open>i\<close>, whose children are no less than its parent.\<close>

definition ordered_but :: "nat \<Rightarrow> nat \<Rightarrow> 'a list \<Rightarrow> bool" where
  "ordered_but k i h = ((\<forall>j < length h. 0 < j \<and> k \<le> (j - 1) div 2 \<and> (j - 1) div 2 \<noteq> i \<longrightarrow> \<not> lt (h ! j) (h ! ((j - 1) div 2))) \<and>
     (0 < i \<and> k \<le> (i - 1) div 2 \<longrightarrow> (\<forall>j < length h. 0 < j \<and> (j - 1) div 2 = i \<longrightarrow> \<not> lt (h ! j) (h ! ((i - 1) div 2)))))"

lemma child_least:
  assumes "j < length h" and "0 < j" and "(j - 1) div 2 = i"
  shows "\<not> lt (h ! j) (h ! child lt h i)"
proof -
  have "j = 2 * i + 1 \<or> j = 2 * i + 2" using assms(2,3) by auto
  then show ?thesis using assms(1) asym [of "h ! j" "h ! j"] asym [of "h ! (2 * i + 2)" "h ! (2 * i + 1)"] by (auto simp: child_def Let_def)
qed


lemma down_ordered:
  assumes "ordered_but k i h" and "k \<le> i" and "i < length h"
  shows "ordered_from k (fst (down lt h i))"
  using assms
proof (induction "length h - i" arbitrary: h i rule: less_induct)
  case less
  define j where "j = child lt h i"
  have O: "\<not> lt (h ! m) (h ! ((m - 1) div 2))" if "m < length h" "0 < m" "k \<le> (m - 1) div 2" "(m - 1) div 2 \<noteq> i" for m
    using less.prems(1) that by (simp add: ordered_but_def)
  show ?case
  proof (cases "2 * i + 1 < length h \<and> lt (h ! j) (h ! i)")
    case False
    have "\<not> lt (h ! m) (h ! i)" if m: "m < length h" "0 < m" "(m - 1) div 2 = i" for m
    proof -
      have "2 * i + 1 < length h" using m by auto
      then show ?thesis using False weak [of "h ! j" "h ! i" "h ! m"] child_least [OF m] by (simp add: j_def)
    qed
    then have "ordered_from k h" using O unfolding ordered_from_def by metis
    moreover have "fst (down lt h i) = h" using False by (subst down.simps) (auto simp: Let_def j_def)
    ultimately show ?thesis by simp
  next
    case True
    have c: "i < j" "j < length h" "(j - 1) div 2 = i" using child_bounds [of i h lt] True by (simp_all add: j_def)
    define h' where "h' = swap h i j"
    have n: "h' ! i = h ! j" "h' ! j = h ! i" "\<And>m. m \<noteq> i \<Longrightarrow> m \<noteq> j \<Longrightarrow> h' ! m = h ! m"
      using c less.prems(3) by (auto simp: h'_def swap_def nth_list_update)
    have "\<not> lt (h' ! m) (h' ! ((m - 1) div 2))" if m: "m < length h" "0 < m" "k \<le> (m - 1) div 2" "(m - 1) div 2 \<noteq> j" for m
    proof -
      consider "m = j" | "m \<noteq> j" "(m - 1) div 2 = i" | "m = i" | "m \<noteq> i" "m \<noteq> j" "(m - 1) div 2 \<noteq> i" by blast
      then show ?thesis
      proof cases
        case 1
        then show ?thesis using n c True asym by simp
      next
        case 2
        then have "m \<noteq> i" using m(2) by auto
        then show ?thesis using 2 n child_least [OF m(1,2) 2(2)] by (simp add: j_def)
      next
        case 3
        have "(i - 1) div 2 \<noteq> i" using 3 m(2) by auto
        moreover have "0 < j" using c by simp
        ultimately show ?thesis using 3 m n less.prems(1) c unfolding ordered_but_def by simp
      next
        case 4
        then show ?thesis using O [OF m(1-3)] n m(4) by simp
      qed
    qed
    moreover have "\<not> lt (h' ! m) (h' ! i)" if m: "m < length h" "0 < m" "(m - 1) div 2 = j" for m
    proof -
      have "m \<noteq> i" "m \<noteq> j" using m c by auto
      then show ?thesis using O [OF m(1,2)] m(3) n c less.prems(2) by simp
    qed
    ultimately have "ordered_but k j h'" using c(3) unfolding ordered_but_def h'_def by auto
    then have "ordered_from k (fst (down lt h' j))"
      using less.hyps [of h' j] c less.prems(2) by (simp add: h'_def)
    moreover have "fst (down lt h i) = fst (down lt h' j)" using True by (subst down.simps) (simp add: Let_def j_def h'_def)
    ultimately show ?thesis by simp
  qed
qed

lemma ordered_from_but: "ordered_from (Suc i) h \<Longrightarrow> ordered_but i i h"
  by (auto simp: ordered_from_def ordered_but_def)

lemma Init_steps:
  "ordered_from n h \<Longrightarrow> n \<le> length h \<Longrightarrow> ordered_from 0 (fold (\<lambda>i h. fst (down lt h i)) (rev [0..<n]) h)"
proof (induction n arbitrary: h)
  case (Suc n)
  then have "ordered_from n (fst (down lt h n))" using down_ordered [OF ordered_from_but [OF Suc.prems(1)]] by simp
  from Suc.IH [OF this] show ?case using Suc.prems(2) by simp
qed simp

lemma Init_ordered: "ordered_from 0 (heap_Init lt h)"
proof -
  have "ordered_from (length h div 2) h" by (auto simp: ordered_from_def)
  from Init_steps [OF this] show ?thesis by (simp add: heap_Init_def)
qed

text \<open>Only the root may be out of place.\<close>

lemma Fix_ordered:
  assumes "ordered_from 0 (h[0 := x])" and "h \<noteq> []"
  shows "ordered_from 0 (heap_Fix lt h 0)"
proof -
  have "ordered_but 0 0 h"
    using assms(1) by (auto simp: ordered_from_def ordered_but_def nth_list_update split: if_splits)
  from down_ordered [OF this] show ?thesis using assms(2) by (simp add: heap_Fix_root)
qed

lemma root_least:
  assumes "ordered_from 0 h" and "j < length h"
  shows "\<not> lt (h ! j) (h ! 0)"
  using assms(2)
proof (induction j rule: less_induct)
  case (less j)
  show ?case
  proof (cases "j = 0")
    case True
    then show ?thesis using asym [of "h ! 0" "h ! 0"] by auto
  next
    case False
    then have p: "(j - 1) div 2 < j" by auto
    have "\<not> lt (h ! ((j - 1) div 2)) (h ! 0)" using less p by simp
    moreover have "\<not> lt (h ! j) (h ! ((j - 1) div 2))" using assms(1) less.prems False by (simp add: ordered_from_def)
    ultimately show ?thesis by (rule weak)
  qed
qed

lemma head_least: "ordered_from 0 h \<Longrightarrow> x \<in> set h \<Longrightarrow> \<not> lt x (h ! 0)"
  by (metis in_set_conv_nth root_least)

end

end
