(* ===== verification/Merge.thy ===== *)
theory Merge
  imports Reads GoHeap
begin

text \<open>
  The k-way merge of \<^verbatim>\<open>src/store/merge.go\<close>: cursors over one section of every input run in a
  \<^verbatim>\<open>container/heap\<close>, streamed into a run writer with the newest row of every key.
\<close>

section \<open>Cursors\<close>

record cursor =
  c_idx :: nat
  c_key :: bytes
  c_val :: bytes
  c_it :: "row list"   \<comment> \<open>the rows the iterator has not yielded yet\<close>

text \<open>
  \<open>None\<close> is the cursor whose key is \<^verbatim>\<open>nil\<close>: the iterator is exhausted.  Appending an empty key to a \<^verbatim>\<open>nil\<close>
  slice leaves it \<^verbatim>\<open>nil\<close>, so a section that starts with the empty key counts as exhausted, too.
\<close>

definition cur_first :: "nat \<Rightarrow> row list \<Rightarrow> cursor option" where
  "cur_first i rows =
     (case rows of
        [] \<Rightarrow> None
      | (k, v) # rs \<Rightarrow> if k = [] then None else Some \<lparr>c_idx = i, c_key = k, c_val = v, c_it = rs\<rparr>)"

definition cur_next :: "cursor \<Rightarrow> cursor option" where
  "cur_next c = (case c_it c of [] \<Rightarrow> None | (k, v) # rs \<Rightarrow> Some (c\<lparr>c_key := k, c_val := v, c_it := rs\<rparr>))"

definition cursorLess :: "cursor \<Rightarrow> cursor \<Rightarrow> bool" where
  "cursorLess a b = (if c_key a \<noteq> c_key b then c_key a < c_key b else c_idx a > c_idx b)"

definition openCursors :: "row list list \<Rightarrow> cursor list" where
  "openCursors inputs = List.map_filter (\<lambda>(i, rows). cur_first i rows) (enumerate 0 inputs)"

interpretation curs: heap_less cursorLess
  by unfold_locales (auto simp: cursorLess_def split: if_splits)

text \<open>Dropping the exhausted root: the last cursor takes its place.\<close>

definition dropRoot :: "cursor list \<Rightarrow> cursor list" where
  "dropRoot h = heap_Init cursorLess (butlast (h[0 := h ! (length h - 1)]))"

definition cur_size :: "cursor list \<Rightarrow> nat" where
  "cur_size h = (\<Sum>c \<in># mset h. Suc (length (c_it c)))"

lemma mset_dropRoot: "h \<noteq> [] \<Longrightarrow> mset (dropRoot h) = mset h - {# h ! 0 #}"
proof -
  assume "h \<noteq> []"
  then obtain c cs where h: "h = c # cs" by (cases h) auto
  have "mset (butlast (h[0 := h ! (length h - 1)])) = mset cs"
  proof (cases "cs = []")
    case False
    have "mset (last cs # butlast cs) = mset (butlast cs @ [last cs])" by simp
    also have "\<dots> = mset cs" using False by simp
    finally show ?thesis using False by (simp add: h last_conv_nth)
  qed (simp add: h)
  then show ?thesis by (simp add: dropRoot_def h)
qed

lemma mset_update_root: "h \<noteq> [] \<Longrightarrow> mset (h[0 := c]) = add_mset c (mset h - {# h ! 0 #})"
  by (cases h) simp_all

lemma cur_size_dropRoot: "h \<noteq> [] \<Longrightarrow> cur_size (dropRoot h) < cur_size h"
  by (cases h) (simp_all add: cur_size_def mset_dropRoot)

lemma cur_size_next: "h \<noteq> [] \<Longrightarrow> cur_next (h ! 0) = Some c \<Longrightarrow> cur_size (heap_Fix cursorLess (h[0 := c]) 0) < cur_size h"
  by (cases h) (auto simp: cur_size_def cur_next_def split: list.splits)

function mergeLoop :: "cursor list \<Rightarrow> bytes option \<Rightarrow> u64 \<Rightarrow> RunWriter \<Rightarrow> (u64 \<times> RunWriter) res" where
  "mergeLoop h lst n w =
     (if h = [] then Inr (n, w)
      else
        let c = h ! 0 in
        case (if lst = None \<or> lst \<noteq> Some (c_key c)
              then (case Set (c_key c) (c_val c) w of Inl e \<Rightarrow> Inl e | Inr w \<Rightarrow> Inr (Some (c_key c), n + 1, w))
              else Inr (lst, n, w)) of
          Inl e \<Rightarrow> Inl e
        | Inr (lst, n, w) \<Rightarrow>
            (case cur_next c of
               None \<Rightarrow> mergeLoop (dropRoot h) lst n w
             | Some c' \<Rightarrow> mergeLoop (heap_Fix cursorLess (h[0 := c']) 0) lst n w))"
  by pat_completeness auto
termination
  by (relation "measure (\<lambda>(h, lst, n, w). cur_size h)") (simp_all add: cur_size_dropRoot cur_size_next)

declare mergeLoop.simps [simp del]

definition mergeSection :: "Run list \<Rightarrow> nat \<Rightarrow> RunWriter \<Rightarrow> (u64 \<times> RunWriter) res" where
  "mergeSection inputs s w = mergeLoop (heap_Init cursorLess (openCursors (map (sec_rows s) inputs))) None 0 w"

section \<open>The merge keeps the newest row of every key\<close>

definition all_rows :: "cursor \<Rightarrow> row list" where
  "all_rows c = (c_key c, c_val c) # c_it c"

definition newest_row :: "cursor set \<Rightarrow> bytes \<Rightarrow> bytes \<Rightarrow> bool" where
  "newest_row H k v = (\<exists>c \<in> H. (k, v) \<in> set (all_rows c) \<and> (\<forall>c' \<in> H. k \<in> fst ` set (all_rows c') \<longrightarrow> c_idx c' \<le> c_idx c))"

definition cursors_ok :: "cursor list \<Rightarrow> bool" where
  "cursors_ok h = (curs.ordered_from 0 h \<and> distinct (map c_idx h) \<and> (\<forall>c \<in> set h. sorted_wrt (<) (map fst (all_rows c))))"

lemma cur_next_rows:
  "cur_next c = None \<Longrightarrow> all_rows c = [(c_key c, c_val c)]"
  "cur_next c = Some c' \<Longrightarrow> all_rows c = (c_key c, c_val c) # all_rows c' \<and> c_idx c' = c_idx c"
  by (auto simp: cur_next_def all_rows_def split: list.splits)

text \<open>The root has the least key, and among the cursors that hold it the highest index.\<close>

lemma root_key:
  assumes ok: "cursors_ok h" and h: "h \<noteq> []" and c: "c \<in> set h" and k: "(k, v) \<in> set (all_rows c)"
  shows "c_key (h ! 0) \<le> k" and "k = c_key (h ! 0) \<Longrightarrow> c_idx c \<le> c_idx (h ! 0)"
proof -
  have "sorted_wrt (<) (map fst (all_rows c))" using ok c by (simp add: cursors_ok_def)
  then have k1: "c_key c \<le> k" using k by (force simp: all_rows_def)
  have l: "\<not> cursorLess c (h ! 0)" using curs.head_least [of h c] ok c by (simp add: cursors_ok_def)
  then have k2: "c_key (h ! 0) \<le> c_key c" by (auto simp: cursorLess_def split: if_splits)
  show "c_key (h ! 0) \<le> k" using k1 k2 by simp
  show "c_idx c \<le> c_idx (h ! 0)" if "k = c_key (h ! 0)" using that k1 k2 l by (auto simp: cursorLess_def split: if_splits)
qed

text \<open>The heap after one step, whichever branch advances it.\<close>

definition stepped :: "cursor list \<Rightarrow> cursor list \<Rightarrow> bool" where
  "stepped h h' = (case cur_next (h ! 0) of None \<Rightarrow> h' = dropRoot h | Some c' \<Rightarrow> h' = heap_Fix cursorLess (h[0 := c']) 0)"

lemma stepped_set:
  assumes h: "h \<noteq> []" and s: "stepped h h'" and d: "distinct (map c_idx h)"
  shows "set h' = set h - {h ! 0} \<union> (case cur_next (h ! 0) of None \<Rightarrow> {} | Some c' \<Rightarrow> {c'})" and "distinct (map c_idx h')"
proof -
  obtain c cs where e: "h = c # cs" using h by (cases h) auto
  have nc: "c \<notin> set cs" using d e by auto
  have m: "mset h' = mset cs + (case cur_next c of None \<Rightarrow> {#} | Some c' \<Rightarrow> {# c' #})"
    using s mset_dropRoot [of h] by (auto simp: stepped_def e split: option.splits)
  have "set_mset (mset h') = set_mset (mset cs + (case cur_next c of None \<Rightarrow> {#} | Some c' \<Rightarrow> {# c' #}))" by (simp only: m)
  then show "set h' = set h - {h ! 0} \<union> (case cur_next (h ! 0) of None \<Rightarrow> {} | Some c' \<Rightarrow> {c'})"
    using nc by (auto simp: e split: option.splits)
  have i: "mset (map c_idx h') = image_mset c_idx (mset cs + (case cur_next c of None \<Rightarrow> {#} | Some c' \<Rightarrow> {# c' #}))"
    by (simp only: mset_map m)
  show "distinct (map c_idx h')"
  proof (cases "cur_next c")
    case None
    then have "mset (map c_idx h') = mset (map c_idx cs)" using i by simp
    then show ?thesis using d mset_eq_imp_distinct_iff by (fastforce simp: e)
  next
    case (Some c')
    then have "mset (map c_idx h') = mset (map c_idx h)" using i cur_next_rows(2) [OF Some] by (simp add: e)
    then show ?thesis using d mset_eq_imp_distinct_iff by blast
  qed
qed

lemma stepped_ok:
  assumes ok: "cursors_ok h" and h: "h \<noteq> []" and s: "stepped h h'"
  shows "cursors_ok h'"
proof -
  have d: "distinct (map c_idx h)" and so: "\<forall>c \<in> set h. sorted_wrt (<) (map fst (all_rows c))" and o: "curs.ordered_from 0 h"
    using ok by (simp_all add: cursors_ok_def)
  have h0: "h ! 0 \<in> set h" using h by simp
  have "sorted_wrt (<) (map fst (all_rows c))" if "c \<in> set h'" for c
  proof (cases "cur_next (h ! 0)")
    case None
    then show ?thesis using that so stepped_set(1) [OF h s d] by auto
  next
    case (Some c')
    have "all_rows (h ! 0) = (c_key (h ! 0), c_val (h ! 0)) # all_rows c'" using cur_next_rows(2) [OF Some] by simp
    then have "sorted_wrt (<) (map fst (all_rows c'))" using so h0 by (metis list.simps(9) sorted_wrt.simps(2))
    then show ?thesis using that so stepped_set(1) [OF h s d] Some by auto
  qed
  moreover have "curs.ordered_from 0 h'"
  proof (cases "cur_next (h ! 0)")
    case None
    then show ?thesis using s curs.Init_ordered by (simp add: stepped_def dropRoot_def)
  next
    case (Some c')
    have "(h[0 := c'])[0 := h ! 0] = h" by simp
    then show ?thesis using s Some curs.Fix_ordered [of "h[0 := c']" "h ! 0"] o h by (simp add: stepped_def)
  qed
  ultimately show ?thesis using stepped_set(2) [OF h s d] by (simp add: cursors_ok_def)
qed

lemma stepped_newest:
  assumes ok: "cursors_ok h" and h: "h \<noteq> []" and s: "stepped h h'" and k: "k \<noteq> c_key (h ! 0)"
  shows "newest_row (set h') k v \<longleftrightarrow> newest_row (set h) k v"
proof -
  have d: "distinct (map c_idx h)" using ok by (simp add: cursors_ok_def)
  define c where "c = h ! 0"
  have c: "c \<in> set h" using h by (simp add: c_def)
  have H: "set h = insert c (set h - {c})" using c by auto
  show ?thesis
  proof (cases "cur_next c")
    case None
    have e: "set h' = set h - {c}" using stepped_set(1) [OF h s d] None by (simp add: c_def)
    have n: "k \<notin> fst ` set (all_rows c)" using cur_next_rows(1) [OF None] k by (simp add: c_def)
    then have "(k, v) \<notin> set (all_rows c)" by (force simp: image_iff)
    then show ?thesis unfolding newest_row_def e using n H by (metis Diff_iff insertE)
  next
    case (Some c')
    have e: "set h' = insert c' (set h - {c})" using stepped_set(1) [OF h s d] Some by (auto simp: c_def)
    have r: "all_rows c = (c_key c, c_val c) # all_rows c'" "c_idx c' = c_idx c" using cur_next_rows(2) [OF Some] by simp_all
    have kk: "(k, v) \<in> set (all_rows c) \<longleftrightarrow> (k, v) \<in> set (all_rows c')" "k \<in> fst ` set (all_rows c) \<longleftrightarrow> k \<in> fst ` set (all_rows c')"
      using k r(1) by (auto simp: c_def)
    define D where "D = set h - {c}"
    have "newest_row (insert c' D) k v \<longleftrightarrow> newest_row (insert c D) k v"
      unfolding newest_row_def bex_simps ball_simps using kk r(2) by simp
    then show ?thesis unfolding e using H by (simp add: D_def)
  qed
qed

lemma newest_root:
  assumes ok: "cursors_ok h" and h: "h \<noteq> []"
  shows "newest_row (set h) (c_key (h ! 0)) v \<longleftrightarrow> v = c_val (h ! 0)"
proof
  define c where "c = h ! 0"
  have c: "c \<in> set h" using h by (simp add: c_def)
  have mine: "(c_key c, c_val c) \<in> set (all_rows c)" by (simp add: all_rows_def)
  show "newest_row (set h) (c_key (h ! 0)) v" if "v = c_val (h ! 0)"
    unfolding newest_row_def using that c mine root_key(2) [OF ok h] by (intro bexI [of _ c]) (auto simp: c_def)
  assume "newest_row (set h) (c_key (h ! 0)) v"
  then obtain c' where c': "c' \<in> set h" "(c_key c, v) \<in> set (all_rows c')"
    "\<forall>c'' \<in> set h. c_key c \<in> fst ` set (all_rows c'') \<longrightarrow> c_idx c'' \<le> c_idx c'" by (auto simp: newest_row_def c_def)
  have "c_idx c \<le> c_idx c'" using c'(3) c mine by force
  moreover have "c_idx c' \<le> c_idx c" using root_key(2) [OF ok h c'(1,2)] by (simp add: c_def)
  moreover have "inj_on c_idx (set h)" using ok by (simp add: cursors_ok_def distinct_map)
  ultimately have "c' = c" using c c'(1) by (simp add: inj_on_def)
  moreover have "sorted_wrt (<) (map fst (all_rows c))" using ok c by (simp add: cursors_ok_def)
  then have "\<forall>(k, u) \<in> set (c_it c). c_key c < k" by (auto simp: all_rows_def)
  ultimately show "v = c_val (h ! 0)" using c'(2) by (auto simp: all_rows_def c_def)
qed

lemma mergeLoop_out:
  assumes "cursors_ok h" and "\<forall>l. lst = Some l \<longrightarrow> (\<forall>c \<in> set h. l \<le> c_key c)" and "w_sst w \<noteq> None"
  shows "\<exists>out w'. mergeLoop h lst n w = Inr (n + of_nat (length out), w') \<and> setRows out w = Inr w' \<and> sorted_wrt (<) (map fst out) \<and>
    (\<forall>k v. (k, v) \<in> set out \<longleftrightarrow> lst \<noteq> Some k \<and> newest_row (set h) k v)"
  using assms
proof (induction "cur_size h" arbitrary: h lst n w rule: less_induct)
  case less
  show ?case
  proof (cases "h = []")
    case True
    then show ?thesis by (intro exI [of _ "[]"]) (simp add: mergeLoop.simps newest_row_def)
  next
    case h: False
    define c where "c = h ! 0"
    define h' where "h' = (case cur_next c of None \<Rightarrow> dropRoot h | Some c' \<Rightarrow> heap_Fix cursorLess (h[0 := c']) 0)"
    have s: "stepped h h'" by (auto simp: stepped_def h'_def c_def split: option.split)
    note ok' = stepped_ok [OF less.prems(1) h s]
    have sz: "cur_size h' < cur_size h" using cur_size_dropRoot [OF h] cur_size_next [OF h] by (auto simp: h'_def c_def split: option.split)
    have lst': "\<forall>c' \<in> set h'. c_key c \<le> c_key c'"
    proof
      fix c' assume "c' \<in> set h'"
      moreover have "c_key c \<le> c_key d" if "d \<in> set h" for d
        using root_key(1) [OF less.prems(1) h that, of "c_key d" "c_val d"] by (simp add: c_def all_rows_def)
      moreover have "c_key c \<le> c_key d" if "cur_next c = Some d" for d
        using root_key(1) [OF less.prems(1) h, of c "c_key d" "c_val d"] cur_next_rows(2) [OF that] h by (simp add: c_def all_rows_def)
      ultimately show "c_key c \<le> c_key c'"
        using stepped_set(1) [OF h s] less.prems(1) by (auto simp: cursors_ok_def c_def split: option.splits)
    qed
    have ge: "c_key c \<le> k" if "newest_row (set h) k v" for k v
      using that root_key(1) [OF less.prems(1) h] by (auto simp: newest_row_def c_def)
    note nr = stepped_newest [OF less.prems(1) h s, folded c_def] newest_root [OF less.prems(1) h, folded c_def]
    show ?thesis
    proof (cases "lst = Some (c_key c)")
      case True
      obtain out w' where o: "mergeLoop h' lst n w = Inr (n + of_nat (length out), w')" "setRows out w = Inr w'" "sorted_wrt (<) (map fst out)"
        "\<forall>k v. (k, v) \<in> set out \<longleftrightarrow> lst \<noteq> Some k \<and> newest_row (set h') k v"
        using less.hyps [OF sz ok' _ less.prems(3), of lst n] lst' True by auto
      have "mergeLoop h lst n w = mergeLoop h' lst n w"
        using h True by (subst mergeLoop.simps) (auto simp: Let_def c_def h'_def split: option.split)
      then show ?thesis using o nr(1) True by (intro exI [of _ out] exI [of _ w']) auto
    next
      case False
      obtain w1 where w1: "Set (c_key c) (c_val c) w = Inr w1" "w_sst w1 \<noteq> None"
        using less.prems(3) by (auto simp: Set_def Let_def split: option.splits)
      obtain out w' where o: "mergeLoop h' (Some (c_key c)) (n + 1) w1 = Inr (n + 1 + of_nat (length out), w')" "setRows out w1 = Inr w'"
        "sorted_wrt (<) (map fst out)" "\<forall>k v. (k, v) \<in> set out \<longleftrightarrow> Some (c_key c) \<noteq> Some k \<and> newest_row (set h') k v"
        using less.hyps [OF sz ok' _ w1(2), of "Some (c_key c)" "n + 1"] lst' by auto
      have m: "mergeLoop h lst n w = mergeLoop h' (Some (c_key c)) (n + 1) w1"
        using h False w1(1) by (subst mergeLoop.simps) (auto simp: Let_def c_def h'_def split: option.split)
      have later: "\<forall>(k, v) \<in> set out. c_key c < k" using o(4) nr(1) ge by (force simp: less_le)
      have l: "lst \<noteq> Some k" if "newest_row (set h) k v" for k v
      proof
        assume e: "lst = Some k"
        have "c \<in> set h" using h by (simp add: c_def)
        then have "k \<le> c_key c" using less.prems(2) e by blast
        then show False using ge [OF that] False e by simp
      qed
      have mem: "(k, v) \<in> set ((c_key c, c_val c) # out) \<longleftrightarrow> lst \<noteq> Some k \<and> newest_row (set h) k v" for k v
        using o(4) nr l [of k v] False by (cases "k = c_key c") auto
      show ?thesis
        using m o(1-3) w1(1) later mem by (intro exI [of _ "(c_key c, c_val c) # out"] exI [of _ w']) (auto simp: add.assoc)
    qed
  qed
qed

text \<open>Maps in layers, the last one on top: what a descent from the newest to the oldest source finds.\<close>

definition layered :: "('k \<rightharpoonup> 'v) list \<Rightarrow> ('k \<rightharpoonup> 'v)" where
  "layered ms = foldl (++) Map.empty ms"

lemma layered_simps [simp]: "layered [] = Map.empty" "layered (ms @ [m]) = layered ms ++ m"
  by (simp_all add: layered_def)

lemma layered_append: "layered (ms @ ms') = layered ms ++ layered ms'"
  by (induction ms' rule: rev_induct) (simp_all flip: append_assoc)

lemma layered_Some:
  "layered ms k = Some v \<longleftrightarrow> (\<exists>i < length ms. (ms ! i) k = Some v \<and> (\<forall>j < length ms. (ms ! j) k \<noteq> None \<longrightarrow> j \<le> i))"
proof (induction ms rule: rev_induct)
  case (snoc m ms)
  show ?case
  proof (cases "m k")
    case None
    then have "layered (ms @ [m]) k = Some v \<longleftrightarrow> layered ms k = Some v" by (simp add: map_add_def)
    also have "\<dots> \<longleftrightarrow> (\<exists>i < length (ms @ [m]). ((ms @ [m]) ! i) k = Some v \<and> (\<forall>j < length (ms @ [m]). ((ms @ [m]) ! j) k \<noteq> None \<longrightarrow> j \<le> i))"
      unfolding snoc using None by (auto simp: nth_append less_Suc_eq)
    finally show ?thesis .
  next
    case (Some v')
    then have l: "layered (ms @ [m]) k = Some v'" "((ms @ [m]) ! length ms) k = Some v'" by (simp_all add: map_add_def)
    show ?thesis
    proof
      assume "layered (ms @ [m]) k = Some v"
      then show "\<exists>i < length (ms @ [m]). ((ms @ [m]) ! i) k = Some v \<and> (\<forall>j < length (ms @ [m]). ((ms @ [m]) ! j) k \<noteq> None \<longrightarrow> j \<le> i)"
        using l by (intro exI [of _ "length ms"]) simp
    next
      assume "\<exists>i < length (ms @ [m]). ((ms @ [m]) ! i) k = Some v \<and> (\<forall>j < length (ms @ [m]). ((ms @ [m]) ! j) k \<noteq> None \<longrightarrow> j \<le> i)"
      then obtain i where i: "i < Suc (length ms)" "((ms @ [m]) ! i) k = Some v" "\<forall>j < Suc (length ms). ((ms @ [m]) ! j) k \<noteq> None \<longrightarrow> j \<le> i"
        by auto
      then have "length ms \<le> i" using l(2) by simp
      then show "layered (ms @ [m]) k = Some v" using i l by (simp add: less_Suc_eq_le)
    qed
  qed
qed simp

definition section_rows_ok :: "row list \<Rightarrow> bool" where
  "section_rows_ok rows = (sorted_wrt (<) (map fst rows) \<and> (\<forall>(k, v) \<in> set rows. k \<noteq> []))"

lemma openCursors_set:
  "c \<in> set (openCursors ins) \<longleftrightarrow> (\<exists>i < length ins. cur_first i (ins ! i) = Some c)"
proof -
  have "set (openCursors ins) = {c. \<exists>x \<in> set (enumerate 0 ins). cur_first (fst x) (snd x) = Some c}"
  proof -
    have "set (List.map_filter f xs) = {c. \<exists>x \<in> set xs. f x = Some c}" for f :: "nat \<times> row list \<Rightarrow> cursor option" and xs
      by (induction xs) (auto simp: List.map_filter_simps split: option.split)
    then show ?thesis by (simp add: openCursors_def case_prod_unfold)
  qed
  then show ?thesis by (auto simp: in_set_enumerate_eq Bex_def)
qed

lemma cur_first_rows:
  "cur_first i rows = Some c \<Longrightarrow> c_idx c = i \<and> all_rows c = rows"
  by (auto simp: cur_first_def all_rows_def split: list.splits if_splits)

lemma cur_first_None: "section_rows_ok rows \<Longrightarrow> cur_first i rows = None \<longleftrightarrow> rows = []"
  by (auto simp: cur_first_def section_rows_ok_def split: list.splits)

lemma openCursors_distinct: "distinct (map c_idx (openCursors ins))"
proof -
  have "distinct (map c_idx (List.map_filter (\<lambda>(i, rows). cur_first i rows) (enumerate n ins))) \<and>
      (\<forall>c \<in> set (List.map_filter (\<lambda>(i, rows). cur_first i rows) (enumerate n ins)). n \<le> c_idx c)" for n
  proof (induction ins arbitrary: n)
    case (Cons rows ins)
    show ?case using Cons [of "Suc n"] cur_first_rows [of n rows]
      by (cases "cur_first n rows") (auto simp: List.map_filter_simps dest: Suc_leD)
  qed (simp add: List.map_filter_simps)
  then show ?thesis by (simp add: openCursors_def)
qed

lemma newest_row_layered:
  assumes "\<forall>rows \<in> set ins. section_rows_ok rows"
  shows "newest_row (set (openCursors ins)) k v \<longleftrightarrow> layered (map map_of ins) k = Some v"
proof -
  have d: "map_of (ins ! i) k = Some v' \<longleftrightarrow> (k, v') \<in> set (ins ! i)" if "i < length ins" for i v'
    using assms that by (intro map_of_eq_Some_iff) (auto simp: section_rows_ok_def strict_sorted_iff)
  have n: "map_of (ins ! i) k \<noteq> None \<longleftrightarrow> k \<in> fst ` set (ins ! i)" for i by (simp add: map_of_eq_None_iff)
  have ex: "\<exists>c. cur_first i (ins ! i) = Some c" if "i < length ins" "ins ! i \<noteq> []" for i
    using cur_first_None [of "ins ! i" i] assms that by auto
  have "newest_row (set (openCursors ins)) k v \<longleftrightarrow>
      (\<exists>i < length ins. (k, v) \<in> set (ins ! i) \<and> (\<forall>j < length ins. k \<in> fst ` set (ins ! j) \<longrightarrow> j \<le> i))"
  proof
    assume "newest_row (set (openCursors ins)) k v"
    then obtain c where c: "c \<in> set (openCursors ins)" "(k, v) \<in> set (all_rows c)"
      "\<forall>c' \<in> set (openCursors ins). k \<in> fst ` set (all_rows c') \<longrightarrow> c_idx c' \<le> c_idx c" by (auto simp: newest_row_def)
    then obtain i where i: "i < length ins" "cur_first i (ins ! i) = Some c" by (auto simp: openCursors_set)
    have "j \<le> i" if j: "j < length ins" "k \<in> fst ` set (ins ! j)" for j
    proof -
      have "ins ! j \<noteq> []" using j(2) by auto
      then obtain c' where c': "cur_first j (ins ! j) = Some c'" using ex [OF j(1)] by blast
      then have "c' \<in> set (openCursors ins)" using j(1) by (auto simp: openCursors_set)
      moreover have "k \<in> fst ` set (all_rows c')" using cur_first_rows [OF c'] j(2) by simp
      ultimately have "c_idx c' \<le> c_idx c" using c(3) by blast
      then show ?thesis using cur_first_rows [OF c'] cur_first_rows [OF i(2)] by simp
    qed
    then show "\<exists>i < length ins. (k, v) \<in> set (ins ! i) \<and> (\<forall>j < length ins. k \<in> fst ` set (ins ! j) \<longrightarrow> j \<le> i)"
      using i(1) c(2) cur_first_rows [OF i(2)] by (intro exI [of _ i]) simp
  next
    assume "\<exists>i < length ins. (k, v) \<in> set (ins ! i) \<and> (\<forall>j < length ins. k \<in> fst ` set (ins ! j) \<longrightarrow> j \<le> i)"
    then obtain i where i: "i < length ins" "(k, v) \<in> set (ins ! i)" "\<forall>j < length ins. k \<in> fst ` set (ins ! j) \<longrightarrow> j \<le> i" by blast
    have "ins ! i \<noteq> []" using i(2) by auto
    then obtain c where c: "cur_first i (ins ! i) = Some c" using ex [OF i(1)] by blast
    have "c_idx c' \<le> c_idx c" if c': "c' \<in> set (openCursors ins)" "k \<in> fst ` set (all_rows c')" for c'
    proof -
      obtain j where j: "j < length ins" "cur_first j (ins ! j) = Some c'" using c'(1) by (auto simp: openCursors_set)
      then show ?thesis using i(3) cur_first_rows [OF c] cur_first_rows [OF j(2)] c'(2) by auto
    qed
    moreover have "c \<in> set (openCursors ins)" using c i(1) by (auto simp: openCursors_set)
    moreover have "(k, v) \<in> set (all_rows c)" using i(2) cur_first_rows [OF c] by simp
    ultimately show "newest_row (set (openCursors ins)) k v" unfolding newest_row_def by blast
  qed
  also have "\<dots> \<longleftrightarrow> layered (map map_of ins) k = Some v"
    unfolding layered_Some length_map
    by (rule ex_cong1, rule conj_cong [OF refl], rule conj_cong, use d in simp, use n in simp)
  finally show ?thesis .
qed

text \<open>The merged section: every key once, in order, with the value of the newest input that has it.\<close>

lemma opened_heap_ok:
  assumes "\<forall>rows \<in> set ins. section_rows_ok rows"
  shows "cursors_ok (heap_Init cursorLess (openCursors ins))"
proof -
  define h where "h = heap_Init cursorLess (openCursors ins)"
  have m: "mset h = mset (openCursors ins)" by (simp add: h_def)
  have hs: "set h = set (openCursors ins)" by (rule mset_eq_setD [OF m])
  have "mset (map c_idx h) = mset (map c_idx (openCursors ins))" by (simp only: mset_map m)
  then have dh: "distinct (map c_idx h)" using mset_eq_imp_distinct_iff openCursors_distinct by blast
  have "sorted_wrt (<) (map fst (all_rows c))" if c: "c \<in> set h" for c
  proof -
    obtain i where i: "i < length ins" "cur_first i (ins ! i) = Some c" using c by (auto simp: hs openCursors_set)
    then show ?thesis using assms cur_first_rows [OF i(2)] nth_mem [OF i(1)] by (auto simp: section_rows_ok_def)
  qed
  then have "cursors_ok h" using dh curs.Init_ordered by (simp add: cursors_ok_def h_def)
  then show ?thesis by (simp add: h_def)
qed

lemma mergeSection_out:
  assumes ok: "\<forall>r \<in> set inputs. section_rows_ok (sec_rows s r)" and w: "w_sst w \<noteq> None"
  shows "\<exists>out w'. mergeSection inputs s w = Inr (of_nat (length out), w') \<and> setRows out w = Inr w' \<and> section_rows_ok out \<and>
    map_of out = layered (map (\<lambda>r. map_of (sec_rows s r)) inputs)"
proof -
  define ins where "ins = map (sec_rows s) inputs"
  have so: "\<forall>rows \<in> set ins. section_rows_ok rows" using ok by (simp add: ins_def)
  define h where "h = heap_Init cursorLess (openCursors ins)"
  have m: "mset h = mset (openCursors ins)" by (simp add: h_def)
  have hs: "set h = set (openCursors ins)" by (rule mset_eq_setD [OF m])
  have "cursors_ok h" using opened_heap_ok [OF so] by (simp add: h_def)
  from mergeLoop_out [OF this _ w, of None 0] obtain out w' where o: "mergeSection inputs s w = Inr (of_nat (length out), w')"
    "setRows out w = Inr w'" "sorted_wrt (<) (map fst out)" "\<forall>k v. (k, v) \<in> set out \<longleftrightarrow> newest_row (set h) k v"
    by (auto simp: mergeSection_def h_def ins_def)
  have mem: "(k, v) \<in> set out \<longleftrightarrow> layered (map map_of ins) k = Some v" for k v
    using o(4) newest_row_layered [OF so] by (simp add: hs)
  have "distinct (map fst out)" using o(3) by (simp add: strict_sorted_iff)
  then have "map_of out k = layered (map map_of ins) k" for k
    using mem by (cases "layered (map map_of ins) k") (auto simp: map_of_eq_None_iff)
  moreover have "k \<noteq> []" if kv: "(k, v) \<in> set out" for k v
  proof -
    obtain i where i: "i < length ins" "map_of (ins ! i) k = Some v" using mem [of k v] kv by (auto simp: layered_Some)
    then show ?thesis using so nth_mem [OF i(1)] map_of_SomeD [OF i(2)] by (auto simp: section_rows_ok_def)
  qed
  ultimately show ?thesis
    using o(1-3) by (intro exI [of _ out] exI [of _ w']) (auto simp: section_rows_ok_def ins_def comp_def fun_eq_iff)
qed

section \<open>Merging runs\<close>

fun mergeInto :: "sst_lib \<Rightarrow> Run list \<Rightarrow> nat list \<Rightarrow> RunWriter \<Rightarrow> (u64 list \<times> RunWriter) res" where
  "mergeInto T inputs [] w = Inr ([], w)"
| "mergeInto T inputs (s # ss) w =
     (case Begin s w of Inl e \<Rightarrow> Inl e | Inr w \<Rightarrow>
      case mergeSection inputs s w of Inl e \<Rightarrow> Inl e | Inr (n, w) \<Rightarrow>
      case End T w of Inl e \<Rightarrow> Inl e | Inr w \<Rightarrow>
      case mergeInto T inputs ss w of Inl e \<Rightarrow> Inl e | Inr (ns, w) \<Rightarrow> Inr (n # ns, w))"

text \<open>\<open>verifyRun\<close> reads the merged run back and counts; \<open>None\<close> is success.\<close>

definition verifyRun :: "Run \<Rightarrow> u64 list \<Rightarrow> RunRef \<Rightarrow> RunRef \<Rightarrow> err option" where
  "verifyRun r rows from to =
     (let f = r_footer r in
      if FromTx f \<noteq> rf_FromTx from \<or> ToTx f \<noteq> rf_ToTx to \<or> FromHeight f \<noteq> rf_FromHeight from \<or> ToHeight f \<noteq> rf_ToHeight to
      then Some MergeVerify
      else if \<exists>s \<in> set [0..<numSections]. of_nat (length (ScanRange r s [] None)) \<noteq> rows ! s then Some MergeVerify
      else None)"

fun openAll :: "'r cas_lib \<Rightarrow> sst_lib \<Rightarrow> u64 \<Rightarrow> string list \<Rightarrow> 'r Store \<Rightarrow> files \<Rightarrow> (Run list \<times> files) res" where
  "openAll L T gap [] st side = Inr ([], side)"
| "openAll L T gap (n # ns) st side =
     (case OpenRun L T gap n st side of Inl e \<Rightarrow> Inl e | Inr (r, side) \<Rightarrow>
      case openAll L T gap ns st side of Inl e \<Rightarrow> Inl e | Inr (rs, side) \<Rightarrow> Inr (r # rs, side))"

text \<open>Indexing an empty list of inputs panics.\<close>

definition RecomputeMerge :: "'r cas_lib \<Rightarrow> sst_lib \<Rightarrow> u64 \<Rightarrow> bytes \<Rightarrow> string list \<Rightarrow> 'r Store \<Rightarrow> files \<Rightarrow> (string \<times> 'r Store \<times> files) res" where
  "RecomputeMerge L T gap prev names st side =
     (case openAll L T gap names st side of
        Inl e \<Rightarrow> Inl e
      | Inr (inputs, side) \<Rightarrow>
          if inputs = [] then Inl GoPanic
          else
            let first = r_footer (inputs ! 0); last = r_footer (inputs ! (length inputs - 1)) in
            case mergeInto T inputs [0..<numSections] (NewRunWriter prev TerminalLevel) of
              Inl e \<Rightarrow> Inl e
            | Inr (_, w) \<Rightarrow>
                (case Finish L (FromTx first) (ToTx last) (FromHeight first) (ToHeight last) w st of
                   ((name, _), st') \<Rightarrow> Inr (name, st', side)))"

section \<open>A merged run answers like its inputs\<close>

definition inputs_ok :: "Run list \<Rightarrow> bool" where
  "inputs_ok inputs = (\<forall>r \<in> set inputs. \<forall>s < numSections. section_rows_ok (sec_rows s r))"

lemma sorted_rows_unique:
  assumes "sorted_wrt (<) (map fst xs)" and "sorted_wrt (<) (map fst ys)" and "set xs = set ys"
  shows "xs = (ys :: ('k::linorder \<times> 'v) list)"
proof (rule map_sorted_distinct_set_unique [of fst])
  show "inj_on fst (set xs \<union> set ys)" using assms(1,3) by (simp add: strict_sorted_iff distinct_map)
qed (use assms in \<open>simp_all add: strict_sorted_iff\<close>)

lemma Begin_open: "Begin s w = Inr w' \<Longrightarrow> w_sst w' \<noteq> None"
  by (auto simp: Begin_def split: if_splits)

lemma mergeInto_section:
  assumes "inputs_ok inputs" and "s < numSections"
  shows "\<exists>out. section_rows_ok out \<and> map_of out = layered (map (\<lambda>r. map_of (sec_rows s r)) inputs) \<and>
    (\<forall>w. mergeInto T inputs (s # ss) w = (case writeSection T s out w of Inl e \<Rightarrow> Inl e | Inr w \<Rightarrow>
      case mergeInto T inputs ss w of Inl e \<Rightarrow> Inl e | Inr (ns, w) \<Rightarrow> Inr (of_nat (length out) # ns, w)))"
proof -
  have ok: "\<forall>r \<in> set inputs. section_rows_ok (sec_rows s r)" using assms by (simp add: inputs_ok_def)
  have ex: "\<exists>out w'. mergeSection inputs s w = Inr (of_nat (length out), w') \<and> setRows out w = Inr w' \<and> section_rows_ok out \<and>
      map_of out = layered (map (\<lambda>r. map_of (sec_rows s r)) inputs)" if "w_sst w \<noteq> None" for w
    by (rule mergeSection_out [OF ok that])
  have one: "out = out'" if "section_rows_ok out" "section_rows_ok out'" "map_of out = map_of out'" for out out' :: "row list"
    by (rule sorted_rows_unique) (use that map_of_inject_set [of out out'] in \<open>auto simp: section_rows_ok_def strict_sorted_iff\<close>)
  obtain out where out: "section_rows_ok out" "map_of out = layered (map (\<lambda>r. map_of (sec_rows s r)) inputs)"
    using ex [of "(NewRunWriter [] 0)\<lparr>w_sst := Some []\<rparr>"] by auto
  have "mergeInto T inputs (s # ss) w = (case writeSection T s out w of Inl e \<Rightarrow> Inl e | Inr w \<Rightarrow>
      case mergeInto T inputs ss w of Inl e \<Rightarrow> Inl e | Inr (ns, w) \<Rightarrow> Inr (of_nat (length out) # ns, w))" for w
  proof (cases "Begin s w")
    case (Inr w1)
    obtain out' w2 where o: "mergeSection inputs s w1 = Inr (of_nat (length out'), w2)" "setRows out' w1 = Inr w2" "section_rows_ok out'"
      "map_of out' = layered (map (\<lambda>r. map_of (sec_rows s r)) inputs)" using ex [OF Begin_open [OF Inr]] by blast
    have "out' = out" using one [OF o(3) out(1)] o(4) out(2) by simp
    then show ?thesis using Inr o(1,2) by (simp add: writeSection_def split: sum.split)
  qed (simp add: writeSection_def)
  then show ?thesis using out by blast
qed

lemma mergeInto_writeRun:
  assumes "inputs_ok inputs"
  shows "\<exists>outs. length outs = numSections \<and> (\<forall>s < numSections. section_rows_ok (outs ! s) \<and>
      map_of (outs ! s) = layered (map (\<lambda>r. map_of (sec_rows s r)) inputs)) \<and>
    (\<forall>w. mergeInto T inputs [0..<numSections] w = (case writeRun T outs w of Inl e \<Rightarrow> Inl e | Inr w \<Rightarrow> Inr (map (\<lambda>out. of_nat (length out)) outs, w)))"
proof -
  have n: "[0..<numSections] = [0, 1, 2]" by (simp add: numSections_def upt_rec)
  obtain a where a: "section_rows_ok a" "map_of a = layered (map (\<lambda>r. map_of (sec_rows 0 r)) inputs)"
    "\<And>w. mergeInto T inputs [0, 1, 2] w = (case writeSection T 0 a w of Inl e \<Rightarrow> Inl e | Inr w \<Rightarrow>
      case mergeInto T inputs [1, 2] w of Inl e \<Rightarrow> Inl e | Inr (ns, w) \<Rightarrow> Inr (of_nat (length a) # ns, w))"
    using mergeInto_section [OF assms, of 0 T "[1, 2]"] by (auto simp: numSections_def)
  obtain b where b: "section_rows_ok b" "map_of b = layered (map (\<lambda>r. map_of (sec_rows 1 r)) inputs)"
    "\<And>w. mergeInto T inputs [1, 2] w = (case writeSection T 1 b w of Inl e \<Rightarrow> Inl e | Inr w \<Rightarrow>
      case mergeInto T inputs [2] w of Inl e \<Rightarrow> Inl e | Inr (ns, w) \<Rightarrow> Inr (of_nat (length b) # ns, w))"
    using mergeInto_section [OF assms, of 1 T "[2]"] by (auto simp: numSections_def simp del: One_nat_def)
  obtain c where c: "section_rows_ok c" "map_of c = layered (map (\<lambda>r. map_of (sec_rows 2 r)) inputs)"
    "\<And>w. mergeInto T inputs [2] w = (case writeSection T 2 c w of Inl e \<Rightarrow> Inl e | Inr w \<Rightarrow>
      case mergeInto T inputs [] w of Inl e \<Rightarrow> Inl e | Inr (ns, w) \<Rightarrow> Inr (of_nat (length c) # ns, w))"
    using mergeInto_section [OF assms, of 2 T "[]"] by (auto simp: numSections_def)
  have "mergeInto T inputs [0, 1, 2] w = (case writeRun T [a, b, c] w of Inl e \<Rightarrow> Inl e | Inr w \<Rightarrow> Inr (map (\<lambda>out. of_nat (length out)) [a, b, c], w))" for w
    unfolding a(3) b(3) c(3) writeRun_def by (simp split: sum.split)
  moreover have "s < numSections \<Longrightarrow> s = 0 \<or> s = 1 \<or> s = 2" for s by (auto simp: numSections_def)
  then have "\<forall>s < numSections. section_rows_ok ([a, b, c] ! s) \<and> map_of ([a, b, c] ! s) = layered (map (\<lambda>r. map_of (sec_rows s r)) inputs)"
    using a b c by fastforce
  ultimately show ?thesis unfolding n by (intro exI [of _ "[a, b, c]"]) (simp add: numSections_def)
qed

lemma row_hist_mem:
  assumes "sorted_wrt (<) (map fst rows)"
  shows "(n, v) \<in> set (row_hist rows p) \<longleftrightarrow> map_of rows (Suffixed p n) = Some v"
proof -
  have "(n, v) \<in> set (row_hist rows p) \<longleftrightarrow> (Suffixed p n, v) \<in> set rows"
  proof
    assume "(n, v) \<in> set (row_hist rows p)"
    then obtain k where k: "(k, v) \<in> set rows" "under p k" "n = TxNumOf k" by (auto simp: row_hist_def)
    then show "(Suffixed p n, v) \<in> set rows" using underE [OF k(2)] by simp
  next
    assume "(Suffixed p n, v) \<in> set rows"
    then show "(n, v) \<in> set (row_hist rows p)" by (force simp: row_hist_def)
  qed
  then show ?thesis using assms by (simp add: strict_sorted_iff)
qed

lemma row_hist_sorted:
  assumes "sorted_wrt (<) (map fst rows)"
  shows "sorted_wrt (<) (map fst (row_hist rows p))"
proof -
  define us where "us = filter (\<lambda>(k, v). under p k) rows"
  have s: "sorted_wrt (\<lambda>x y. fst x < fst y) us" using assms by (simp add: us_def sorted_wrt_map sorted_wrt_filter)
  have "TxNumOf (fst x) < TxNumOf (fst y)" if "x \<in> set us" "y \<in> set us" "fst x < fst y" for x y
  proof -
    have u: "under p (fst x)" "under p (fst y)" using that by (auto simp: us_def)
    have "Suffixed p (TxNumOf (fst x)) < Suffixed p (TxNumOf (fst y))" using that(3) by (simp only: underE [OF u(1), symmetric] underE [OF u(2), symmetric])
    then show ?thesis by simp
  qed
  with s have "sorted_wrt (\<lambda>x y. TxNumOf (fst x) < TxNumOf (fst y)) us" by (rule sorted_wrt_mono_rel [rotated])
  then show ?thesis by (simp add: row_hist_def us_def sorted_wrt_map case_prod_unfold)
qed

text \<open>Runs in ascending order whose rows lie in the TxNum range of their footer.\<close>

definition ascending :: "Run list \<Rightarrow> bool" where
  "ascending rs = sorted_wrt (\<lambda>a b. ToTx (r_footer a) \<le> FromTx (r_footer b)) rs"

definition in_range :: "bytes \<Rightarrow> Run \<Rightarrow> bool" where
  "in_range p r = (\<forall>e \<in> set (row_hist (sec_rows 1 r) p). FromTx (r_footer r) \<le> fst e \<and> fst e < ToTx (r_footer r))"

abbreviation run_hist :: "bytes \<Rightarrow> Run \<Rightarrow> history" where
  "run_hist p r \<equiv> row_hist (sec_rows 1 r) p"

lemma concat_hist_sorted:
  assumes "ascending rs" and "\<forall>r \<in> set rs. in_range p r \<and> sorted_wrt (<) (map fst (sec_rows 1 r))"
  shows "sorted_wrt (<) (map fst (concat (map (run_hist p) rs)))"
  using assms
proof (induction rs)
  case (Cons r rs)
  have "fst e < fst e'" if "e \<in> set (run_hist p r)" "r' \<in> set rs" "e' \<in> set (run_hist p r')" for e e' r'
  proof -
    have "fst e < ToTx (r_footer r)" using Cons.prems(2) that(1) by (auto simp: in_range_def)
    also have "\<dots> \<le> FromTx (r_footer r')" using Cons.prems(1) that(2) by (simp add: ascending_def)
    also have "\<dots> \<le> fst e'" using Cons.prems(2) that(2,3) by (auto simp: in_range_def)
    finally show ?thesis .
  qed
  moreover have "sorted_wrt (<) (map fst (concat (map (run_hist p) rs)))" using Cons by (simp add: ascending_def)
  ultimately show ?case using row_hist_sorted Cons.prems(2) by (auto simp: sorted_wrt_append)
qed simp

lemma merged_hist:
  assumes asc: "ascending rs" and r: "\<forall>r \<in> set rs. in_range p r \<and> sorted_wrt (<) (map fst (sec_rows 1 r))"
    and out: "sorted_wrt (<) (map fst out)" "map_of out = layered (map (\<lambda>r. map_of (sec_rows 1 r)) rs)"
  shows "row_hist out p = concat (map (run_hist p) rs)"
proof (rule sorted_rows_unique [OF row_hist_sorted [OF out(1)] concat_hist_sorted [OF asc r]])
  define ms where "ms = map (\<lambda>r. map_of (sec_rows 1 r)) rs"
  have one: "i = j" if ij: "i < length rs" "j < length rs" "(ms ! i) (Suffixed p n) \<noteq> None" "(ms ! j) (Suffixed p n) \<noteq> None" for i j n
  proof -
    have in1: "FromTx (r_footer (rs ! k)) \<le> n \<and> n < ToTx (r_footer (rs ! k))" if k: "k < length rs" "(ms ! k) (Suffixed p n) \<noteq> None" for k
    proof -
      obtain v where "map_of (sec_rows 1 (rs ! k)) (Suffixed p n) = Some v" using k by (auto simp: ms_def)
      moreover have "in_range p (rs ! k)" "sorted_wrt (<) (map fst (sec_rows 1 (rs ! k)))" using r nth_mem [OF k(1)] by blast+
      ultimately show ?thesis using row_hist_mem [of "sec_rows 1 (rs ! k)" n v p] by (fastforce simp: in_range_def)
    qed
    have lt: "False" if "a < b" "b < length rs" "(ms ! a) (Suffixed p n) \<noteq> None" "(ms ! b) (Suffixed p n) \<noteq> None" for a b
    proof -
      have "ToTx (r_footer (rs ! a)) \<le> FromTx (r_footer (rs ! b))" using asc that(1,2) by (simp add: ascending_def sorted_wrt_iff_nth_less)
      then show False using in1 [of a] in1 [of b] that by (meson less_le_trans less_trans not_le order_le_less_trans order.strict_trans1)
    qed
    show ?thesis using lt [of i j] lt [of j i] ij by (metis linorder_neqE_nat)
  qed
  have "(n, v) \<in> set (row_hist out p) \<longleftrightarrow> (n, v) \<in> set (concat (map (run_hist p) rs))" for n v
  proof -
    have "(n, v) \<in> set (row_hist out p) \<longleftrightarrow> layered ms (Suffixed p n) = Some v" using row_hist_mem [OF out(1)] out(2) by (simp add: ms_def)
    also have "\<dots> \<longleftrightarrow> (\<exists>i < length rs. (ms ! i) (Suffixed p n) = Some v)"
      unfolding layered_Some using one by (auto simp: ms_def) (metis eq_imp_le option.distinct(1) nth_map)
    also have "\<dots> \<longleftrightarrow> (\<exists>i < length rs. (n, v) \<in> set (run_hist p (rs ! i)))"
      using row_hist_mem r by (intro ex_cong1 conj_cong refl) (simp add: ms_def)
    also have "\<dots> \<longleftrightarrow> (n, v) \<in> set (concat (map (run_hist p) rs))" by (auto simp: in_set_conv_nth Bex_def)
    finally show ?thesis .
  qed
  then show "set (row_hist out p) = set (concat (map (run_hist p) rs))" by auto
qed

lemma merged_prefix_ok:
  assumes "\<forall>r \<in> set rs. prefix_ok p (sec_rows s r)" and "map_of out = layered (map (\<lambda>r. map_of (sec_rows s r)) rs)" and "rs \<noteq> []"
    and "distinct (map fst out)"
  shows "prefix_ok p out"
proof -
  have "\<exists>r \<in> set rs. (k, v) \<in> set (sec_rows s r)" if "(k, v) \<in> set out" for k v
  proof -
    have "layered (map (\<lambda>r. map_of (sec_rows s r)) rs) k = Some v" using assms(2,4) that by (metis map_of_is_SomeI)
    then obtain i where i: "i < length rs" "map_of (sec_rows s (rs ! i)) k = Some v" by (auto simp: layered_Some)
    then show ?thesis by (meson map_of_SomeD nth_mem)
  qed
  then show ?thesis using assms(1,3) unfolding prefix_ok_def by (fastforce simp: neq_Nil_conv)
qed

section \<open>The frontier\<close>

text \<open>
  \<^verbatim>\<open>MergeFrontier\<close> of \<^verbatim>\<open>src/store/frontier.go\<close>: the rows handed to the callback, in order.  \<open>None\<close> is the held
  row when \<^verbatim>\<open>have\<close> is false.
\<close>

record FrontierRow =
  fr_Key :: bytes
  fr_TxNum :: u64
  fr_Val :: bytes

definition advance :: "cursor list \<Rightarrow> cursor list" where
  "advance h = (case cur_next (h ! 0) of None \<Rightarrow> dropRoot h | Some c' \<Rightarrow> heap_Fix cursorLess (h[0 := c']) 0)"

lemma cur_size_advance: "h \<noteq> [] \<Longrightarrow> cur_size (advance h) < cur_size h"
  using cur_size_dropRoot cur_size_next by (auto simp: advance_def split: option.split)

definition isStateRow :: "bytes \<Rightarrow> bool" where
  "isStateRow k = (HasPrefix k PrefixState \<and> length k > 8)"

definition holdRow :: "u64 \<Rightarrow> bytes \<Rightarrow> bytes \<Rightarrow> FrontierRow option \<Rightarrow> FrontierRow list \<times> FrontierRow option" where
  "holdRow atTx k v held =
     (if \<not> isStateRow k then ([], held)
      else
        let key = take (length k - 8) k; num = TxNumOf k;
            (out, held) = (case held of None \<Rightarrow> ([], None) | Some r \<Rightarrow> if fr_Key r \<noteq> key then ([r], None) else ([], held))
        in (out, if num \<le> atTx then Some \<lparr>fr_Key = key, fr_TxNum = num, fr_Val = v\<rparr> else held))"

function frontierLoop :: "u64 \<Rightarrow> cursor list \<Rightarrow> FrontierRow option \<Rightarrow> FrontierRow list" where
  "frontierLoop atTx h held =
     (if h = [] then (case held of None \<Rightarrow> [] | Some r \<Rightarrow> [r])
      else case holdRow atTx (c_key (h ! 0)) (c_val (h ! 0)) held of (out, held) \<Rightarrow> out @ frontierLoop atTx (advance h) held)"
  by pat_completeness auto
termination
  by (relation "measure (\<lambda>(atTx, h, held). cur_size h)") (simp_all add: cur_size_advance)

declare frontierLoop.simps [simp del]

text \<open>A run that starts above the bound is not opened; its index is still counted.\<close>

definition MergeFrontier :: "Run list \<Rightarrow> u64 \<Rightarrow> FrontierRow list" where
  "MergeFrontier runs atTx =
     frontierLoop atTx (heap_Init cursorLess (openCursors (map (\<lambda>r. if FromTx (r_footer r) > atTx then [] else sec_rows 1 r) runs))) None"

definition SplitStateKey :: "bytes \<Rightarrow> (byte \<times> bytes \<times> bytes) res" where
  "SplitStateKey key =
     (let addrEnd = length PrefixState + 20 in
      if length key < addrEnd + 3 \<or> \<not> HasPrefix key PrefixState \<or> key ! addrEnd \<noteq> of_char (CHR ''/'')
      then Inl (Errorf ''not a state key'')
      else
        let kind = key ! (addrEnd + 1); addr = take 20 (drop (length PrefixState) key) in
        if kind = of_char (CHR ''a'') \<or> kind = of_char (CHR ''c'') then
          (if length key \<noteq> addrEnd + 3 then Inl (Errorf ''not a state key of this kind'') else Inr (kind, addr, []))
        else if kind = of_char (CHR ''s'') then
          (if length key \<noteq> addrEnd + 3 + 32 + 1 then Inl (Errorf ''not a state s key'')
           else Inr (kind, addr, take 32 (drop (addrEnd + 3) key)))
        else Inl (Errorf ''unknown state kind''))"

subsection \<open>The heap as a sequence of rows\<close>

function drainHeap :: "cursor list \<Rightarrow> row list" where
  "drainHeap h = (if h = [] then [] else (c_key (h ! 0), c_val (h ! 0)) # drainHeap (advance h))"
  by pat_completeness auto
termination
  by (relation "measure cur_size") (simp_all add: cur_size_advance)

declare drainHeap.simps [simp del]

fun frontierRows :: "u64 \<Rightarrow> row list \<Rightarrow> FrontierRow option \<Rightarrow> FrontierRow list" where
  "frontierRows atTx [] held = (case held of None \<Rightarrow> [] | Some r \<Rightarrow> [r])"
| "frontierRows atTx ((k, v) # rows) held = (case holdRow atTx k v held of (out, held) \<Rightarrow> out @ frontierRows atTx rows held)"

lemma frontierLoop_rows: "frontierLoop atTx h held = frontierRows atTx (drainHeap h) held"
proof (induction "cur_size h" arbitrary: h held rule: less_induct)
  case less
  show ?case
  proof (cases "h = []")
    case False
    then show ?thesis
      using less.hyps [OF cur_size_advance [OF False]]
      by (subst frontierLoop.simps, subst drainHeap.simps) (simp split: prod.split)
  qed (simp add: frontierLoop.simps drainHeap.simps)
qed

lemma advance_stepped: "stepped h (advance h)"
  by (simp add: stepped_def advance_def split: option.split)

lemma drainHeap_mset: "mset (drainHeap h) = (\<Sum>c \<in># mset h. mset (all_rows c))"
proof (induction "cur_size h" arbitrary: h rule: less_induct)
  case less
  show ?case
  proof (cases h)
    case (Cons c cs)
    then have ne: "h \<noteq> []" by simp
    have d: "drainHeap h = (c_key c, c_val c) # drainHeap (advance h)" using Cons by (subst drainHeap.simps) simp
    have "mset (all_rows c) = add_mset (c_key c, c_val c) (case cur_next c of None \<Rightarrow> {#} | Some c' \<Rightarrow> mset (all_rows c'))"
      by (auto simp: all_rows_def cur_next_def split: list.split)
    moreover have "mset (advance h) = mset cs + (case cur_next c of None \<Rightarrow> {#} | Some c' \<Rightarrow> {# c' #})"
      using mset_dropRoot [OF ne] by (auto simp: advance_def Cons split: option.split)
    ultimately show ?thesis
      using less.hyps [OF cur_size_advance [OF ne]] by (auto simp: d [unfolded Cons] Cons split: option.split)
  qed (simp add: drainHeap.simps)
qed

lemma drainHeap_set: "set (drainHeap h) = (\<Union>c \<in> set h. set (all_rows c))"
proof -
  have "set_mset (mset (drainHeap h)) = set_mset (\<Sum>c \<in># mset h. mset (all_rows c))" by (simp only: drainHeap_mset)
  then show ?thesis by simp
qed

lemma drainHeap_sorted:
  assumes "cursors_ok h"
  shows "sorted (map fst (drainHeap h))"
  using assms
proof (induction "cur_size h" arbitrary: h rule: less_induct)
  case less
  show ?case
  proof (cases "h = []")
    case False
    define c where "c = h ! 0"
    have d: "drainHeap h = (c_key c, c_val c) # drainHeap (advance h)" using False by (subst drainHeap.simps) (simp add: c_def)
    have "c_key c \<le> fst x" if x: "x \<in> set (drainHeap (advance h))" for x
    proof -
      have "x \<in> set (drainHeap h)" using x d by simp
      then obtain e where "e \<in> set h" "(fst x, snd x) \<in> set (all_rows e)" by (auto simp: drainHeap_set)
      from root_key(1) [OF less.prems False this] show ?thesis by (simp add: c_def)
    qed
    then show ?thesis
      using less.hyps [OF cur_size_advance [OF False] stepped_ok [OF less.prems False advance_stepped]] d by simp
  qed (simp add: drainHeap.simps)
qed

subsection \<open>The frontier is the newest value of every key\<close>

abbreviation pfx :: "bytes \<Rightarrow> bytes" where
  "pfx k \<equiv> take (length k - 8) k"

text \<open>State rows in key order, none of whose prefixes extends another one.\<close>

definition lone :: "bytes \<Rightarrow> bytes \<Rightarrow> bool" where
  "lone k k' = (HasPrefix k' (pfx k) \<longrightarrow> length k' = length k)"

definition state_rows :: "row list \<Rightarrow> bool" where
  "state_rows rows = (sorted_wrt (<) (map fst rows) \<and> (\<forall>x \<in> set rows. isStateRow (fst x)) \<and>
     (\<forall>x \<in> set rows. \<forall>y \<in> set rows. lone (fst x) (fst y)))"

definition held_hist :: "FrontierRow option \<Rightarrow> bytes \<Rightarrow> history" where
  "held_hist held p = (case held of None \<Rightarrow> [] | Some r \<Rightarrow> if fr_Key r = p then [(fr_TxNum r, fr_Val r)] else [])"

text \<open>The held row precedes the rows to come, and its prefix is unrelated to theirs or equal.\<close>

definition held_ok :: "u64 \<Rightarrow> FrontierRow option \<Rightarrow> row list \<Rightarrow> bool" where
  "held_ok atTx held rows = (\<forall>r. held = Some r \<longrightarrow> fr_TxNum r \<le> atTx \<and>
     (\<forall>x \<in> set rows. Suffixed (fr_Key r) (fr_TxNum r) < fst x \<and> (HasPrefix (fst x) (fr_Key r) \<longrightarrow> pfx (fst x) = fr_Key r) \<and>
        (HasPrefix (fr_Key r) (pfx (fst x)) \<longrightarrow> pfx (fst x) = fr_Key r)))"

lemma under_pfx: "isStateRow k \<Longrightarrow> under p k \<longleftrightarrow> p = pfx k"
  by (auto simp: under_def isStateRow_def)

lemma row_hist_Cons: "isStateRow k \<Longrightarrow> row_hist ((k, v) # rows) p = (if p = pfx k then [(TxNumOf k, v)] else []) @ row_hist rows p"
  by (simp add: row_hist_def under_pfx)

lemma held_ok_later:
  assumes "held_ok atTx (Some r) rows" and "x \<in> set rows" and "y \<in> set rows" and "fst x \<le> fst y" and "pfx (fst y) = fr_Key r"
    and "isStateRow (fst x)" and "isStateRow (fst y)"
  shows "pfx (fst x) = fr_Key r"
proof -
  have "Suffixed (fr_Key r) (fr_TxNum r) < fst x" using assms(1,2) by (simp add: held_ok_def)
  then have l: "fr_Key r @ be64 (fr_TxNum r) \<le> fst x" by (simp add: Suffixed_def)
  have "fst y = fr_Key r @ drop (length (fst y) - 8) (fst y)" using assms(5) append_take_drop_id [of "length (fst y) - 8" "fst y"] by simp
  then have "\<exists>c. fst x = fr_Key r @ c" using lex_between_prefix [OF l] assms(4) by metis
  then show ?thesis using assms(1,2) by (auto simp: held_ok_def)
qed

lemma newest_at_skip: "\<not> n \<le> at \<Longrightarrow> newest_at (h @ (n, v) # t) at = newest_at (h @ t) at"
  by (simp add: newest_at_alt)

lemma newest_at_replace: "n \<le> at \<Longrightarrow> newest_at (h @ (n, v) # t) at = newest_at ((n, v) # t) at"
  by (simp add: newest_at_alt Let_def)

lemma pfx_same_length:
  assumes "length a = length b"
  shows "HasPrefix a (pfx b) \<Longrightarrow> pfx a = pfx b" and "HasPrefix (pfx a) (pfx b) \<Longrightarrow> pfx a = pfx b"
proof -
  have l: "length (pfx b) = length a - 8" using assms by simp
  show "pfx a = pfx b" if "HasPrefix a (pfx b)" using that unfolding HasPrefix_def l .
  show "pfx a = pfx b" if "HasPrefix (pfx a) (pfx b)" using that unfolding HasPrefix_def l by simp
qed

lemma holdRow_next:
  assumes st: "state_rows ((k, v) # rows)" and h: "held_ok atTx held ((k, v) # rows)" and e: "holdRow atTx k v held = (out, held')"
  shows "held_ok atTx held' rows"
  unfolding held_ok_def
proof (intro allI impI)
  fix r assume r: "held' = Some r"
  have sk: "isStateRow k" using st by (simp add: state_rows_def)
  consider "r = \<lparr>fr_Key = pfx k, fr_TxNum = TxNumOf k, fr_Val = v\<rparr>" "TxNumOf k \<le> atTx" | "held = Some r"
    using e r sk by (auto simp: holdRow_def Let_def split: option.splits if_splits)
  then show "fr_TxNum r \<le> atTx \<and> (\<forall>x \<in> set rows. Suffixed (fr_Key r) (fr_TxNum r) < fst x \<and> (HasPrefix (fst x) (fr_Key r) \<longrightarrow> pfx (fst x) = fr_Key r) \<and>
        (HasPrefix (fr_Key r) (pfx (fst x)) \<longrightarrow> pfx (fst x) = fr_Key r))"
  proof cases
    case 1
    have u: "Suffixed (pfx k) (TxNumOf k) = k" using underE [of "pfx k" k] under_pfx [OF sk] by simp
    show ?thesis
    proof (intro conjI ballI)
      fix x assume x: "x \<in> set rows"
      have "k < fst x" using st x by (simp add: state_rows_def)
      then show "Suffixed (fr_Key r) (fr_TxNum r) < fst x" using 1 u by simp
      have m: "\<And>a b. a \<in> set ((k, v) # rows) \<Longrightarrow> b \<in> set ((k, v) # rows) \<Longrightarrow> HasPrefix (fst b) (pfx (fst a)) \<Longrightarrow> length (fst b) = length (fst a)"
        using st unfolding state_rows_def lone_def by blast
      have kx: "(k, v) \<in> set ((k, v) # rows)" "x \<in> set ((k, v) # rows)" using x by simp_all
      note lx = m [OF kx, unfolded fst_conv] m [OF kx(2) kx(1), unfolded fst_conv]
      show "HasPrefix (fst x) (fr_Key r) \<longrightarrow> pfx (fst x) = fr_Key r"
      proof
        assume a: "HasPrefix (fst x) (fr_Key r)"
        then have p: "HasPrefix (fst x) (pfx k)" using 1 by simp
        have l: "length (fst x) = length k" by (rule lx(1) [OF p])
        show "pfx (fst x) = fr_Key r" using pfx_same_length(1) [OF l p] 1(1) by simp
      qed
      show "HasPrefix (fr_Key r) (pfx (fst x)) \<longrightarrow> pfx (fst x) = fr_Key r"
      proof
        assume a: "HasPrefix (fr_Key r) (pfx (fst x))"
        then obtain t where "pfx k = pfx (fst x) @ t" using 1 by (auto simp: HasPrefix_iff)
        then have "k = pfx (fst x) @ t @ drop (length k - 8) k" using append_take_drop_id [of "length k - 8" k] by (metis append.assoc)
        then have "HasPrefix k (pfx (fst x))" by (metis HasPrefix_append)
        then have l: "length k = length (fst x)" by (rule lx(2))
        have "HasPrefix (pfx k) (pfx (fst x))" using a 1 by simp
        then show "pfx (fst x) = fr_Key r" using pfx_same_length(2) [OF l] 1(1) by simp
      qed
    qed (use 1 in simp)
  next
    case 2
    then show ?thesis using h by (auto simp: held_ok_def)
  qed
qed

lemma FrontierRow_eq [simp]: "\<lparr>fr_Key = p, fr_TxNum = n, fr_Val = v\<rparr> = r \<longleftrightarrow> fr_Key r = p \<and> fr_TxNum r = n \<and> fr_Val r = v"
  by (cases r) auto

lemma state_rows_tl: "state_rows (x # rows) \<Longrightarrow> state_rows rows"
  by (simp add: state_rows_def)

lemma frontierRows_mem:
  assumes "state_rows rows" and "held_ok atTx held rows"
  shows "\<lparr>fr_Key = p, fr_TxNum = n, fr_Val = v\<rparr> \<in> set (frontierRows atTx rows held) \<longleftrightarrow>
    newest_at (held_hist held p @ row_hist rows p) atTx = Some (v, n)"
  using assms
proof (induction rows arbitrary: held)
  case Nil
  then show ?case
    by (cases held) (auto simp: held_hist_def row_hist_def newest_at_alt held_ok_def)
next
  case (Cons x rows)
  obtain k u where x: "x = (k, u)" by fastforce
  have sk: "isStateRow k" using Cons.prems(1) by (simp add: state_rows_def x)
  obtain out held' where e: "holdRow atTx k u held = (out, held')" by fastforce
  note IH = Cons.IH [OF state_rows_tl [OF Cons.prems(1)] holdRow_next [OF Cons.prems(1,2) [unfolded x] e]]
  have R: "frontierRows atTx (x # rows) held = out @ frontierRows atTx rows held'" by (simp add: x e)
  let ?row = "\<lparr>fr_Key = p, fr_TxNum = n, fr_Val = v\<rparr>"
  show ?case
  proof (cases "\<exists>r. held = Some r \<and> fr_Key r \<noteq> pfx k")
    case True
    then obtain r where r: "held = Some r" "fr_Key r \<noteq> pfx k" by blast
    have o: "out = [r]" "held' = (if TxNumOf k \<le> atTx then Some \<lparr>fr_Key = pfx k, fr_TxNum = TxNumOf k, fr_Val = u\<rparr> else None)"
      using e r sk by (auto simp: holdRow_def Let_def)
    have rn: "fr_TxNum r \<le> atTx" using Cons.prems(2) r(1) by (simp add: held_ok_def)
    have gone: "row_hist (x # rows) (fr_Key r) = []"
    proof -
      have "\<not> under (fr_Key r) (fst y)" if y: "y \<in> set (x # rows)" for y
      proof
        assume un: "under (fr_Key r) (fst y)"
        have "\<forall>y \<in> set (x # rows). isStateRow (fst y)" "\<forall>y \<in> set rows. fst x < fst y" using Cons.prems(1) by (simp_all add: state_rows_def)
        then have sy: "isStateRow (fst y)" and "fst x \<le> fst y" using y by auto
        then have "pfx (fst x) = fr_Key r"
          using held_ok_later [OF Cons.prems(2) [unfolded r(1)], of x y] y un under_pfx [OF sy] sk sy x by auto
        then show False using r(2) x by simp
      qed
      then have "filter (\<lambda>(k, v). under (fr_Key r) k) (x # rows) = []" unfolding filter_empty_conv case_prod_unfold by blast
      then show ?thesis by (simp only: row_hist_def list.map)
    qed
    show ?thesis
    proof (cases "p = fr_Key r")
      case True
      have "newest_at (held_hist held p @ row_hist (x # rows) p) atTx = Some (fr_Val r, fr_TxNum r)"
        using gone True r(1) rn by (simp add: held_hist_def newest_at_alt)
      moreover have "newest_at (held_hist held' p @ row_hist rows p) atTx = None"
        using gone True r(2) o(2) sk by (auto simp: held_hist_def x row_hist_Cons)
      ultimately show ?thesis using IH True by (auto simp: R o(1))
    next
      case False
      then have "newest_at (held_hist held p @ row_hist (x # rows) p) atTx = newest_at (held_hist held' p @ row_hist rows p) atTx"
        using r(1) o(2) newest_at_skip [of "TxNumOf k" atTx "[]" u "row_hist rows p"] by (auto simp: held_hist_def x row_hist_Cons [OF sk])
      then show ?thesis using IH False by (auto simp: R o(1))
    qed
  next
    case False
    have o: "out = []" "held' = (if TxNumOf k \<le> atTx then Some \<lparr>fr_Key = pfx k, fr_TxNum = TxNumOf k, fr_Val = u\<rparr> else held)"
      using e False sk by (auto simp: holdRow_def Let_def split: option.splits)
    have "newest_at (held_hist held p @ row_hist (x # rows) p) atTx = newest_at (held_hist held' p @ row_hist rows p) atTx"
    proof (cases "p = pfx k")
      case True
      then show ?thesis
        using newest_at_skip [of "TxNumOf k" atTx "held_hist held p" u "row_hist rows p"]
          newest_at_replace [of "TxNumOf k" atTx "held_hist held p" u "row_hist rows p"]
        by (simp add: x row_hist_Cons [OF sk] o(2)) (simp add: held_hist_def)
    next
      case np: False
      then have "held_hist held' p = held_hist held p" using False o(2) by (auto simp: held_hist_def split: option.splits)
      then show ?thesis using np by (simp add: x row_hist_Cons [OF sk])
    qed
    then show ?thesis using IH by (simp add: R o(1))
  qed
qed

lemma lex_unrelated:
  "p @ s < q @ t \<Longrightarrow> \<not> HasPrefix (q @ t) p \<Longrightarrow> \<not> HasPrefix p q \<Longrightarrow> p < (q :: bytes)"
proof (induction p arbitrary: q)
  case Nil
  then show ?case by (simp add: HasPrefix_def)
next
  case (Cons a p)
  then obtain b q' where q: "q = b # q'" by (cases q) (auto simp: HasPrefix_def)
  show ?case using Cons.prems Cons.IH [of q'] by (auto simp: q HasPrefix_def split: if_splits)
qed

lemma frontierRows_keys:
  assumes "state_rows rows" and "held_ok atTx held rows" and "r \<in> set (frontierRows atTx rows held)"
  shows "(\<exists>r0. held = Some r0 \<and> fr_Key r0 = fr_Key r) \<or> (\<exists>y \<in> set rows. fr_Key r = pfx (fst y))"
proof -
  have "newest_at (held_hist held (fr_Key r) @ row_hist rows (fr_Key r)) atTx = Some (fr_Val r, fr_TxNum r)"
    using frontierRows_mem [OF assms(1,2), of "fr_Key r" "fr_TxNum r" "fr_Val r"] assms(3) by (cases r) simp
  then have ne: "held_hist held (fr_Key r) \<noteq> [] \<or> row_hist rows (fr_Key r) \<noteq> []" by auto
  have st: "\<forall>y \<in> set rows. isStateRow (fst y)" using assms(1) by (simp add: state_rows_def)
  show ?thesis
  proof (cases "row_hist rows (fr_Key r) = []")
    case True
    then show ?thesis using ne by (auto simp: held_hist_def split: option.splits if_splits)
  next
    case False
    then obtain y where "y \<in> set rows" "under (fr_Key r) (fst y)" by (auto simp: row_hist_def filter_empty_conv)
    then show ?thesis using st under_pfx by blast
  qed
qed

lemma frontierRows_sorted:
  assumes "state_rows rows" and "held_ok atTx held rows"
  shows "sorted_wrt (<) (map fr_Key (frontierRows atTx rows held))"
  using assms
proof (induction rows arbitrary: held)
  case Nil
  then show ?case by (simp split: option.split)
next
  case (Cons x rows)
  obtain k u where x: "x = (k, u)" by fastforce
  have sk: "isStateRow k" using Cons.prems(1) by (simp add: state_rows_def x)
  obtain out held' where e: "holdRow atTx k u held = (out, held')" by fastforce
  note ok = state_rows_tl [OF Cons.prems(1)] holdRow_next [OF Cons.prems(1,2) [unfolded x] e]
  have R: "frontierRows atTx (x # rows) held = out @ frontierRows atTx rows held'" by (simp add: x e)
  show ?case
  proof (cases "\<exists>r. held = Some r \<and> fr_Key r \<noteq> pfx k")
    case True
    then obtain r where r: "held = Some r" "fr_Key r \<noteq> pfx k" by blast
    have o: "out = [r]" "held' = (if TxNumOf k \<le> atTx then Some \<lparr>fr_Key = pfx k, fr_TxNum = TxNumOf k, fr_Val = u\<rparr> else None)"
      using e r sk by (auto simp: holdRow_def Let_def)
    have st: "\<forall>y \<in> set (x # rows). isStateRow (fst y)" "\<forall>y \<in> set rows. fst x < fst y" using Cons.prems(1) by (simp_all add: state_rows_def)
    have "fr_Key r < pfx (fst y)" if y: "y \<in> set (x # rows)" for y
    proof -
      have h: "Suffixed (fr_Key r) (fr_TxNum r) < fst y" "HasPrefix (fst y) (fr_Key r) \<Longrightarrow> pfx (fst y) = fr_Key r"
        "HasPrefix (fr_Key r) (pfx (fst y)) \<Longrightarrow> pfx (fst y) = fr_Key r" using Cons.prems(2) y unfolding held_ok_def r(1) by blast+
      have "fst x \<le> fst y" using y st(2) by auto
      then have ne: "pfx (fst y) \<noteq> fr_Key r"
        using held_ok_later [OF Cons.prems(2) [unfolded r(1)], of x y] y st(1) r(2) by (auto simp: x)
      have "fr_Key r @ be64 (fr_TxNum r) < pfx (fst y) @ drop (length (fst y) - 8) (fst y)" using h(1) by (simp add: Suffixed_def)
      then show ?thesis by (rule lex_unrelated) (use h(2,3) ne in auto)
    qed
    then have gt: "\<forall>y \<in> set (x # rows). fr_Key r < pfx (fst y)" by blast
    have "fr_Key r < fr_Key r'" if "r' \<in> set (frontierRows atTx rows held')" for r'
      using frontierRows_keys [OF ok that]
    proof
      assume "\<exists>r0. held' = Some r0 \<and> fr_Key r0 = fr_Key r'"
      then have "fr_Key r' = pfx k" by (auto simp: o(2) split: if_splits)
      then show ?thesis using gt by (simp add: x)
    qed (use gt in auto)
    then show ?thesis using Cons.IH [OF ok] by (simp add: R o(1))
  next
    case False
    then have "out = []" using e sk by (auto simp: holdRow_def Let_def split: option.splits)
    then show ?thesis using Cons.IH [OF ok] by (simp add: R)
  qed
qed

lemma frontierRows_filter: "frontierRows atTx rows held = frontierRows atTx (filter (\<lambda>x. isStateRow (fst x)) rows) held"
proof (induction rows arbitrary: held)
  case (Cons x rows)
  then show ?case by (cases x) (auto simp: holdRow_def split: prod.splits)
qed simp

definition state_in_range :: "Run \<Rightarrow> bool" where
  "state_in_range r = (\<forall>x \<in> set (sec_rows 1 r). isStateRow (fst x) \<longrightarrow>
     FromTx (r_footer r) \<le> TxNumOf (fst x) \<and> TxNumOf (fst x) < ToTx (r_footer r))"

definition frontier_ok :: "Run list \<Rightarrow> bool" where
  "frontier_ok runs = (ascending runs \<and> (\<forall>r \<in> set runs. section_rows_ok (sec_rows 1 r) \<and> state_in_range r) \<and>
     (\<forall>r \<in> set runs. \<forall>r' \<in> set runs. \<forall>x \<in> set (sec_rows 1 r). \<forall>y \<in> set (sec_rows 1 r').
        isStateRow (fst x) \<longrightarrow> isStateRow (fst y) \<longrightarrow> lone (fst x) (fst y)))"

lemma HasPrefix_Suffixed: "HasPrefix p q \<Longrightarrow> HasPrefix (Suffixed p n) q"
  by (auto simp: HasPrefix_iff Suffixed_def)

lemma isStateRow_Suffixed: "HasPrefix p PrefixState \<Longrightarrow> isStateRow (Suffixed p n)"
proof -
  assume p: "HasPrefix p PrefixState"
  then obtain t where "p = PrefixState @ t" by (auto simp: HasPrefix_iff)
  then show ?thesis using HasPrefix_Suffixed [OF p, of n] by (simp add: isStateRow_def)
qed

lemma state_in_range_hist:
  assumes "state_in_range r" and "HasPrefix p PrefixState"
  shows "in_range p r"
  unfolding in_range_def
proof
  fix e assume "e \<in> set (run_hist p r)"
  then obtain x where x: "x \<in> set (sec_rows 1 r)" "under p (fst x)" "fst e = TxNumOf (fst x)" by (auto simp: row_hist_def)
  then have "isStateRow (fst x)" using isStateRow_Suffixed [OF assms(2)] underE [OF x(2)] by metis
  then show "FromTx (r_footer r) \<le> fst e \<and> fst e < ToTx (r_footer r)" using assms(1) x(1,3) by (simp add: state_in_range_def)
qed

lemma newest_concat_skip:
  assumes "\<forall>r \<in> set rs. FromTx (r_footer r) > at \<longrightarrow> (\<forall>e \<in> set (run_hist p r). at < fst e)"
  shows "newest_at (concat (map (\<lambda>r. if FromTx (r_footer r) > at then [] else run_hist p r) rs)) at = newest_at (concat (map (run_hist p) rs)) at"
  using assms
proof (induction rs rule: rev_induct)
  case (snoc r rs)
  then show ?case using newest_at_above [of "run_hist p r" at] by (auto simp: newest_at_append split: option.split)
qed simp

lemma state_keys_distinct:
  assumes "frontier_ok runs"
  shows "distinct (map fst (filter (\<lambda>x. isStateRow (fst x)) (concat (map (sec_rows 1) runs))))"
  using assms
proof (induction runs)
  case (Cons r runs)
  let ?st = "\<lambda>x :: row. isStateRow (fst x)"
  have IH: "distinct (map fst (filter ?st (concat (map (sec_rows 1) runs))))" using Cons by (simp add: frontier_ok_def ascending_def)
  have d: "distinct (map fst (filter ?st (sec_rows 1 r)))"
    using Cons.prems by (simp add: frontier_ok_def section_rows_ok_def strict_sorted_iff distinct_map_filter)
  have dis: False if x: "x \<in> set (sec_rows 1 r)" "?st x" and r': "r' \<in> set runs" and y: "y \<in> set (sec_rows 1 r')" "fst y = fst x" for x y r'
  proof -
    have "state_in_range r" "state_in_range r'" "ToTx (r_footer r) \<le> FromTx (r_footer r')"
      using Cons.prems r' by (simp_all add: frontier_ok_def ascending_def)
    then have "TxNumOf (fst x) < ToTx (r_footer r)" "FromTx (r_footer r') \<le> TxNumOf (fst x)" "ToTx (r_footer r) \<le> FromTx (r_footer r')"
      using x y unfolding state_in_range_def by (auto dest!: bspec)
    then show False by simp
  qed
  show ?case using IH d dis by (fastforce simp: distinct_append)
qed simp

text \<open>The rows the frontier walk drains: those of the runs that start at or below the bound.\<close>

definition frontier_runs :: "u64 \<Rightarrow> Run list \<Rightarrow> Run list" where
  "frontier_runs atTx runs = filter (\<lambda>r. FromTx (r_footer r) \<le> atTx) runs"

abbreviation frontier_heap :: "u64 \<Rightarrow> Run list \<Rightarrow> cursor list" where
  "frontier_heap atTx runs \<equiv>
     heap_Init cursorLess (openCursors (map (\<lambda>r. if FromTx (r_footer r) > atTx then [] else sec_rows 1 r) runs))"

lemma frontier_ok_filter: "frontier_ok runs \<Longrightarrow> frontier_ok (frontier_runs atTx runs)"
  unfolding frontier_ok_def frontier_runs_def ascending_def set_filter mem_Collect_eq Ball_def by (blast intro: sorted_wrt_filter)

lemma openCursors_mset:
  assumes "\<forall>rows \<in> set ins. section_rows_ok rows"
  shows "(\<Sum>c \<in># mset (openCursors ins). mset (all_rows c)) = mset (concat ins)"
proof -
  have "(\<Sum>c \<in># mset (List.map_filter (\<lambda>(i, rows). cur_first i rows) (enumerate n ins)). mset (all_rows c)) = mset (concat ins)" for n
    using assms
  proof (induction ins arbitrary: n)
    case (Cons rows ins)
    then have IH: "(\<Sum>c \<in># mset (List.map_filter (\<lambda>(i, rows). cur_first i rows) (enumerate (Suc n) ins)). mset (all_rows c)) = mset (concat ins)" by simp
    show ?case
    proof (cases "cur_first n rows")
      case None
      then show ?thesis using Cons.prems cur_first_None [of rows n] IH by (simp add: List.map_filter_simps)
    next
      case (Some c)
      then show ?thesis using cur_first_rows [OF Some] IH by (simp add: List.map_filter_simps)
    qed
  qed (simp add: List.map_filter_simps)
  then show ?thesis by (simp add: openCursors_def)
qed

lemma drained_mset:
  assumes "frontier_ok runs"
  shows "mset (drainHeap (frontier_heap atTx runs)) = mset (concat (map (sec_rows 1) (frontier_runs atTx runs)))"
proof -
  let ?ins = "map (\<lambda>r. if FromTx (r_footer r) > atTx then [] else sec_rows 1 r) runs"
  have "\<forall>rows \<in> set ?ins. section_rows_ok rows" using assms by (auto simp: frontier_ok_def section_rows_ok_def)
  then have "mset (drainHeap (frontier_heap atTx runs)) = mset (concat ?ins)" by (simp add: drainHeap_mset openCursors_mset)
  also have "concat ?ins = concat (map (sec_rows 1) (frontier_runs atTx runs))"
    unfolding frontier_runs_def by (induction runs) (simp_all add: not_le)
  finally show ?thesis .
qed

lemma drained_state_rows:
  assumes ok: "frontier_ok runs"
  shows "state_rows (filter (\<lambda>x. isStateRow (fst x)) (drainHeap (frontier_heap atTx runs)))"
proof -
  let ?st = "\<lambda>x :: row. isStateRow (fst x)" and ?D = "drainHeap (frontier_heap atTx runs)"
  let ?C = "concat (map (sec_rows 1) (frontier_runs atTx runs))"
  have m: "mset (map fst (filter ?st ?D)) = mset (map fst (filter ?st ?C))" by (simp only: mset_map mset_filter drained_mset [OF ok])
  have d: "distinct (map fst (filter ?st ?D))"
    using mset_eq_imp_distinct_iff [OF m] state_keys_distinct [OF frontier_ok_filter [OF ok]] by blast
  have "sorted (map fst ?D)"
    by (intro drainHeap_sorted opened_heap_ok) (use ok in \<open>auto simp: frontier_ok_def section_rows_ok_def\<close>)
  then have s: "sorted (map fst (filter ?st ?D))" by (simp add: sorted_wrt_map sorted_wrt_filter)
  have D: "set ?D = set ?C" by (rule mset_eq_setD [OF drained_mset [OF ok]])
  have "lone (fst x) (fst y)" if x: "x \<in> set ?C" "?st x" and y: "y \<in> set ?C" "?st y" for x y
  proof -
    obtain r r' where r: "r \<in> set (frontier_runs atTx runs)" "x \<in> set (sec_rows 1 r)" "r' \<in> set (frontier_runs atTx runs)" "y \<in> set (sec_rows 1 r')"
      using x(1) y(1) by auto
    show ?thesis using frontier_ok_filter [OF ok] r x(2) y(2) unfolding frontier_ok_def by blast
  qed
  then show ?thesis using s d by (simp only: state_rows_def strict_sorted_iff set_filter D) blast
qed

lemma drained_hist:
  assumes ok: "frontier_ok runs" and p: "HasPrefix p PrefixState"
  shows "row_hist (filter (\<lambda>x. isStateRow (fst x)) (drainHeap (frontier_heap atTx runs))) p = concat (map (run_hist p) (frontier_runs atTx runs))"
proof (rule sorted_rows_unique)
  let ?F = "frontier_runs atTx runs"
  note okF = frontier_ok_filter [OF ok, of atTx]
  have rng: "\<forall>r \<in> set ?F. in_range p r \<and> sorted_wrt (<) (map fst (sec_rows 1 r))"
    using okF state_in_range_hist [OF _ p] by (auto simp: frontier_ok_def section_rows_ok_def)
  show "sorted_wrt (<) (map fst (concat (map (run_hist p) ?F)))"
    using concat_hist_sorted [OF _ rng] okF by (simp add: frontier_ok_def)
  show "sorted_wrt (<) (map fst (row_hist (filter (\<lambda>x. isStateRow (fst x)) (drainHeap (frontier_heap atTx runs))) p))"
    using row_hist_sorted drained_state_rows [OF ok] unfolding state_rows_def by blast
  have D: "set (drainHeap (frontier_heap atTx runs)) = set (concat (map (sec_rows 1) ?F))" by (rule mset_eq_setD [OF drained_mset [OF ok]])
  have "isStateRow k" if "under p k" for k using isStateRow_Suffixed [OF p] underE [OF that] by metis
  then show "set (row_hist (filter (\<lambda>x. isStateRow (fst x)) (drainHeap (frontier_heap atTx runs))) p) = set (concat (map (run_hist p) ?F))"
    by (fastforce simp: row_hist_def D)
qed

lemma frontier_newest:
  assumes ok: "frontier_ok runs"
  shows "sorted_wrt (<) (map fr_Key (MergeFrontier runs atTx))"
    and "HasPrefix p PrefixState \<Longrightarrow> \<lparr>fr_Key = p, fr_TxNum = n, fr_Val = v\<rparr> \<in> set (MergeFrontier runs atTx) \<longleftrightarrow>
      newest_at (concat (map (run_hist p) runs)) atTx = Some (v, n)"
proof -
  let ?S = "filter (\<lambda>x. isStateRow (fst x)) (drainHeap (frontier_heap atTx runs))"
  have F: "MergeFrontier runs atTx = frontierRows atTx ?S None"
    unfolding MergeFrontier_def frontierLoop_rows by (rule frontierRows_filter)
  have h: "held_ok atTx None ?S" by (simp add: held_ok_def)
  show "sorted_wrt (<) (map fr_Key (MergeFrontier runs atTx))"
    unfolding F by (rule frontierRows_sorted [OF drained_state_rows [OF ok] h])
  assume p: "HasPrefix p PrefixState"
  have "newest_at (concat (map (run_hist p) (frontier_runs atTx runs))) atTx = newest_at (concat (map (run_hist p) runs)) atTx"
  proof -
    have "concat (map (run_hist p) (frontier_runs atTx runs)) = concat (map (\<lambda>r. if FromTx (r_footer r) > atTx then [] else run_hist p r) runs)"
      unfolding frontier_runs_def by (induction runs) auto
    moreover have "\<forall>r \<in> set runs. FromTx (r_footer r) > atTx \<longrightarrow> (\<forall>e \<in> set (run_hist p r). atTx < fst e)"
      using ok state_in_range_hist [OF _ p] by (fastforce simp: frontier_ok_def in_range_def)
    ultimately show ?thesis by (simp only: newest_concat_skip)
  qed
  then show "\<lparr>fr_Key = p, fr_TxNum = n, fr_Val = v\<rparr> \<in> set (MergeFrontier runs atTx) \<longleftrightarrow>
      newest_at (concat (map (run_hist p) runs)) atTx = Some (v, n)"
    using frontierRows_mem [OF drained_state_rows [OF ok] h, of p n v] drained_hist [OF ok p, of atTx]
    by (simp only: F) (simp add: held_hist_def)
qed

section \<open>Reads after a merge\<close>

definition reads_like :: "sst_lib \<Rightarrow> Run \<Rightarrow> Run list \<Rightarrow> bool" where
  "reads_like T r inputs = ((\<forall>s < numSections. \<forall>k. Get T r s k = layered (map (\<lambda>i. Get T i s) inputs) k) \<and>
     (\<forall>p at. at \<noteq> -1 \<longrightarrow> (\<forall>i \<in> set inputs. in_range p i \<and> prefix_ok p (sec_rows 1 i)) \<longrightarrow>
        run_Latest T r 1 p at = newest_at (concat (map (run_hist p) inputs)) at))"

text \<open>Inputs as the database opens them: well formed for point reads, in ascending order.\<close>

definition merge_inputs :: "sst_lib \<Rightarrow> Run list \<Rightarrow> bool" where
  "merge_inputs T inputs = (inputs \<noteq> [] \<and> inputs_ok inputs \<and> ascending inputs \<and> (\<forall>r \<in> set inputs. \<forall>s < numSections. sec_ok T s r))"

lemma served_reads:
  assumes i: "merge_inputs T inputs" and n: "length outs = numSections"
    and o: "\<forall>s < numSections. section_rows_ok (outs ! s) \<and> map_of (outs ! s) = layered (map (\<lambda>r. map_of (sec_rows s r)) inputs)"
    and r: "run_serves T outs name f r"
  shows "reads_like T r inputs"
  unfolding reads_like_def
proof (intro conjI allI impI)
  have ok: "sec_ok T s r" "sec_rows s r = outs ! s" if "s < numSections" for s
    using run_serves_sec_ok [OF r that n] o that by (auto simp: section_rows_ok_def)
  show "Get T r s k = layered (map (\<lambda>i. Get T i s) inputs) k" if "s < numSections" for s k
  proof -
    have e: "map (\<lambda>i. Get T i s) inputs = map (\<lambda>i. map_of (sec_rows s i)) inputs"
      using i that Get_map_of by (auto simp: merge_inputs_def fun_eq_iff)
    show ?thesis unfolding e using Get_map_of [OF ok(1)] ok(2) o that by simp
  qed
  fix p at assume at: "at \<noteq> (-1 :: u64)" and p: "\<forall>i \<in> set inputs. in_range p i \<and> prefix_ok p (sec_rows 1 i)"
  have one: "1 < numSections" by (simp add: numSections_def)
  note o1 = o [rule_format, OF one]
  have so: "\<forall>i \<in> set inputs. in_range p i \<and> sorted_wrt (<) (map fst (sec_rows 1 i))"
    using p i one by (auto simp: merge_inputs_def inputs_ok_def section_rows_ok_def simp del: One_nat_def)
  have h: "row_hist (outs ! 1) p = concat (map (run_hist p) inputs)"
    using i o1 by (intro merged_hist [OF _ so]) (auto simp: merge_inputs_def section_rows_ok_def simp del: One_nat_def)
  have "prefix_ok p (outs ! 1)"
    using p i o1 by (intro merged_prefix_ok [where rs = inputs and s = 1])
      (auto simp: merge_inputs_def section_rows_ok_def strict_sorted_iff simp del: One_nat_def)
  then show "run_Latest T r 1 p at = newest_at (concat (map (run_hist p) inputs)) at"
    using run_Latest_newest [OF ok(1) [OF one] _ at] ok(2) [OF one] h by (simp del: One_nat_def)
qed

lemma served_verified:
  assumes r: "run_serves T outs name f r" and n: "length outs = numSections" and s: "\<forall>s < numSections. sorted_wrt (<) (map fst (outs ! s))"
    and f: "FromTx f = rf_FromTx from" "ToTx f = rf_ToTx to" "FromHeight f = rf_FromHeight from" "ToHeight f = rf_ToHeight to"
  shows "verifyRun r (map (\<lambda>out. of_nat (length out)) outs) from to = None"
proof -
  have "ScanRange r k [] None = outs ! k" if "k < numSections" for k
    using ScanRange_filter [of k r "[]" None] sorted_rows_cong [OF r that n] s that by simp
  moreover have "r_footer r = f" using r by (simp add: run_serves_def)
  ultimately show ?thesis using f n by (auto simp: verifyRun_def Let_def)
qed

lemma merged_run:
  assumes L: "cas_laws L" and T: "sst_laws T" and st: "store_ok L st" and prev: "length prev = 32" and i: "merge_inputs T inputs"
  shows "\<exists>outs w. mergeInto T inputs [0..<numSections] (NewRunWriter prev level) = Inr (map (\<lambda>out. of_nat (length out)) outs, w) \<and>
    length outs = numSections \<and>
    (\<forall>s < numSections. section_rows_ok (outs ! s) \<and> map_of (outs ! s) = layered (map (\<lambda>r. map_of (sec_rows s r)) inputs)) \<and>
    (\<forall>name f st'. Finish L ftx ttx fh th w st = ((name, f), st') \<longrightarrow> length (w_out w) + footerSize < 2 ^ 34 \<longrightarrow>
      no_collision L (w_out w @ encodeFooter f) \<longrightarrow> map_of side name = None \<longrightarrow>
      FromTx f = ftx \<and> ToTx f = ttx \<and> FromHeight f = fh \<and> ToHeight f = th \<and> Prev f = prev \<and>
      (\<exists>r side'. OpenRun L T gap name st' side = Inr (r, side') \<and> run_serves T outs name f r))"
proof -
  have "inputs_ok inputs" using i by (simp add: merge_inputs_def)
  from mergeInto_writeRun [OF this, of T] obtain outs where o: "length outs = numSections"
    "\<forall>s < numSections. section_rows_ok (outs ! s) \<and> map_of (outs ! s) = layered (map (\<lambda>r. map_of (sec_rows s r)) inputs)"
    "\<And>w. mergeInto T inputs [0..<numSections] w = (case writeRun T outs w of Inl e \<Rightarrow> Inl e | Inr w \<Rightarrow> Inr (map (\<lambda>out. of_nat (length out)) outs, w))"
    by blast
  have "\<forall>rs \<in> set outs. sorted_wrt (<) (map fst rs)" using o(1,2) by (auto simp: in_set_conv_nth section_rows_ok_def)
  from sealed_run [OF L T st o(1) prev this, of level ftx ttx fh th "[]" side gap] obtain w where w: "writeRun T outs (NewRunWriter prev level) = Inr w"
    "\<forall>name f st'. Finish L ftx ttx fh th w st = ((name, f), st') \<longrightarrow> length (w_out w) + footerSize < 2 ^ 34 \<longrightarrow>
      no_collision L (w_out w @ encodeFooter f) \<longrightarrow> map_of side name = None \<longrightarrow>
      FromTx f = ftx \<and> ToTx f = ttx \<and> FromHeight f = fh \<and> ToHeight f = th \<and> Prev f = prev \<and>
      (\<exists>r side'. OpenRun L T gap name st' side = Inr (r, side') \<and> run_serves T outs name f r)"
    by (fastforce simp: Let_def)
  show ?thesis using o(1,2) o(3) [of "NewRunWriter prev level"] w by (intro exI [of _ outs] exI [of _ w]) simp
qed

text \<open>
  C4. Merging keeps every answer.  A merge of well-formed ascending runs never fails to write, and the run
  opened from the merged artifact passes the merge's own verification, answers every point read as the
  inputs layered newest last do, and answers every versioned state read with the newest entry of the
  concatenated histories of its inputs, for every prefix whose rows lie in the ranges of the inputs.
\<close>

theorem merge_preserves_reads:
  assumes "cas_laws L" and "sst_laws T" and "store_ok L st" and "length prev = 32" and "merge_inputs T inputs"
  shows "\<exists>counts w. mergeInto T inputs [0..<numSections] (NewRunWriter prev level) = Inr (counts, w) \<and>
    (\<forall>name f st'. Finish L (rf_FromTx from) (rf_ToTx to) (rf_FromHeight from) (rf_ToHeight to) w st = ((name, f), st') \<longrightarrow>
      length (w_out w) + footerSize < 2 ^ 34 \<longrightarrow> no_collision L (w_out w @ encodeFooter f) \<longrightarrow> map_of side name = None \<longrightarrow>
      (\<exists>r side'. OpenRun L T gap name st' side = Inr (r, side') \<and> verifyRun r counts from to = None \<and> reads_like T r inputs))"
proof -
  obtain outs w where o: "mergeInto T inputs [0..<numSections] (NewRunWriter prev level) = Inr (map (\<lambda>out. of_nat (length out)) outs, w)"
    "length outs = numSections" "\<forall>s < numSections. section_rows_ok (outs ! s) \<and> map_of (outs ! s) = layered (map (\<lambda>r. map_of (sec_rows s r)) inputs)"
    and f: "\<forall>name f st'. Finish L (rf_FromTx from) (rf_ToTx to) (rf_FromHeight from) (rf_ToHeight to) w st = ((name, f), st') \<longrightarrow>
      length (w_out w) + footerSize < 2 ^ 34 \<longrightarrow> no_collision L (w_out w @ encodeFooter f) \<longrightarrow> map_of side name = None \<longrightarrow>
      FromTx f = rf_FromTx from \<and> ToTx f = rf_ToTx to \<and> FromHeight f = rf_FromHeight from \<and> ToHeight f = rf_ToHeight to \<and> Prev f = prev \<and>
      (\<exists>r side'. OpenRun L T gap name st' side = Inr (r, side') \<and> run_serves T outs name f r)"
    using merged_run [OF assms, of level "rf_FromTx from" "rf_ToTx to" "rf_FromHeight from" "rf_ToHeight to" side gap] by blast
  have s: "\<forall>s < numSections. sorted_wrt (<) (map fst (outs ! s))" using o(3) by (simp add: section_rows_ok_def)
  show ?thesis
    using o(1) f served_reads [OF assms(5) o(2,3)] served_verified [OF _ o(2) s]
    by (intro exI [of _ "map (\<lambda>out. of_nat (length out)) outs"] exI [of _ w]) metis
qed

definition plain_run :: "u64 \<Rightarrow> u64 \<Rightarrow> row list list \<Rightarrow> Run" where
  "plain_run ftx ttx rows = \<lparr>Name = [], r_footer = \<lparr>Off = [], Len = [], FromTx = ftx, ToTx = ttx, FromHeight = 0, ToHeight = 0, Prev = [], Version = 0\<rparr>,
     r_sec = [], r_table = map (\<lambda>rs. \<lparr>t_rows = rs, t_handles = [], t_filter = None, t_dataSize = 0\<rparr>) rows, r_filter = [None, None, None]\<rparr>"

text \<open>The account prefix of the zero address, and its rows at the TxNums 3 and 12.\<close>

definition zero_account :: bytes where
  "zero_account = [115, 116, 97, 116, 101, 47] @ replicate 20 0 @ [47, 97, 47]"

definition sample_inputs :: "Run list" where
  "sample_inputs = [plain_run 1 9 [[([1], [4])], [(zero_account @ [0, 0, 0, 0, 0, 0, 0, 3], [5])], []],
     plain_run 9 20 [[([1], [6])], [(zero_account @ [0, 0, 0, 0, 0, 0, 0, 12], [7])], []]]"

definition sample_merged :: RunWriter where
  "sample_merged = (case mergeInto toy_sst sample_inputs [0..<numSections] (NewRunWriter (replicate 32 0) 2) of Inr (_, w) \<Rightarrow> w | Inl _ \<Rightarrow> NewRunWriter [] 0)"

definition merged_footer :: Footer where
  "merged_footer = (w_footer sample_merged)\<lparr>FromTx := 1, ToTx := 20, FromHeight := 0, ToHeight := 0\<rparr>"

definition merged_lib :: "files cas_lib" where
  "merged_lib = toy_lib (w_out sample_merged @ encodeFooter merged_footer)"

lemma sample_inputs_ok: "merge_inputs toy_sst sample_inputs"
  by (auto simp: merge_inputs_def inputs_ok_def section_rows_ok_def ascending_def sec_ok_def sample_inputs_def plain_run_def
      sec_rows_def MayHave_def mayContain_def numSections_def less_Suc_eq numeral_3_eq_3)

lemma zero_account_alt: "zero_account = AccountPrefix (replicate 20 0)"
  by (simp add: zero_account_def AccountPrefix_def PrefixState_def ascii_def of_char_def)

lemma sample_merged_out: "w_hash sample_merged = w_out sample_merged" "length (w_out sample_merged) + footerSize < 2 ^ 34"
  by code_simp+

lemma sample_inputs_hist:
  "map (run_hist zero_account) sample_inputs = [[(3, [5])], [(12, [7])]]"
  "\<forall>r \<in> set sample_inputs. in_range zero_account r"
  "\<forall>r \<in> set sample_inputs. \<forall>x \<in> set (sec_rows 1 r). FromTx (r_footer r) \<le> TxNumOf (fst x) \<and> TxNumOf (fst x) < ToTx (r_footer r)"
  by code_simp+

lemma sample_inputs_prefix: "\<forall>r \<in> set sample_inputs. prefix_ok zero_account (sec_rows 1 r)"
proof -
  have "bloom_prefix (Suffixed zero_account n) = zero_account" for n
    unfolding zero_account_alt using split_state(1) [of "replicate 20 0" n] by (simp add: bloom_prefix_def Suffixed_def)
  then show ?thesis
    by (auto simp: prefix_ok_def sample_inputs_def plain_run_def sec_rows_def zero_account_def HasPrefix_def)
qed

theorem merge_preserves_reads_witness:
  "\<exists>name st r side. Finish merged_lib 1 20 0 0 sample_merged (Local\<lparr>cas := Some []\<rparr>) = ((name, merged_footer), st) \<and>
    OpenRun merged_lib toy_sst 0 name st [] = Inr (r, side) \<and>
    Get toy_sst r 0 [1] = Some [6] \<and> run_Latest toy_sst r 1 zero_account 10 = Some ([5], 3)"
proof -
  let ?st = "Local\<lparr>cas := Some []\<rparr> :: files Store"
  define ref :: RunRef where "ref = \<lparr>rf_FromTx = 1, rf_ToTx = 20, rf_FromHeight = 0, rf_ToHeight = 0, rf_Name = [], rf_Level = 0\<rparr>"
  have L: "cas_laws merged_lib" unfolding merged_lib_def by (rule toy_laws)
  have n: "length (replicate 32 0 :: bytes) = 32" by simp
  obtain counts w where w: "mergeInto toy_sst sample_inputs [0..<numSections] (NewRunWriter (replicate 32 0) 2) = Inr (counts, w)"
    and t: "\<And>name f st'. Finish merged_lib 1 20 0 0 w ?st = ((name, f), st') \<Longrightarrow>
      length (w_out w) + footerSize < 2 ^ 34 \<Longrightarrow> no_collision merged_lib (w_out w @ encodeFooter f) \<Longrightarrow>
      \<exists>r side. OpenRun merged_lib toy_sst 0 name st' [] = Inr (r, side) \<and> reads_like toy_sst r sample_inputs"
    using merge_preserves_reads [OF L toy_sst_laws store_ok_Local n sample_inputs_ok, of 2 ref ref "Some []" "[]" 0]
    by (fastforce simp: ref_def)
  have sw: "sample_merged = w" unfolding sample_merged_def w by simp
  obtain name f st where fin: "Finish merged_lib 1 20 0 0 w ?st = ((name, f), st)" by (metis prod.exhaust)
  have f: "f = merged_footer" using Finish_stores(1) [OF sample_merged_out(1) [unfolded sw] fin] by (simp add: merged_footer_def sw)
  have "no_collision merged_lib (w_out w @ encodeFooter f)"
    by (simp add: no_collision_def merged_lib_def toy_lib_def toy_name_def f sw split: if_splits)
  from t [OF fin sample_merged_out(2) [unfolded sw] this] obtain r side where
    o: "OpenRun merged_lib toy_sst 0 name st [] = Inr (r, side)" and r: "reads_like toy_sst r sample_inputs" by blast
  have "Get toy_sst r 0 [1] = Some [6]"
  proof -
    have "Get toy_sst r 0 [1] = layered (map (\<lambda>i. Get toy_sst i 0) sample_inputs) [1]" using r by (simp add: reads_like_def numSections_def)
    also have "\<dots> = Some [6]"
      by (simp add: layered_def sample_inputs_def plain_run_def Get_def MayHave_def mayContain_def SeekGE_def map_add_def)
    finally show ?thesis .
  qed
  moreover have "run_Latest toy_sst r 1 zero_account 10 = Some ([5], 3)"
    using r sample_inputs_hist(2) sample_inputs_prefix
    unfolding reads_like_def by (simp add: sample_inputs_hist(1) newest_at_def del: One_nat_def)
  ultimately show ?thesis using fin o by (auto simp: f sw)
qed

text \<open>
  C5. The frontier of a set of runs lists every state key once, in key order, with its newest value at the
  bound.  For runs that follow one another and state keys none of whose prefixes extends another, a row is
  handed to the callback exactly when its value and TxNum are what a versioned read of the concatenated
  histories at that TxNum returns.
\<close>

theorem frontier_is_newest:
  assumes "frontier_ok runs"
  shows "sorted_wrt (<) (map fr_Key (MergeFrontier runs atTx)) \<and>
    (\<forall>p n v. HasPrefix p PrefixState \<longrightarrow> (\<lparr>fr_Key = p, fr_TxNum = n, fr_Val = v\<rparr> \<in> set (MergeFrontier runs atTx) \<longleftrightarrow>
      newest_at (concat (map (run_hist p) runs)) atTx = Some (v, n)))"
  using frontier_newest [OF assms] by blast

theorem frontier_is_newest_witness:
  "\<lparr>fr_Key = zero_account, fr_TxNum = 3, fr_Val = [5]\<rparr> \<in> set (MergeFrontier sample_inputs 10)"
proof -
  have k: "isStateRow (fst x) \<and> take 29 (fst x) = zero_account \<and> length (fst x) = 37" if "r \<in> set sample_inputs" "x \<in> set (sec_rows 1 r)" for r x
    using that by (auto simp: sample_inputs_def plain_run_def sec_rows_def zero_account_def isStateRow_def HasPrefix_def PrefixState_def ascii_def of_char_def)
  have "frontier_ok sample_inputs"
    unfolding frontier_ok_def
  proof (intro conjI ballI impI)
    show "ascending sample_inputs" using sample_inputs_ok by (simp add: merge_inputs_def)
    fix r assume r: "r \<in> set sample_inputs"
    show "section_rows_ok (sec_rows 1 r)" using sample_inputs_ok r by (simp add: merge_inputs_def inputs_ok_def numSections_def)
    show "state_in_range r" using r sample_inputs_hist(3) by (simp add: state_in_range_def del: One_nat_def)
    show "lone (fst x) (fst y)" if "r' \<in> set sample_inputs" "x \<in> set (sec_rows 1 r)" "y \<in> set (sec_rows 1 r')" for r' x y
      using k [OF r that(2)] k [OF that(1,3)] by (simp add: lone_def)
  qed
  moreover have "HasPrefix zero_account PrefixState"
    by (simp add: HasPrefix_def zero_account_def PrefixState_def ascii_def of_char_def)
  moreover have "newest_at (concat (map (run_hist zero_account) sample_inputs)) 10 = Some ([5], 3)"
    by (simp add: sample_inputs_hist(1) newest_at_def del: One_nat_def)
  ultimately show ?thesis using frontier_is_newest [of sample_inputs 10] by blast
qed

end
