(* ===== verification/Postings.thy ===== *)
theory Postings
  imports Merge EF
begin

text \<open>
  The posting lists of a run, \<^verbatim>\<open>src/store/postings.go\<close>: the interned entries of a flush, their chunks, and
  the scans of a run's lookup section.  Entries that compare equal in the sort differ in their payload
  only, and the payloads are OR-ed, so the stable sort stands for Go's unstable one.
\<close>

section \<open>Building chunks\<close>

record postEnt =
  gid :: nat
  e_payload :: byte
  e_txnum :: u64

record postSet =
  ps_groups :: "bytes list"
  ps_ids :: "(bytes \<times> nat) list"
  ps_ents :: "postEnt list"

definition emptyPostSet :: postSet where
  "emptyPostSet = \<lparr>ps_groups = [], ps_ids = [], ps_ents = []\<rparr>"

definition ps_add :: "bytes \<Rightarrow> u64 \<Rightarrow> byte \<Rightarrow> postSet \<Rightarrow> postSet" where
  "ps_add grp txnum pl p =
     (case map_of (ps_ids p) grp of
        Some i \<Rightarrow> p\<lparr>ps_ents := ps_ents p @ [\<lparr>gid = i, e_payload = pl, e_txnum = txnum\<rparr>]\<rparr>
      | None \<Rightarrow> p\<lparr>ps_groups := ps_groups p @ [grp], ps_ids := AList.update grp (length (ps_groups p)) (ps_ids p),
            ps_ents := ps_ents p @ [\<lparr>gid = length (ps_groups p), e_payload = pl, e_txnum = txnum\<rparr>]\<rparr>)"

definition groupRank :: "bytes list \<Rightarrow> nat \<Rightarrow> nat" where
  "groupRank groups i = length (takeWhile (\<lambda>j. j \<noteq> i) (sort_key (\<lambda>j. groups ! j) [0..<length groups]))"

definition sortEnts :: "bytes list \<Rightarrow> postEnt list \<Rightarrow> postEnt list" where
  "sortEnts groups ents = sort_key (\<lambda>e. groupRank groups (gid e)) (sort_key e_txnum ents)"

definition flushChunk :: "bytes list \<Rightarrow> nat \<Rightarrow> u64 list \<Rightarrow> byte list \<Rightarrow> row list res" where
  "flushChunk groups g nums pay =
     (if nums = [] then Inr []
      else
        let grp = groups ! g in
        case Encode (nums ! 0) nums pay (PayloadBits grp) of
          Inl e \<Rightarrow> Inl e
        | Inr v \<Rightarrow> Inr [(Suffixed grp (nums ! 0), v)])"

text \<open>The loop over the sorted entries; \<open>prev\<close> is the group of the entry before.\<close>

fun chunkLoop :: "bytes list \<Rightarrow> nat option \<Rightarrow> u64 list \<Rightarrow> byte list \<Rightarrow> postEnt list \<Rightarrow> row list res" where
  "chunkLoop groups prev nums pay [] =
     (case prev of None \<Rightarrow> Inr [] | Some g \<Rightarrow> flushChunk groups g nums pay)"
| "chunkLoop groups prev nums pay (e # es) =
     (let turn = (case prev of None \<Rightarrow> False | Some g \<Rightarrow> g \<noteq> gid e) in
      case (if turn then flushChunk groups (the prev) nums pay else Inr []) of Inl err \<Rightarrow> Inl err | Inr out1 \<Rightarrow>
      let (nums, pay) = (if turn then ([], []) else (nums, pay)) in
      if nums \<noteq> [] \<and> last nums = e_txnum e then
        (case chunkLoop groups (Some (gid e)) nums (pay[length nums - 1 := (pay ! (length nums - 1)) OR e_payload e]) es of
           Inl err \<Rightarrow> Inl err | Inr out \<Rightarrow> Inr (out1 @ out))
      else
        case (if length nums = MaxEntries then flushChunk groups (gid e) nums pay else Inr []) of Inl err \<Rightarrow> Inl err | Inr out2 \<Rightarrow>
        let (nums, pay) = (if length nums = MaxEntries then ([], []) else (nums, pay)) in
        case chunkLoop groups (Some (gid e)) (nums @ [e_txnum e]) (pay @ [e_payload e]) es of
          Inl err \<Rightarrow> Inl err | Inr out \<Rightarrow> Inr (out1 @ out2 @ out))"

definition chunks :: "postSet \<Rightarrow> row list res" where
  "chunks p = chunkLoop (ps_groups p) None [] [] (sortEnts (ps_groups p) (ps_ents p))"

section \<open>Scanning\<close>

definition bloomGated :: "bytes \<Rightarrow> bool" where
  "bloomGated p = (split (Suffixed p 0) < length p + 8)"

definition decodeChunk :: "u64 \<Rightarrow> u64 \<Rightarrow> row option \<Rightarrow> posting list res" where
  "decodeChunk lo hi pending =
     (case pending of
        None \<Rightarrow> Inr []
      | Some (k, v) \<Rightarrow>
          (case Decode (TxNumOf k) v of
             Inl e \<Rightarrow> Inl e
           | Inr (nums, pay) \<Rightarrow>
               Inr (map (\<lambda>(i, n). \<lparr>p_group = pfx k, p_txnum = n, p_payload = (case pay of None \<Rightarrow> 0 | Some ps \<Rightarrow> ps ! i)\<rparr>)
                 (filter (\<lambda>(i, n). \<not> (n < lo \<or> n > hi)) (enumerate 0 nums)))))"

fun scanLoop :: "bytes \<Rightarrow> u64 \<Rightarrow> u64 \<Rightarrow> row option \<Rightarrow> row list \<Rightarrow> posting list res" where
  "scanLoop p lo hi pending [] = decodeChunk lo hi pending"
| "scanLoop p lo hi pending ((k, v) # rows) =
     (if \<not> HasPrefix k p \<or> length k < length p + 8 then decodeChunk lo hi pending
      else
        let first = TxNumOf k; sameGroup = (case pending of None \<Rightarrow> False | Some (pk, _) \<Rightarrow> pfx pk = pfx k) in
        case (if sameGroup \<and> first \<le> lo then Inr [] else decodeChunk lo hi pending) of Inl e \<Rightarrow> Inl e | Inr out \<Rightarrow>
        case scanLoop p lo hi (if first > hi then None else Some (k, v)) rows of Inl e \<Rightarrow> Inl e | Inr rest \<Rightarrow> Inr (out @ rest))"

definition ScanChunks :: "sst_lib \<Rightarrow> Run \<Rightarrow> bytes \<Rightarrow> u64 \<Rightarrow> u64 \<Rightarrow> posting list res" where
  "ScanChunks T r p lo hi =
     (if bloomGated p \<and> \<not> MayHave T r 2 (Suffixed p 0) then Inr []
      else scanLoop p lo hi None (dropWhile (\<lambda>kv. fst kv < p) (sec_rows 2 r)))"

text \<open>The groups handed to the callback, of which it takes a prefix; \<open>lst\<close> is the last group seen, first \<^verbatim>\<open>nil\<close>.\<close>

fun groupLoop :: "bytes \<Rightarrow> bytes \<Rightarrow> row list \<Rightarrow> bytes list" where
  "groupLoop p lst [] = []"
| "groupLoop p lst ((k, v) # rows) =
     (if \<not> HasPrefix k p \<or> length k < length p + 8 then []
      else if lst = pfx k then groupLoop p lst rows
      else pfx k # groupLoop p (pfx k) rows)"

definition ScanGroups :: "sst_lib \<Rightarrow> Run \<Rightarrow> bytes \<Rightarrow> bytes list" where
  "ScanGroups T r p =
     (if bloomGated p \<and> \<not> MayHave T r 2 (Suffixed p 0) then []
      else groupLoop p [] (dropWhile (\<lambda>kv. fst kv < p) (sec_rows 2 r)))"

definition ScanSet :: "sst_lib \<Rightarrow> Run \<Rightarrow> bytes \<Rightarrow> bytes list" where
  "ScanSet T r p =
     (if length p \<ge> setSplit \<and> \<not> MayHave T r 2 (take setSplit p) then []
      else map fst (takeWhile (\<lambda>kv. HasPrefix (fst kv) p) (dropWhile (\<lambda>kv. fst kv < p) (sec_rows 2 r))))"

section \<open>The bloom gate\<close>

lemma HasPrefix_length: "HasPrefix s p \<Longrightarrow> length p \<le> length s"
  by (auto simp: HasPrefix_iff)

lemma HasPrefix_take: "HasPrefix s p \<Longrightarrow> n \<le> length p \<Longrightarrow> take n s = take n p"
  by (auto simp: HasPrefix_iff)

lemma HasPrefix_nth: "HasPrefix s p \<Longrightarrow> i < length p \<Longrightarrow> s ! i = p ! i"
  by (auto simp: HasPrefix_iff nth_append)

lemma HasPrefix_family: "HasPrefix k p \<Longrightarrow> length f \<le> length p \<Longrightarrow> HasPrefix k f = HasPrefix p f"
  by (simp add: HasPrefix_def) (metis take_take min.absorb1)

lemma gate_sound:
  assumes "bloomGated p" and "HasPrefix k p" and "length k \<ge> length p + 8"
  shows "bloom_prefix k = bloom_prefix (Suffixed p 0)"
proof -
  let ?q = "Suffixed p 0"
  have q: "HasPrefix ?q p" "length ?q = length p + 8" by (simp_all add: Suffixed_def)
  have g: "split ?q < length p + 8" using assms(1) by (simp add: bloomGated_def)
  have s: "split ?q \<le> length p \<and> 26 \<le> length p"
    using g unfolding split_def q(2) setSplit_def by (simp split: if_split_asm)
  have fam: "HasPrefix k f = HasPrefix ?q f" if "length f \<le> 6" for f
    using HasPrefix_family [OF assms(2), of f] HasPrefix_family [OF q(1), of f] s that by simp
  have "split k = split ?q"
  proof -
    have n: "k ! 27 = ?q ! 27" if "27 < length p" using HasPrefix_nth [OF assms(2) that] HasPrefix_nth [OF q(1) that] by simp
    have f: "HasPrefix k PrefixState = HasPrefix ?q PrefixState" "HasPrefix k PrefixAddr = HasPrefix ?q PrefixAddr"
      "HasPrefix k PrefixELog = HasPrefix ?q PrefixELog" "HasPrefix k PrefixTVal = HasPrefix ?q PrefixTVal"
      "HasPrefix k PrefixSig = HasPrefix ?q PrefixSig" "HasPrefix k PrefixSet = HasPrefix ?q PrefixSet"
      by (simp_all add: fam)
    show ?thesis
    proof (cases "HasPrefix ?q PrefixState")
      case True
      then show ?thesis using g n assms(3) unfolding split_def f q(2) by (simp split: if_split_asm)
    next
      case False
      then show ?thesis using g assms(3) unfolding split_def f q(2) setSplit_def by (simp split: if_split_asm)
    qed
  qed
  then show ?thesis
    using HasPrefix_take [OF assms(2), of "split ?q"] HasPrefix_take [OF q(1), of "split ?q"] s by (simp add: bloom_prefix_def)
qed

section \<open>A scan that skips chunks reads every entry\<close>

text \<open>The entries of one chunk row, and the rows of a lookup section as the scans expect them.\<close>

definition row_posts :: "row \<Rightarrow> posting list" where
  "row_posts kv = (case Decode (TxNumOf (fst kv)) (snd kv) of
     Inl e \<Rightarrow> []
   | Inr (nums, pay) \<Rightarrow> map (\<lambda>(i, n). \<lparr>p_group = pfx (fst kv), p_txnum = n, p_payload = (case pay of None \<Rightarrow> 0 | Some ps \<Rightarrow> ps ! i)\<rparr>) (enumerate 0 nums))"

definition within :: "u64 \<Rightarrow> u64 \<Rightarrow> posting \<Rightarrow> bool" where
  "within lo hi e = (lo \<le> p_txnum e \<and> p_txnum e \<le> hi)"

definition chunk_row :: "row \<Rightarrow> bool" where
  "chunk_row kv = ((\<exists>x. Decode (TxNumOf (fst kv)) (snd kv) = Inr x) \<and> (\<forall>e \<in> set (row_posts kv). TxNumOf (fst kv) \<le> p_txnum e))"

definition chunks_apart :: "row \<Rightarrow> row \<Rightarrow> bool" where
  "chunks_apart a b = (pfx (fst a) = pfx (fst b) \<longrightarrow> (\<forall>e \<in> set (row_posts a). p_txnum e < TxNumOf (fst b)))"

definition chunk_rows :: "row list \<Rightarrow> bool" where
  "chunk_rows rows = ((\<forall>kv \<in> set rows. chunk_row kv) \<and> sorted_wrt chunks_apart rows)"

lemma decodeChunk_row:
  assumes "chunk_row kv"
  shows "decodeChunk lo hi (Some kv) = Inr (filter (within lo hi) (row_posts kv))"
proof -
  obtain nums pay where "Decode (TxNumOf (fst kv)) (snd kv) = Inr (nums, pay)" using assms by (auto simp: chunk_row_def)
  then show ?thesis
    by (cases kv) (auto simp: decodeChunk_def row_posts_def filter_map comp_def within_def case_prod_unfold intro!: filter_cong arg_cong [of _ _ "map _"])
qed

lemma decodeChunk_None: "decodeChunk lo hi None = Inr []"
  by (simp add: decodeChunk_def)

lemma no_posts_within:
  assumes "\<forall>e \<in> set es. p_txnum e < lo \<or> hi < p_txnum e"
  shows "filter (within lo hi) es = []"
  using assms by (auto simp: filter_empty_conv within_def)

definition pending_posts :: "u64 \<Rightarrow> u64 \<Rightarrow> row option \<Rightarrow> posting list" where
  "pending_posts lo hi pending = (case pending of None \<Rightarrow> [] | Some kv \<Rightarrow> filter (within lo hi) (row_posts kv))"

lemma scanLoop_posts:
  assumes "\<forall>kv \<in> set rows. HasPrefix (fst kv) p \<and> length (fst kv) \<ge> length p + 8"
    and "chunk_rows (case pending of None \<Rightarrow> rows | Some kv \<Rightarrow> kv # rows)"
    and "rest = [] \<or> \<not> HasPrefix (fst (hd rest)) p"
  shows "scanLoop p lo hi pending (rows @ rest) = Inr (pending_posts lo hi pending @ concat (map (\<lambda>kv. filter (within lo hi) (row_posts kv)) rows))"
  using assms(1,2)
proof (induction rows arbitrary: pending)
  case Nil
  then have d: "decodeChunk lo hi pending = Inr (pending_posts lo hi pending)"
    using decodeChunk_row by (cases pending) (simp_all add: decodeChunk_None pending_posts_def chunk_rows_def)
  show ?case using assms(3) d by (cases rest) auto
next
  case (Cons kv rows)
  obtain k v where kv: "kv = (k, v)" by fastforce
  have ok: "HasPrefix k p" "\<not> length k < length p + 8" using Cons.prems(1) by (auto simp: kv)
  have c: "chunk_rows (kv # rows)" and pd: "\<And>q. pending = Some q \<Longrightarrow> chunk_row q \<and> chunks_apart q kv"
    using Cons.prems(2) by (auto simp: chunk_rows_def split: option.splits)
  have d: "decodeChunk lo hi pending = Inr (pending_posts lo hi pending)"
    using pd decodeChunk_row by (cases pending) (simp_all add: decodeChunk_None pending_posts_def)
  have skip: "pending_posts lo hi pending = []"
    if s: "(case pending of None \<Rightarrow> False | Some (pk, _) \<Rightarrow> pfx pk = pfx k)" "TxNumOf k \<le> lo"
  proof -
    obtain pk pv where q: "pending = Some (pk, pv)" "pfx pk = pfx k" using s(1) by (auto split: option.splits prod.splits)
    have "\<forall>e \<in> set (row_posts (pk, pv)). p_txnum e < lo" using pd [OF q(1)] q(2) s(2) by (auto simp: chunks_apart_def kv)
    then show ?thesis by (simp add: pending_posts_def q(1) no_posts_within)
  qed
  have past: "filter (within lo hi) (row_posts kv) = []" if "hi < TxNumOf k"
    using c that by (intro no_posts_within) (auto simp: chunk_rows_def chunk_row_def kv)
  have next_ok: "chunk_rows (case (if TxNumOf k > hi then None else Some (k, v)) of None \<Rightarrow> rows | Some kv \<Rightarrow> kv # rows)"
    using c by (simp add: chunk_rows_def kv)
  have "scanLoop p lo hi (if TxNumOf k > hi then None else Some (k, v)) (rows @ rest) =
      Inr (pending_posts lo hi (if TxNumOf k > hi then None else Some (k, v)) @ concat (map (\<lambda>kv. filter (within lo hi) (row_posts kv)) rows))"
    using Cons.IH [OF _ next_ok] Cons.prems(1) by simp
  then show ?case
    using ok d skip past by (simp add: kv Let_def) (simp add: pending_posts_def)
qed

lemma seek_prefix:
  assumes "sorted_wrt (<) (map fst rows)"
  shows "dropWhile (\<lambda>kv. fst kv < p) rows = filter (\<lambda>kv. HasPrefix (fst kv) p) rows @ filter (\<lambda>kv. p < fst kv \<and> \<not> HasPrefix (fst kv) p) (rows :: row list)"
  using assms
proof (induction rows)
  case (Cons kv rows)
  have gt: "\<forall>x \<in> set rows. fst kv < fst x" and s: "sorted_wrt (<) (map fst rows)" using Cons.prems by auto
  have le: "HasPrefix k p \<Longrightarrow> p \<le> k" for k by (auto simp: HasPrefix_iff lex_prefix_le)
  show ?case
  proof (cases "fst kv < p")
    case True
    then have "\<not> HasPrefix (fst kv) p" using le by (meson not_le)
    then show ?thesis using True Cons.IH [OF s] by auto
  next
    case False
    then have "\<forall>x \<in> set rows. p < fst x" using gt by (meson not_less order_le_less_trans)
    then have "dropWhile (\<lambda>kv. fst kv < p) rows = rows" by (cases rows) (auto dest: less_asym)
    then have r: "rows = filter (\<lambda>kv. HasPrefix (fst kv) p) rows @ filter (\<lambda>kv. p < fst kv \<and> \<not> HasPrefix (fst kv) p) rows" using Cons.IH [OF s] by simp
    show ?thesis
    proof (cases "HasPrefix (fst kv) p")
      case True
      then show ?thesis using False r by simp
    next
      case np: False
      have "p \<noteq> fst kv" using np by (auto simp: HasPrefix_iff)
      then have pk: "p < fst kv" using False by (simp add: le_less not_less)
      have "\<not> HasPrefix (fst x) p" if "x \<in> set rows" for x
      proof
        assume "HasPrefix (fst x) p"
        then obtain t where "fst x = p @ t" by (auto simp: HasPrefix_iff)
        then have "\<exists>c. fst kv = p @ c" using lex_between_prefix [of p "[]" "fst kv" t] pk gt that by (auto simp: less_imp_le)
        then show False using np by (auto simp: HasPrefix_iff)
      qed
      then show ?thesis using False np pk r by (simp add: filter_empty_conv)
    qed
  qed
qed simp

lemma ScanChunks_reference:
  assumes ok: "sec_ok T 2 r" and rows: "rows = filter (\<lambda>kv. HasPrefix (fst kv) p) (sec_rows 2 r)"
    and len: "\<forall>kv \<in> set rows. length (fst kv) \<ge> length p + 8" and ch: "chunk_rows rows"
  shows "ScanChunks T r p lo hi = Inr (concat (map (\<lambda>kv. filter (within lo hi) (row_posts kv)) rows))"
proof (cases "bloomGated p \<and> \<not> MayHave T r 2 (Suffixed p 0)")
  case True
  have "rows = []"
  proof (rule ccontr)
    assume "rows \<noteq> []"
    then have h: "hd rows \<in> set rows" by simp
    define kv where "kv = hd rows"
    have kv: "kv \<in> set (sec_rows 2 r)" "HasPrefix (fst kv) p" using h by (auto simp: kv_def rows)
    have l: "length (fst kv) \<ge> length p + 8" using len h unfolding kv_def by blast
    have "MayHave T r 2 (fst kv)" using ok kv(1) by (auto simp: sec_ok_def)
    then show False using True MayHave_bloom [OF gate_sound [OF _ kv(2) l]] by simp
  qed
  then show ?thesis using True by (simp add: ScanChunks_def)
next
  case False
  let ?rest = "filter (\<lambda>kv. p < fst kv \<and> \<not> HasPrefix (fst kv) p) (sec_rows 2 r)"
  have "?rest = [] \<or> \<not> HasPrefix (fst (hd ?rest)) p" 
    using list.set_sel(1) [of ?rest] by fastforce
  from scanLoop_posts [OF _ _ this, of rows None lo hi] show ?thesis
    using False len ch seek_prefix [of "sec_rows 2 r" p] ok rows by (auto simp: ScanChunks_def sec_ok_def pending_posts_def)
qed

section \<open>Chunks hold the merged entries\<close>

text \<open>
  The reference: one entry per group and TxNum, in TxNum order, with the payloads OR-ed.
\<close>

definition payload_at :: "posting list \<Rightarrow> bytes \<Rightarrow> u64 \<Rightarrow> byte" where
  "payload_at ps g t = foldl (\<lambda>a e. a OR p_payload e) 0 (filter (\<lambda>e. p_group e = g \<and> p_txnum e = t) ps)"

definition merged_posts :: "posting list \<Rightarrow> bytes \<Rightarrow> posting list" where
  "merged_posts ps g = map (\<lambda>t. \<lparr>p_group = g, p_txnum = t, p_payload = payload_at ps g t\<rparr>) (sort (remdups (map p_txnum (filter (\<lambda>e. p_group e = g) ps))))"

text \<open>Adjacent entries of one group and TxNum are merged into the first of them.\<close>

fun squash :: "posting list \<Rightarrow> posting list" where
  "squash (a # b # es) =
     (if p_group a = p_group b \<and> p_txnum a = p_txnum b then squash (a\<lparr>p_payload := p_payload a OR p_payload b\<rparr> # es)
      else a # squash (b # es))"
| "squash es = es"

definition ent_post :: "bytes list \<Rightarrow> postEnt \<Rightarrow> posting" where
  "ent_post groups e = \<lparr>p_group = groups ! gid e, p_txnum = e_txnum e, p_payload = e_payload e\<rparr>"

definition open_posts :: "bytes \<Rightarrow> u64 list \<Rightarrow> byte list \<Rightarrow> posting list" where
  "open_posts g nums pay = map2 (\<lambda>n p. \<lparr>p_group = g, p_txnum = n, p_payload = p\<rparr>) nums pay"

definition fits :: "posting \<Rightarrow> bool" where
  "fits e = (take_bit (PayloadBits (p_group e)) (p_payload e) = p_payload e)"

lemma PayloadBits_le: "PayloadBits g \<le> 8"
  by (simp add: PayloadBits_def)

lemma take_Suffixed [simp]: "take (length g) (Suffixed g n) = g"
  by (simp add: Suffixed_def)

lemma fits_zero: "PayloadBits (p_group e) = 0 \<Longrightarrow> fits e \<Longrightarrow> p_payload e = 0"
  by (simp add: fits_def)

lemma flushChunk_ok:
  assumes "nums \<noteq> []" and "sorted nums" and "length nums \<le> MaxEntries" and "length pay = length nums"
    and "\<forall>e \<in> set (open_posts (groups ! g) nums pay). fits e"
  shows "\<exists>v. flushChunk groups g nums pay = Inr [(Suffixed (groups ! g) (hd nums), v)] \<and>
    row_posts (Suffixed (groups ! g) (hd nums), v) = open_posts (groups ! g) nums pay \<and>
    (\<exists>x. Decode (hd nums) v = Inr x)"
proof -
  let ?g = "groups ! g" and ?pb = "PayloadBits (groups ! g)"
  have f: "\<forall>p \<in> set pay. take_bit ?pb p = p"
  proof
    fix p assume "p \<in> set pay"
    then obtain i where i: "i < length pay" "pay ! i = p" by (auto simp: in_set_conv_nth)
    then have "\<lparr>p_group = ?g, p_txnum = nums ! i, p_payload = p\<rparr> \<in> set (open_posts ?g nums pay)"
      using assms(4) by (force simp: open_posts_def set_zip)
    then show "take_bit ?pb p = p" using assms(5) by (auto simp: fits_def)
  qed
  have b: "\<forall>t \<in> set nums. hd nums \<le> t" using assms(1,2) by (cases nums) auto
  obtain v where v: "Encode (hd nums) nums pay ?pb = Inr v" "Decode (hd nums) v = Inr (nums, if 0 < ?pb then Some pay else None)"
    using Decode_Encode [OF assms(2) b assms(3) PayloadBits_le assms(4) f] by blast
  have "row_posts (Suffixed ?g (hd nums), v) = open_posts ?g nums pay"
  proof (rule nth_equalityI)
    show "length (row_posts (Suffixed ?g (hd nums), v)) = length (open_posts ?g nums pay)"
      using assms(4) by (simp add: row_posts_def v(2) open_posts_def)
    fix i assume "i < length (row_posts (Suffixed ?g (hd nums), v))"
    then have i: "i < length nums" by (simp add: row_posts_def v(2))
    have "?pb = 0 \<Longrightarrow> pay ! i = 0" using f i assms(4) by (metis nth_mem take_bit_0)
    then show "row_posts (Suffixed ?g (hd nums), v) ! i = open_posts ?g nums pay ! i"
      using i assms(4) by (auto simp: row_posts_def v(2) open_posts_def nth_enumerate_eq)
  qed
  then show ?thesis using v assms(1) by (simp add: flushChunk_def hd_conv_nth)
qed

text \<open>What the loop emits: a chunk row decodes, is not empty, and is keyed by its group and first TxNum.\<close>

definition good_row :: "row \<Rightarrow> bool" where
  "good_row kv = ((\<exists>x. Decode (TxNumOf (fst kv)) (snd kv) = Inr x) \<and> row_posts kv \<noteq> [] \<and>
     fst kv = Suffixed (p_group (hd (row_posts kv))) (p_txnum (hd (row_posts kv))) \<and>
     (\<forall>e \<in> set (row_posts kv). p_group e = p_group (hd (row_posts kv)) \<and> p_txnum (hd (row_posts kv)) \<le> p_txnum e))"

definition apart :: "posting \<Rightarrow> posting \<Rightarrow> bool" where
  "apart a b = (p_group a = p_group b \<longrightarrow> p_txnum a \<noteq> p_txnum b)"

lemma squash_apart: "successively apart (xs @ [y]) \<Longrightarrow> squash (xs @ y # rest) = xs @ squash (y # rest)"
proof (induction xs)
  case (Cons x xs)
  then show ?case by (cases xs) (auto simp: apart_def)
qed simp

lemma open_posts_snoc: "length pay = length nums \<Longrightarrow> open_posts g (nums @ [n]) (pay @ [p]) = open_posts g nums pay @ [\<lparr>p_group = g, p_txnum = n, p_payload = p\<rparr>]"
  by (simp add: open_posts_def)

lemma open_posts_apart:
  assumes "sorted_wrt (<) nums" and "length pay = length nums"
  shows "successively apart (open_posts g nums pay)"
  using assms(2,1)
proof (induction pay nums rule: list_induct2)
  case (Cons p pay n nums)
  then show ?case by (cases nums; cases pay) (auto simp: open_posts_def apart_def)
qed (simp add: open_posts_def)

definition chunk_open :: "bytes list \<Rightarrow> nat \<Rightarrow> u64 list \<Rightarrow> byte list \<Rightarrow> bool" where
  "chunk_open groups g nums pay = (nums \<noteq> [] \<and> sorted_wrt (<) nums \<and> length nums \<le> MaxEntries \<and> length pay = length nums \<and>
     (\<forall>e \<in> set (open_posts (groups ! g) nums pay). fits e))"

lemma chunk_open_flush:
  assumes "chunk_open groups g nums pay"
  shows "\<exists>row. flushChunk groups g nums pay = Inr [row] \<and> row_posts row = open_posts (groups ! g) nums pay \<and> good_row row"
proof -
  have o: "nums \<noteq> []" "sorted_wrt (<) nums" "length nums \<le> MaxEntries" "length pay = length nums" "\<forall>e \<in> set (open_posts (groups ! g) nums pay). fits e"
    using assms by (auto simp: chunk_open_def)
  obtain v where v: "flushChunk groups g nums pay = Inr [(Suffixed (groups ! g) (hd nums), v)]"
    "row_posts (Suffixed (groups ! g) (hd nums), v) = open_posts (groups ! g) nums pay" "\<exists>x. Decode (hd nums) v = Inr x"
    using flushChunk_ok [OF o(1) _ o(3-5)] o(2) by (auto simp: strict_sorted_iff)
  obtain n ns p ps where np: "nums = n # ns" "pay = p # ps" using o(1,4) by (cases nums; cases pay) auto
  have "\<forall>e \<in> set (open_posts (groups ! g) nums pay). p_group e = groups ! g \<and> hd nums \<le> p_txnum e"
    using o(2) by (auto simp: open_posts_def np less_imp_le dest!: set_zip_leftD)
  then have "good_row (Suffixed (groups ! g) (hd nums), v)"
    using v(3) by (simp add: good_row_def v(2)) (simp add: np open_posts_def)
  then show ?thesis using v(1,2) by blast
qed

lemma chunk_open_one: "fits \<lparr>p_group = groups ! g, p_txnum = n, p_payload = p\<rparr> \<Longrightarrow> chunk_open groups g [n] [p]"
  by (simp add: chunk_open_def open_posts_def MaxEntries_def)

lemma fits_or: "fits \<lparr>p_group = g, p_txnum = n, p_payload = a\<rparr> \<Longrightarrow> fits \<lparr>p_group = g, p_txnum = n, p_payload = b\<rparr> \<Longrightarrow> fits \<lparr>p_group = g, p_txnum = n, p_payload = a OR b\<rparr>"
  by (simp add: fits_def)

definition ents_sorted :: "nat \<Rightarrow> u64 \<Rightarrow> postEnt list \<Rightarrow> bool" where
  "ents_sorted g t es = (sorted_wrt (\<lambda>a b. gid a = gid b \<longrightarrow> e_txnum a \<le> e_txnum b) es \<and> (\<forall>e \<in> set es. gid e = g \<longrightarrow> t \<le> e_txnum e))"

lemma ents_sorted_Cons: "ents_sorted g t (e # es) \<Longrightarrow> ents_sorted (gid e) (e_txnum e) es"
  by (auto simp: ents_sorted_def)

lemma chunkLoop_posts:
  assumes "distinct groups" and "\<forall>e \<in> set es. gid e < length groups \<and> fits (ent_post groups e)" and "g < length groups"
    and "chunk_open groups g nums pay" and "ents_sorted g (last nums) es"
  shows "\<exists>rows. chunkLoop groups (Some g) nums pay es = Inr rows \<and> (\<forall>kv \<in> set rows. good_row kv) \<and>
    concat (map row_posts rows) = squash (open_posts (groups ! g) nums pay @ map (ent_post groups) es)"
  using assms(2-)
proof (induction es arbitrary: g nums pay)
  case Nil
  have "squash (open_posts (groups ! g) nums pay) = open_posts (groups ! g) nums pay"
  proof -
    have "successively apart (open_posts (groups ! g) nums pay)" using Nil.prems(3) by (simp add: chunk_open_def open_posts_apart)
    then show ?thesis using squash_apart [of "butlast (open_posts (groups ! g) nums pay)" "last (open_posts (groups ! g) nums pay)" "[]"]
      by (cases "open_posts (groups ! g) nums pay" rule: rev_cases) auto
  qed
  then show ?case using chunk_open_flush [OF Nil.prems(3)] by auto
next
  case (Cons e es)
  let ?G = "groups ! g" and ?o = "open_posts (groups ! g) nums pay" and ?e = "ent_post groups e"
  have e: "gid e < length groups" "fits ?e" and es: "\<forall>e \<in> set es. gid e < length groups \<and> fits (ent_post groups e)" using Cons.prems(1) by auto
  have o: "nums \<noteq> []" "sorted_wrt (<) nums" "length nums \<le> MaxEntries" "length pay = length nums" "\<forall>e \<in> set ?o. fits e"
    using Cons.prems(3) by (auto simp: chunk_open_def)
  obtain ns n where nums: "nums = ns @ [n]" using o(1) by (metis append_butlast_last_id)
  obtain ps p where pay: "pay = ps @ [p]" "length ps = length ns" using o(4) nums by (cases pay rule: rev_cases) auto
  have oo: "?o = open_posts ?G ns ps @ [\<lparr>p_group = ?G, p_txnum = n, p_payload = p\<rparr>]" by (simp add: nums pay open_posts_snoc)
  have ap: "successively apart (open_posts ?G ns ps @ [\<lparr>p_group = ?G, p_txnum = n, p_payload = p\<rparr>])"
    using open_posts_apart [OF o(2,4), of ?G] oo by simp
  have sq: "squash (?o @ map (ent_post groups) (e # es)) = open_posts ?G ns ps @ squash (\<lparr>p_group = ?G, p_txnum = n, p_payload = p\<rparr> # ?e # map (ent_post groups) es)"
    using squash_apart [OF ap] oo by simp
  have f1: "chunk_open groups (gid e) [e_txnum e] [e_payload e]" using e(2) by (intro chunk_open_one) (simp add: ent_post_def)
  note IH1 = Cons.IH [OF es e(1) f1]
  have s1: "ents_sorted (gid e) (last [e_txnum e]) es" using ents_sorted_Cons [OF Cons.prems(4)] by simp
  have o1: "open_posts (groups ! gid e) [e_txnum e] [e_payload e] = [?e]" by (simp add: open_posts_def ent_post_def)
  consider (turn) "gid e \<noteq> g" | (same) "gid e = g" "e_txnum e = n" | (full) "gid e = g" "e_txnum e \<noteq> n" "length nums = MaxEntries"
    | (grow) "gid e = g" "e_txnum e \<noteq> n" "length nums < MaxEntries" using o(3) by linarith
  then show ?case
  proof cases
    case turn
    then have "groups ! gid e \<noteq> ?G" using assms(1) e(1) Cons.prems(2) by (simp add: nth_eq_iff_index_eq)
    then have "squash (?o @ map (ent_post groups) (e # es)) = ?o @ squash (?e # map (ent_post groups) es)" using sq oo by (simp add: ent_post_def)
    moreover obtain row where "flushChunk groups g nums pay = Inr [row]" "row_posts row = ?o" "good_row row" using chunk_open_flush [OF Cons.prems(3)] by blast
    moreover obtain rows where "chunkLoop groups (Some (gid e)) [e_txnum e] [e_payload e] es = Inr rows" "\<forall>kv \<in> set rows. good_row kv"
      "concat (map row_posts rows) = squash (?e # map (ent_post groups) es)" using IH1 [OF s1] by (auto simp: o1)
    ultimately show ?thesis using turn by (intro exI [of _ "row # rows"]) (simp add: MaxEntries_def)
  next
    case same
    let ?p = "p OR e_payload e"
    have "open_posts ?G nums (ps @ [?p]) = open_posts ?G ns ps @ [\<lparr>p_group = ?G, p_txnum = n, p_payload = ?p\<rparr>]" by (simp add: nums pay open_posts_snoc)
    moreover have "fits \<lparr>p_group = ?G, p_txnum = n, p_payload = ?p\<rparr>"
      using o(5) oo e(2) same by (intro fits_or) (auto simp: ent_post_def)
    ultimately have c: "chunk_open groups g nums (ps @ [?p])" using o oo pay nums by (auto simp: chunk_open_def)
    have "squash (?o @ map (ent_post groups) (e # es)) = squash (open_posts ?G nums (ps @ [?p]) @ map (ent_post groups) es)"
      using sq squash_apart [of "open_posts ?G ns ps" "\<lparr>p_group = ?G, p_txnum = n, p_payload = ?p\<rparr>" "map (ent_post groups) es"] ap same
      by (simp add: nums pay open_posts_snoc ent_post_def successively_append_iff apart_def)
    moreover have "ents_sorted g (last nums) es" using s1 same nums by simp
    moreover have "pay[length nums - 1 := pay ! (length nums - 1) OR e_payload e] = ps @ [?p]" by (simp add: nums pay nth_append list_update_append)
    ultimately show ?thesis using Cons.IH [OF es Cons.prems(2) c] same nums by (auto simp: Let_def)
  next
    case full
    have "squash (?o @ map (ent_post groups) (e # es)) = ?o @ squash (?e # map (ent_post groups) es)" using sq oo full by (simp add: ent_post_def)
    moreover obtain row where "flushChunk groups g nums pay = Inr [row]" "row_posts row = ?o" "good_row row" using chunk_open_flush [OF Cons.prems(3)] by blast
    moreover obtain rows where "chunkLoop groups (Some (gid e)) [e_txnum e] [e_payload e] es = Inr rows" "\<forall>kv \<in> set rows. good_row kv"
      "concat (map row_posts rows) = squash (?e # map (ent_post groups) es)" using IH1 [OF s1] by (auto simp: o1)
    ultimately show ?thesis using full nums by (intro exI [of _ "row # rows"]) (simp add: Let_def)
  next
    case grow
    have lt: "n < e_txnum e" using Cons.prems(4) grow nums by (auto simp: ents_sorted_def order_less_le)
    have on: "open_posts ?G (nums @ [e_txnum e]) (pay @ [e_payload e]) = ?o @ [?e]" using grow o(4) by (simp add: open_posts_snoc ent_post_def)
    have "sorted_wrt (<) (nums @ [e_txnum e])" using o(2) lt nums by (auto simp: sorted_wrt_append intro: less_trans)
    then have c: "chunk_open groups g (nums @ [e_txnum e]) (pay @ [e_payload e])" using o e(2) grow on by (auto simp: chunk_open_def)
    have "ents_sorted g (last (nums @ [e_txnum e])) es" using s1 grow by simp
    from Cons.IH [OF es Cons.prems(2) c this] show ?thesis using grow nums on by (auto simp: Let_def)
  qed
qed

definition post_le :: "posting \<Rightarrow> posting \<Rightarrow> bool" where
  "post_le a b = (p_group a < p_group b \<or> p_group a = p_group b \<and> p_txnum a \<le> p_txnum b)"

definition post_less :: "posting \<Rightarrow> posting \<Rightarrow> bool" where
  "post_less a b = (p_group a < p_group b \<or> p_group a = p_group b \<and> p_txnum a < p_txnum b)"

lemma post_le_payload [simp]: "post_le (a\<lparr>p_payload := x\<rparr>) b = post_le a b"
  by (simp add: post_le_def)

definition at_key :: "bytes \<Rightarrow> u64 \<Rightarrow> posting \<Rightarrow> bool" where
  "at_key g t e = (p_group e = g \<and> p_txnum e = t)"

lemma post_less_le: "post_less a b \<Longrightarrow> post_le b x \<Longrightarrow> post_less a x"
  unfolding post_less_def post_le_def by fastforce

lemma post_less_key: "post_less a x \<Longrightarrow> \<not> at_key (p_group a) (p_txnum a) x"
  by (auto simp: post_less_def at_key_def)

lemma post_less_at: "post_less a x \<Longrightarrow> at_key (p_group e) (p_txnum e) x \<Longrightarrow> post_less a e"
  by (auto simp: post_less_def at_key_def)

lemma squash_keys: "(\<exists>e \<in> set (squash es). at_key g t e) \<longleftrightarrow> (\<exists>e \<in> set es. at_key g t e)"
  by (induction es rule: squash.induct) (auto simp: at_key_def)

lemma squash_from: "e \<in> set (squash es) \<Longrightarrow> \<exists>e' \<in> set es. at_key (p_group e) (p_txnum e) e'"
  using squash_keys [of es "p_group e" "p_txnum e"] by (meson at_key_def)

lemma squash_sorted: "sorted_wrt post_le es \<Longrightarrow> sorted_wrt post_less (squash es)"
proof (induction es rule: squash.induct)
  case (1 a b es)
  show ?case
  proof (cases "p_group a = p_group b \<and> p_txnum a = p_txnum b")
    case True
    then show ?thesis using 1(1) 1(3) by simp
  next
    case False
    have "post_less a e" if in_rest: "e \<in> set (squash (b # es))" for e
    proof -
      obtain e' where "e' \<in> set (b # es)" and at: "at_key (p_group e) (p_txnum e) e'" using squash_from [OF in_rest] by blast
      moreover have "post_less a b" using 1(3) False by (auto simp: post_le_def post_less_def)
      moreover have "\<forall>x \<in> set es. post_le b x" using 1(3) by simp
      ultimately have "post_less a e'" using post_less_le [of a b e'] by auto
      then show ?thesis using post_less_at [of a e' e] at by simp
    qed
    moreover have "squash (a # b # es) = a # squash (b # es)" using False by auto
    moreover have "sorted_wrt post_less (squash (b # es))" using 1(2) [OF False] 1(3) by simp
    ultimately show ?thesis by simp
  qed
qed simp_all

lemma payload_at_merge: "payload_at (a\<lparr>p_payload := p_payload a OR p_payload b\<rparr> # es) g t = payload_at (a # b # es) g t"
  if "p_group a = p_group b" "p_txnum a = p_txnum b"
  using that by (simp add: payload_at_def or.assoc)

lemma payload_at_other: "\<not> (p_group a = g \<and> p_txnum a = t) \<Longrightarrow> payload_at (a # es) g t = payload_at es g t"
  by (auto simp: payload_at_def)

lemma squash_payload:
  assumes "sorted_wrt post_le es" and "e \<in> set (squash es)"
  shows "p_payload e = payload_at es (p_group e) (p_txnum e)"
  using assms
proof (induction es rule: squash.induct)
  case (1 a b es)
  show ?case
  proof (cases "p_group a = p_group b \<and> p_txnum a = p_txnum b")
    case True
    have "sorted_wrt post_le (a\<lparr>p_payload := p_payload a OR p_payload b\<rparr> # es)" using 1(3) by simp
    moreover have "e \<in> set (squash (a\<lparr>p_payload := p_payload a OR p_payload b\<rparr> # es))" using 1(4) True by simp
    ultimately show ?thesis using 1(1) [OF True] payload_at_merge [of a b es] True by simp
  next
    case False
    then have lt: "post_less a b" using 1(3) by (auto simp: post_le_def post_less_def)
    have "\<forall>x \<in> set es. post_le b x" using 1(3) by simp
    then have no: "\<not> at_key (p_group a) (p_txnum a) x" if "x \<in> set (b # es)" for x
      using post_less_key [of a x] post_less_le [OF lt, of x] lt that by auto
    have sq: "squash (a # b # es) = a # squash (b # es)" using False by auto
    show ?thesis
    proof (cases "e = a")
      case True
      have "filter (\<lambda>x. p_group x = p_group a \<and> p_txnum x = p_txnum a) (b # es) = []" using no unfolding filter_empty_conv at_key_def by blast
      then have "filter (\<lambda>x. p_group x = p_group a \<and> p_txnum x = p_txnum a) (a # b # es) = [a]" by (simp only: filter.simps) simp
      then show ?thesis using True by (simp only: payload_at_def) simp
    next
      case ne: False
      then have e: "e \<in> set (squash (b # es))" using 1(4) unfolding sq by simp
      then obtain e' where "e' \<in> set (b # es)" "at_key (p_group e) (p_txnum e) e'" using squash_from [OF e] by blast
      then have "\<not> (p_group a = p_group e \<and> p_txnum a = p_txnum e)" using no [of e'] by (auto simp: at_key_def)
      then show ?thesis using 1(2) [OF False _ e] 1(3) payload_at_other [of a "p_group e" "p_txnum e" "b # es"] by simp
    qed
  qed
qed (auto simp: payload_at_def)

lemma squash_merged:
  assumes "sorted_wrt post_le es"
  shows "filter (\<lambda>e. p_group e = g) (squash es) = merged_posts es g"
proof -
  let ?f = "filter (\<lambda>e. p_group e = g) (squash es)" and ?ts = "sort (remdups (map p_txnum (filter (\<lambda>e. p_group e = g) es)))"
  have "sorted_wrt (\<lambda>a b. p_txnum a < p_txnum b) ?f"
    using sorted_wrt_filter [OF squash_sorted [OF assms], of "\<lambda>e. p_group e = g"]
    by (rule sorted_wrt_mono_rel [rotated]) (auto simp: post_less_def)
  then have s: "sorted_wrt (<) (map p_txnum ?f)" by (simp add: sorted_wrt_map)
  have "t \<in> set (map p_txnum ?f) \<longleftrightarrow> t \<in> set ?ts" for t
    using squash_keys [of es g t] unfolding at_key_def by (auto simp: image_iff)
  then have "set (map p_txnum ?f) = set ?ts" by blast
  with s have t: "map p_txnum ?f = ?ts"
    by (intro sorted_distinct_set_unique) (simp_all only: strict_sorted_iff sorted_sort distinct_sort distinct_remdups)
  have "map (\<lambda>t. \<lparr>p_group = g, p_txnum = t, p_payload = payload_at es g t\<rparr>) (map p_txnum ?f) = ?f"
    unfolding map_map by (rule map_idI) (use squash_payload [OF assms] in auto)
  then show ?thesis by (simp only: merged_posts_def t)
qed

section \<open>Sorting and interning\<close>

lemma sorted_classes:
  assumes "sorted_wrt (\<lambda>a b. f a \<le> (f b :: nat)) zs" and "\<forall>k. sorted_wrt S (filter (\<lambda>y. f y = k) zs)"
  shows "sorted_wrt (\<lambda>a b. f a < f b \<or> f a = f b \<and> S a b) zs"
  using assms
proof (induction zs)
  case (Cons z zs)
  have "S z y" if "y \<in> set zs" "f z = f y" for y
    using Cons.prems(2) [rule_format, of "f z"] that by (auto split: if_splits)
  moreover have "sorted_wrt S (filter (\<lambda>y. f y = k) zs)" for k
    using Cons.prems(2) [rule_format, of k] by (simp split: if_splits)
  ultimately show ?case using Cons by (auto simp: order_less_le)
qed simp

definition group_order :: "bytes list \<Rightarrow> nat list" where
  "group_order groups = sort_key (\<lambda>j. groups ! j) [0..<length groups]"

lemma groupRank_less:
  assumes d: "distinct groups" and i: "i < length groups" and j: "j < length groups"
  shows "groupRank groups i < groupRank groups j \<longleftrightarrow> groups ! i < groups ! j"
    and "groupRank groups i = groupRank groups j \<longleftrightarrow> i = j"
proof -
  let ?o = "group_order groups"
  have m: "i \<in> set ?o" "j \<in> set ?o" using i j by (simp_all add: group_order_def)
  have r: "groupRank groups k < length ?o \<and> ?o ! groupRank groups k = k" if "k \<in> set ?o" for k
  proof -
    have "length (takeWhile (\<lambda>j. j \<noteq> k) ?o) \<noteq> length ?o" using that takeWhile_eq_all_conv [of "\<lambda>j. j \<noteq> k" ?o] takeWhile_eq_take [of "\<lambda>j. j \<noteq> k" ?o] by auto
    then have "length (takeWhile (\<lambda>j. j \<noteq> k) ?o) < length ?o" using length_takeWhile_le [of "\<lambda>j. j \<noteq> k" ?o] by linarith
    then show ?thesis using nth_length_takeWhile [of "\<lambda>j. j \<noteq> k" ?o] unfolding groupRank_def group_order_def [symmetric] by simp
  qed
  have sub: "set ?o = {..<length groups}" "distinct ?o" by (auto simp: group_order_def)
  have "sorted (map (\<lambda>j. groups ! j) ?o)" by (simp add: group_order_def)
  moreover have "distinct (map (\<lambda>j. groups ! j) ?o)" using d sub by (auto simp: distinct_map inj_on_def nth_eq_iff_index_eq)
  ultimately have s: "sorted_wrt (<) (map (\<lambda>j. groups ! j) ?o)" by (simp add: strict_sorted_iff)
  have lt: "groups ! (?o ! a) < groups ! (?o ! b)" if "a < b" "b < length ?o" for a b
    using sorted_wrt_nth_less [OF s that(1)] that by simp
  have ri: "groupRank groups i < length ?o" "?o ! groupRank groups i = i" and rj: "groupRank groups j < length ?o" "?o ! groupRank groups j = j"
    using r [OF m(1)] r [OF m(2)] by simp_all
  have up: "groups ! i < groups ! j" if "groupRank groups i < groupRank groups j" using lt [OF that rj(1)] unfolding ri(2) rj(2) .
  have down: "groups ! j < groups ! i" if "groupRank groups j < groupRank groups i" using lt [OF that ri(1)] unfolding ri(2) rj(2) .
  have same: "i = j" if "groupRank groups i = groupRank groups j"
    using arg_cong [OF that, of "\<lambda>k. ?o ! k"] unfolding ri(2) rj(2) .
  then show "groupRank groups i = groupRank groups j \<longleftrightarrow> i = j" by blast
  show "groupRank groups i < groupRank groups j \<longleftrightarrow> groups ! i < groups ! j"
  proof
    assume "groups ! i < groups ! j"
    then show "groupRank groups i < groupRank groups j"
      using down same by (cases "groupRank groups i" "groupRank groups j" rule: linorder_cases) auto
  qed (rule up)
qed

lemma sortEnts_mset: "mset (sortEnts groups ents) = mset ents"
  by (simp add: sortEnts_def)

lemma sortEnts_sorted:
  "sorted_wrt (\<lambda>a b. groupRank groups (gid a) < groupRank groups (gid b) \<or> groupRank groups (gid a) = groupRank groups (gid b) \<and> e_txnum a \<le> e_txnum b) (sortEnts groups ents)"
proof (rule sorted_classes)
  have "sorted (map (\<lambda>e. groupRank groups (gid e)) (sortEnts groups ents))" by (simp add: sortEnts_def)
  then show "sorted_wrt (\<lambda>a b. groupRank groups (gid a) \<le> groupRank groups (gid b)) (sortEnts groups ents)" by (simp add: sorted_wrt_map)
  have "sorted (map e_txnum (sort_key e_txnum ents))" by simp
  then have "sorted_wrt (\<lambda>a b. e_txnum a \<le> e_txnum b) (sort_key e_txnum ents)" by (simp only: sorted_wrt_map)
  then show "\<forall>k. sorted_wrt (\<lambda>a b. e_txnum a \<le> e_txnum b) (filter (\<lambda>y. groupRank groups (gid y) = k) (sortEnts groups ents))"
    by (simp add: sortEnts_def sort_key_stable sorted_wrt_filter)
qed

definition ps_ok :: "postSet \<Rightarrow> bool" where
  "ps_ok p = (distinct (ps_groups p) \<and> (\<forall>g i. map_of (ps_ids p) g = Some i \<longleftrightarrow> i < length (ps_groups p) \<and> ps_groups p ! i = g) \<and>
     (\<forall>e \<in> set (ps_ents p). gid e < length (ps_groups p)))"

definition ps_posts :: "postSet \<Rightarrow> posting list" where
  "ps_posts p = map (ent_post (ps_groups p)) (ps_ents p)"

definition addAll :: "posting list \<Rightarrow> postSet \<Rightarrow> postSet" where
  "addAll = fold (\<lambda>e. ps_add (p_group e) (p_txnum e) (p_payload e))"

lemma ps_add_ok:
  assumes "ps_ok p"
  shows "ps_ok (ps_add g t v p) \<and> ps_posts (ps_add g t v p) = ps_posts p @ [\<lparr>p_group = g, p_txnum = t, p_payload = v\<rparr>]"
proof (cases "map_of (ps_ids p) g")
  case (Some i)
  have a: "ps_add g t v p = p\<lparr>ps_ents := ps_ents p @ [\<lparr>gid = i, e_payload = v, e_txnum = t\<rparr>]\<rparr>" by (simp add: ps_add_def Some)
  have "i < length (ps_groups p) \<and> ps_groups p ! i = g" using Some assms unfolding ps_ok_def by blast
  then show ?thesis using assms unfolding a by (simp add: ps_ok_def ps_posts_def ent_post_def)
next
  case None
  then have n: "g \<notin> set (ps_groups p)" using assms unfolding ps_ok_def by (metis in_set_conv_nth option.distinct(1))
  have old: "map (ent_post (ps_groups p @ [g])) (ps_ents p) = map (ent_post (ps_groups p)) (ps_ents p)"
    using assms by (simp add: ps_ok_def ent_post_def nth_append)
  have ids: "map_of (AList.update g (length (ps_groups p)) (ps_ids p)) g' = Some i \<longleftrightarrow>
      i < length (ps_groups p @ [g]) \<and> (ps_groups p @ [g]) ! i = g'" for g' i
    using assms n None by (auto simp: ps_ok_def update_conv' nth_append less_Suc_eq in_set_conv_nth)
  have a: "ps_add g t v p = p\<lparr>ps_groups := ps_groups p @ [g], ps_ids := AList.update g (length (ps_groups p)) (ps_ids p),
      ps_ents := ps_ents p @ [\<lparr>gid = length (ps_groups p), e_payload = v, e_txnum = t\<rparr>]\<rparr>" by (simp add: ps_add_def None)
  have "ps_ok (ps_add g t v p)" using assms n ids unfolding a by (simp add: ps_ok_def less_SucI)
  moreover have "ps_posts (ps_add g t v p) = ps_posts p @ [\<lparr>p_group = g, p_txnum = t, p_payload = v\<rparr>]"
    unfolding a by (simp add: ps_posts_def old) (simp add: ent_post_def)
  ultimately show ?thesis by blast
qed

lemma addAll_ok: "ps_ok p \<Longrightarrow> ps_ok (addAll posts p) \<and> ps_posts (addAll posts p) = ps_posts p @ posts"
proof (induction posts arbitrary: p)
  case (Cons e posts)
  then show ?case using ps_add_ok [OF Cons.prems, of "p_group e" "p_txnum e" "p_payload e"] by (simp add: addAll_def)
qed (simp add: addAll_def)

lemma payload_at_bit: "bit (payload_at es g t) i \<longleftrightarrow> (\<exists>e \<in> set es. at_key g t e \<and> bit (p_payload e) i)"
proof -
  have "bit (foldl (\<lambda>a e. a OR p_payload e) z xs) i \<longleftrightarrow> bit z i \<or> (\<exists>e \<in> set xs. bit (p_payload e) i)" for z xs
    by (induction xs arbitrary: z) (auto simp: bit_or_iff)
  from this [of 0 "filter (\<lambda>e. p_group e = g \<and> p_txnum e = t) es"] show ?thesis unfolding payload_at_def at_key_def by auto
qed

lemma merged_posts_cong:
  assumes "set es = set es'"
  shows "merged_posts es = merged_posts es'"
proof
  fix g
  have p: "payload_at es g t = payload_at es' g t" for t by (rule bit_eqI) (simp add: payload_at_bit assms)
  have "set (remdups (map p_txnum (filter (\<lambda>e. p_group e = g) es))) = set (remdups (map p_txnum (filter (\<lambda>e. p_group e = g) es')))"
    using assms by simp
  then have "sort (remdups (map p_txnum (filter (\<lambda>e. p_group e = g) es))) = sort (remdups (map p_txnum (filter (\<lambda>e. p_group e = g) es')))"
    by (intro sorted_distinct_set_unique) simp_all
  then show "merged_posts es g = merged_posts es' g" by (simp only: merged_posts_def p)
qed

lemma sortEnts_posts:
  assumes ok: "ps_ok p"
  shows "sorted_wrt post_le (map (ent_post (ps_groups p)) (sortEnts (ps_groups p) (ps_ents p)))"
    and "ents_sorted g t (sortEnts (ps_groups p) (ps_ents p)) \<longleftrightarrow> (\<forall>e \<in> set (ps_ents p). gid e = g \<longrightarrow> t \<le> e_txnum e)"
proof -
  let ?gs = "ps_groups p" and ?s = "sortEnts (ps_groups p) (ps_ents p)"
  have d: "distinct ?gs" and set_s: "set ?s = set (ps_ents p)" using ok mset_eq_setD [OF sortEnts_mset] by (auto simp: ps_ok_def)
  have b: "gid e < length ?gs" if "e \<in> set ?s" for e using ok that set_s by (simp add: ps_ok_def)
  have "sorted_wrt (\<lambda>a b. ?gs ! gid a < ?gs ! gid b \<or> gid a = gid b \<and> e_txnum a \<le> e_txnum b) ?s"
    by (rule sorted_wrt_mono_rel [OF _ sortEnts_sorted]) (use groupRank_less [OF d] b in blast)
  note s = this
  show "sorted_wrt post_le (map (ent_post ?gs) ?s)"
    unfolding sorted_wrt_map by (rule sorted_wrt_mono_rel [OF _ s]) (auto simp: post_le_def ent_post_def)
  have "sorted_wrt (\<lambda>a b. gid a = gid b \<longrightarrow> e_txnum a \<le> e_txnum b) ?s"
    by (rule sorted_wrt_mono_rel [OF _ s]) auto
  then show "ents_sorted g t ?s \<longleftrightarrow> (\<forall>e \<in> set (ps_ents p). gid e = g \<longrightarrow> t \<le> e_txnum e)"
    by (simp add: ents_sorted_def set_s)
qed

lemma chunks_posts:
  assumes fit: "\<forall>e \<in> set posts. fits e"
  shows "\<exists>rows. chunks (addAll posts emptyPostSet) = Inr rows \<and> (\<forall>kv \<in> set rows. good_row kv) \<and>
    sorted_wrt post_less (concat (map row_posts rows)) \<and> (\<forall>g. filter (\<lambda>e. p_group e = g) (concat (map row_posts rows)) = merged_posts posts g)"
proof -
  define p where "p = addAll posts emptyPostSet"
  have ok: "ps_ok p" "ps_posts p = posts" using addAll_ok [of emptyPostSet posts] by (simp_all add: p_def ps_ok_def emptyPostSet_def ps_posts_def)
  let ?gs = "ps_groups p" and ?s = "sortEnts (ps_groups p) (ps_ents p)"
  define es where "es = map (ent_post ?gs) ?s"
  have set_s: "set ?s = set (ps_ents p)" by (rule mset_eq_setD [OF sortEnts_mset])
  have set_es: "set es = set posts" using ok(2) set_s unfolding es_def ps_posts_def by (metis list.set_map)
  have srt: "sorted_wrt post_le es" using sortEnts_posts(1) [OF ok(1)] by (simp add: es_def)
  have e: "\<forall>e \<in> set ?s. gid e < length ?gs \<and> fits (ent_post ?gs e)"
    using ok(1) set_s set_es fit unfolding es_def by (auto simp: ps_ok_def)
  obtain rows where r: "chunks p = Inr rows" "\<forall>kv \<in> set rows. good_row kv" "concat (map row_posts rows) = squash es"
  proof (cases ?s)
    case Nil
    then show thesis using that [of "[]"] by (simp add: chunks_def es_def)
  next
    case (Cons a as)
    have "ents_sorted (gid a) (e_txnum a) as"
    proof -
      have "ents_sorted (gid a + length ?gs) 0 ?s" using sortEnts_posts(2) [OF ok(1)] by simp
      then show ?thesis unfolding Cons by (rule ents_sorted_Cons)
    qed
    moreover have "chunk_open ?gs (gid a) [e_txnum a] [e_payload a]" using e Cons by (intro chunk_open_one) (simp add: ent_post_def)
    moreover have "distinct ?gs" using ok(1) by (simp add: ps_ok_def)
    ultimately obtain rows where "chunkLoop ?gs (Some (gid a)) [e_txnum a] [e_payload a] as = Inr rows" "\<forall>kv \<in> set rows. good_row kv"
      "concat (map row_posts rows) = squash (open_posts (?gs ! gid a) [e_txnum a] [e_payload a] @ map (ent_post ?gs) as)"
      using chunkLoop_posts [of ?gs as "gid a" "[e_txnum a]" "[e_payload a]"] e Cons by auto
    then show thesis using that [of rows] Cons by (simp add: chunks_def es_def open_posts_def ent_post_def MaxEntries_def)
  qed
  moreover have "sorted_wrt post_less (squash es)" by (rule squash_sorted [OF srt])
  moreover have "filter (\<lambda>e. p_group e = g) (squash es) = merged_posts posts g" for g
    using squash_merged [OF srt, of g] merged_posts_cong [OF set_es] by simp
  ultimately show ?thesis unfolding p_def [symmetric] by (intro exI [of _ rows]) simp
qed

section \<open>A scan returns the merged entries\<close>

lemma sorted_wrt_concat: "sorted_wrt P (concat (map f rows)) \<Longrightarrow> sorted_wrt (\<lambda>a b. \<forall>x \<in> set (f a). \<forall>y \<in> set (f b). P x y) rows"
  by (induction rows) (auto simp: sorted_wrt_append)

lemma sorted_by_class:
  assumes "\<forall>k. sorted_wrt S (filter (\<lambda>y. f y = k) zs)"
  shows "sorted_wrt (\<lambda>a b. f a = f b \<longrightarrow> S a b) zs"
  using assms
proof (induction zs)
  case (Cons z zs)
  have "S z y" if "y \<in> set zs" "f z = f y" for y
    using Cons.prems [rule_format, of "f z"] that by (auto split: if_splits)
  moreover have "sorted_wrt S (filter (\<lambda>y. f y = k) zs)" for k
    using Cons.prems [rule_format, of k] by (simp split: if_splits)
  ultimately show ?case using Cons.IH by auto
qed simp

abbreviation row_group :: "row \<Rightarrow> bytes" where
  "row_group kv \<equiv> pfx (fst kv)"

lemma good_rowD:
  assumes "good_row kv"
  shows "chunk_row kv" and "\<forall>e \<in> set (row_posts kv). p_group e = row_group kv" and "fst kv = Suffixed (row_group kv) (TxNumOf (fst kv))"
    and "\<exists>e \<in> set (row_posts kv). p_txnum e = TxNumOf (fst kv)"
proof -
  let ?h = "hd (row_posts kv)"
  have k: "fst kv = Suffixed (p_group ?h) (p_txnum ?h)" and ne: "row_posts kv \<noteq> []"
    and es: "\<forall>e \<in> set (row_posts kv). p_group e = p_group ?h \<and> p_txnum ?h \<le> p_txnum e" and d: "\<exists>x. Decode (TxNumOf (fst kv)) (snd kv) = Inr x"
    using assms unfolding good_row_def by blast+
  have g: "row_group kv = p_group ?h" "TxNumOf (fst kv) = p_txnum ?h" unfolding k by simp_all
  show "chunk_row kv" using d es g(2) by (simp add: chunk_row_def)
  show "\<forall>e \<in> set (row_posts kv). p_group e = row_group kv" using es g(1) by simp
  show "fst kv = Suffixed (row_group kv) (TxNumOf (fst kv))" unfolding g by (rule k)
  show "\<exists>e \<in> set (row_posts kv). p_txnum e = TxNumOf (fst kv)" using ne g(2) by (intro bexI [of _ ?h]) simp_all
qed

lemma filter_posts_group:
  assumes "\<forall>kv \<in> set rows. good_row kv"
  shows "filter (\<lambda>e. p_group e = g) (concat (map (\<lambda>kv. filter Q (row_posts kv)) rows)) = filter Q (concat (map row_posts (filter (\<lambda>kv. row_group kv = g) rows)))"
  using assms
proof (induction rows)
  case (Cons kv rows)
  have "\<forall>e \<in> set (row_posts kv). p_group e = row_group kv" using good_rowD(2) Cons.prems by simp
  then have "filter (\<lambda>e. p_group e = g) (filter Q (row_posts kv)) = (if row_group kv = g then filter Q (row_posts kv) else [])"
    by (auto simp: filter_empty_conv intro: filter_cong)
  then show ?case using Cons by simp
qed simp

lemma rows_of_group:
  assumes good: "\<forall>kv \<in> set rows. good_row kv" and srt: "sorted_wrt post_less (concat (map row_posts rows))"
  shows "sorted_wrt (<) (map fst (filter (\<lambda>kv. row_group kv = g) rows))" and "sorted_wrt chunks_apart (filter (\<lambda>kv. row_group kv = g) rows)"
proof -
  let ?f = "filter (\<lambda>kv. row_group kv = g) rows"
  have s: "sorted_wrt (\<lambda>a b. \<forall>x \<in> set (row_posts a). \<forall>y \<in> set (row_posts b). post_less x y) ?f" by (intro sorted_wrt_filter sorted_wrt_concat srt)
  have ap: "\<forall>e \<in> set (row_posts a). p_txnum e < TxNumOf (fst b)"
    if ab: "\<forall>x \<in> set (row_posts a). \<forall>y \<in> set (row_posts b). post_less x y" "a \<in> set ?f" "b \<in> set ?f" for a b
  proof -
    have gd: "good_row a" "good_row b" "row_group a = g" "row_group b = g" using good ab(2,3) by auto
    obtain y where "y \<in> set (row_posts b)" "p_txnum y = TxNumOf (fst b)" using good_rowD(4) [OF gd(2)] by blast
    moreover have "\<forall>e \<in> set (row_posts a). p_group e = g" "\<forall>e \<in> set (row_posts b). p_group e = g"
      using good_rowD(2) [OF gd(1)] good_rowD(2) [OF gd(2)] gd(3,4) by simp_all
    ultimately show ?thesis using ab(1) by (fastforce simp: post_less_def)
  qed
  show "sorted_wrt chunks_apart ?f" by (rule sorted_wrt_mono_rel [OF _ s]) (simp add: chunks_apart_def ap)
  have "fst a < fst b" if ab: "\<forall>x \<in> set (row_posts a). \<forall>y \<in> set (row_posts b). post_less x y" "a \<in> set ?f" "b \<in> set ?f" for a b
  proof -
    have gd: "good_row a" "good_row b" "row_group a = g" "row_group b = g" using good ab(2,3) by auto
    obtain x where "x \<in> set (row_posts a)" "p_txnum x = TxNumOf (fst a)" using good_rowD(4) [OF gd(1)] by blast
    then have "TxNumOf (fst a) < TxNumOf (fst b)" using ap [OF ab] by auto
    then have "Suffixed g (TxNumOf (fst a)) < Suffixed g (TxNumOf (fst b))" by simp
    then show ?thesis using good_rowD(3) [OF gd(1)] good_rowD(3) [OF gd(2)] unfolding gd(3,4) by (simp only:)
  qed
  then show "sorted_wrt (<) (map fst ?f)" unfolding sorted_wrt_map by (intro sorted_wrt_mono_rel [OF _ s]) blast
qed

lemma scan_posts:
  assumes rows: "\<forall>kv \<in> set rows. good_row kv" "sorted_wrt post_less (concat (map row_posts rows))"
    "\<And>g. filter (\<lambda>e. p_group e = g) (concat (map row_posts rows)) = merged_posts posts g"
    and ok: "sec_ok T 2 r" and same: "\<forall>kv. HasPrefix (fst kv) p \<longrightarrow> (kv \<in> set (sec_rows 2 r) \<longleftrightarrow> kv \<in> set rows)"
    and p: "\<forall>kv \<in> set rows. HasPrefix (fst kv) p \<longrightarrow> HasPrefix (row_group kv) p"
  shows "\<exists>es. ScanChunks T r p lo hi = Inr es \<and> (\<forall>e \<in> set es. HasPrefix (p_group e) p) \<and>
    (\<forall>g. HasPrefix g p \<longrightarrow> filter (\<lambda>e. p_group e = g) es = filter (within lo hi) (merged_posts posts g))"
proof -
  define secs where "secs = filter (\<lambda>kv. HasPrefix (fst kv) p) (sec_rows 2 r)"
  have mem: "kv \<in> set secs \<longleftrightarrow> kv \<in> set rows \<and> HasPrefix (fst kv) p" for kv using same unfolding secs_def set_filter by blast
  have good: "\<forall>kv \<in> set secs. good_row kv" using rows(1) mem by blast
  have ss: "sorted_wrt (<) (map fst secs)" using ok by (simp add: sec_ok_def secs_def sorted_wrt_map sorted_wrt_filter)
  have up: "HasPrefix (fst kv) p" if "kv \<in> set rows" "HasPrefix (row_group kv) p" for kv
  proof -
    have "fst kv = Suffixed (row_group kv) (TxNumOf (fst kv))" using good_rowD(3) rows(1) that(1) by blast
    then show ?thesis using HasPrefix_Suffixed [OF that(2)] by metis
  qed
  have cls: "filter (\<lambda>kv. row_group kv = g) secs = filter (\<lambda>kv. row_group kv = g) rows" if g: "HasPrefix g p" for g
  proof (rule sorted_rows_unique)
    show "sorted_wrt (<) (map fst (filter (\<lambda>kv. row_group kv = g) secs))" using ss by (simp add: sorted_wrt_map sorted_wrt_filter)
    show "set (filter (\<lambda>kv. row_group kv = g) secs) = set (filter (\<lambda>kv. row_group kv = g) rows)" using mem up g by auto
  qed (rule rows_of_group(1) [OF rows(1,2)])
  have none: "filter (\<lambda>kv. row_group kv = g) secs = []" if "\<not> HasPrefix g p" for g using that mem p by (auto simp: filter_empty_conv)
  have "\<forall>g. sorted_wrt chunks_apart (filter (\<lambda>kv. row_group kv = g) secs)" using cls none rows_of_group(2) [OF rows(1,2)] by (metis (lifting) sorted_wrt.simps(1))
  then have "sorted_wrt (\<lambda>a b. row_group a = row_group b \<longrightarrow> chunks_apart a b) secs" by (rule sorted_by_class)
  then have "sorted_wrt chunks_apart secs" by (rule sorted_wrt_mono_rel [rotated]) (auto simp: chunks_apart_def)
  then have ch: "chunk_rows secs" using good good_rowD(1) by (auto simp: chunk_rows_def)
  have len: "\<forall>kv \<in> set secs. length (fst kv) \<ge> length p + 8"
  proof
    fix kv assume kv: "kv \<in> set secs"
    then have "length p \<le> length (row_group kv)" using mem p by (intro HasPrefix_length) blast
    moreover have "fst kv = Suffixed (row_group kv) (TxNumOf (fst kv))" using good_rowD(3) good kv by blast
    then have "length (fst kv) = length (row_group kv) + 8" using key_lengths(2) by metis
    ultimately show "length (fst kv) \<ge> length p + 8" by simp
  qed
  let ?es = "concat (map (\<lambda>kv. filter (within lo hi) (row_posts kv)) secs)"
  have "ScanChunks T r p lo hi = Inr ?es" by (rule ScanChunks_reference [OF ok secs_def len ch])
  moreover have "filter (\<lambda>e. p_group e = g) ?es = filter (within lo hi) (merged_posts posts g)" if "HasPrefix g p" for g
    using filter_posts_group [OF good, of g "within lo hi"] filter_posts_group [OF rows(1), of g "\<lambda>_. True"] cls [OF that] rows(3) [of g] by simp
  moreover have "\<forall>e \<in> set ?es. HasPrefix (p_group e) p" using good_rowD(2) good mem p by fastforce
  ultimately show ?thesis by blast
qed

lemma Suffixed_prefix:
  assumes "HasPrefix (Suffixed g n) p" and "HasPrefix p g \<longrightarrow> p = g"
  shows "HasPrefix g p"
proof (cases "length p \<le> length g")
  case True
  then show ?thesis using assms(1) by (simp add: HasPrefix_def Suffixed_def)
next
  case False
  then have "HasPrefix p g" using assms(1) by (metis HasPrefix_def HasPrefix_append HasPrefix_take Suffixed_def linear)
  then show ?thesis using assms(2) False by simp
qed

lemma row_group_of_post:
  assumes "good_row kv" and "kv \<in> set rows" and "\<And>g. filter (\<lambda>e. p_group e = g) (concat (map row_posts rows)) = merged_posts posts g"
  shows "\<exists>e \<in> set posts. p_group e = row_group kv"
proof -
  obtain e where e: "e \<in> set (row_posts kv)" using good_rowD(4) [OF assms(1)] by blast
  have "p_group e = row_group kv" using good_rowD(2) [OF assms(1)] e by blast
  then have "e \<in> set (merged_posts posts (row_group kv))" using assms(2) e unfolding assms(3) [symmetric] by auto
  then show ?thesis by (auto simp: merged_posts_def)
qed

text \<open>
  C6. The posting index loses nothing.  Whatever entries a window holds, cutting them into chunks
  succeeds; and in a run whose lookup section holds those chunks, a scan under a group or under any
  shorter prefix, over any TxNum range, returns for every group exactly its entries in the range, one per
  TxNum in ascending order with the payloads of repeated entries OR-ed, although the scan skips the chunks
  that cannot reach the range and asks the bloom filter first.
\<close>

theorem postings_scan:
  assumes "\<forall>e \<in> set posts. fits e" and "\<forall>e \<in> set posts. HasPrefix p (p_group e) \<longrightarrow> p = p_group e"
  shows "\<exists>rows. chunks (addAll posts emptyPostSet) = Inr rows \<and>
    (\<forall>r lo hi. sec_ok T 2 r \<longrightarrow> (\<forall>kv. HasPrefix (fst kv) p \<longrightarrow> (kv \<in> set (sec_rows 2 r) \<longleftrightarrow> kv \<in> set rows)) \<longrightarrow>
      (\<exists>es. ScanChunks T r p lo hi = Inr es \<and> (\<forall>e \<in> set es. HasPrefix (p_group e) p) \<and>
        (\<forall>g. HasPrefix g p \<longrightarrow> filter (\<lambda>e. p_group e = g) es = filter (within lo hi) (merged_posts posts g))))"
proof -
  obtain rows where r: "chunks (addAll posts emptyPostSet) = Inr rows" "\<forall>kv \<in> set rows. good_row kv"
    "sorted_wrt post_less (concat (map row_posts rows))" "\<And>g. filter (\<lambda>e. p_group e = g) (concat (map row_posts rows)) = merged_posts posts g"
    using chunks_posts [OF assms(1)] by blast
  have "\<forall>kv \<in> set rows. HasPrefix (fst kv) p \<longrightarrow> HasPrefix (row_group kv) p"
  proof (intro ballI impI)
    fix kv assume kv: "kv \<in> set rows" "HasPrefix (fst kv) p"
    have g: "good_row kv" using r(2) kv(1) by blast
    have "HasPrefix p (row_group kv) \<longrightarrow> p = row_group kv" using row_group_of_post [OF g kv(1) r(4)] assms(2) by metis
    then show "HasPrefix (row_group kv) p" using Suffixed_prefix kv(2) good_rowD(3) [OF g] by metis
  qed
  then show ?thesis using r(1) scan_posts [OF r(2-4)] by blast
qed

theorem postings_scan_witness:
  "\<exists>r es. ScanChunks toy_sst r (AddrPrefix (replicate 20 0)) 4 9 = Inr es \<and> map (\<lambda>e. (p_txnum e, p_payload e)) (filter (\<lambda>e. p_group e = AddrPrefix (replicate 20 0)) es) = [(5, 5)]"
proof -
  let ?g = "AddrPrefix (replicate 20 0)"
  define posts :: "posting list" where "posts = [\<lparr>p_group = ?g, p_txnum = 5, p_payload = 1\<rparr>, \<lparr>p_group = ?g, p_txnum = 3, p_payload = 2\<rparr>, \<lparr>p_group = ?g, p_txnum = 5, p_payload = 4\<rparr>]"
  have fit: "\<forall>e \<in> set posts. fits e" by (simp add: posts_def fits_def PayloadBits_def AddrPrefix_def join_def)
  obtain rows where r: "chunks (addAll posts emptyPostSet) = Inr rows" "\<forall>kv \<in> set rows. good_row kv"
    "sorted_wrt post_less (concat (map row_posts rows))" "\<And>g. filter (\<lambda>e. p_group e = g) (concat (map row_posts rows)) = merged_posts posts g"
    using chunks_posts [OF fit] by blast
  have all: "row_group kv = ?g" if "kv \<in> set rows" for kv
    using row_group_of_post [OF _ that r(4)] r(2) that by (auto simp: posts_def)
  then have "filter (\<lambda>kv. row_group kv = ?g) rows = rows" by (simp add: filter_id_conv)
  then have "sorted_wrt (<) (map fst rows)" using rows_of_group(1) [OF r(2,3), of ?g] by simp
  define run where "run = plain_run 0 9 [[], [], rows]"
  have sr: "sec_rows 2 run = rows" by (simp add: run_def plain_run_def sec_rows_def)
  have sec: "sec_ok toy_sst 2 run"
    using \<open>sorted_wrt (<) (map fst rows)\<close> unfolding sec_ok_def sr by (simp add: run_def plain_run_def MayHave_def mayContain_def)
  have p: "\<forall>e \<in> set posts. HasPrefix ?g (p_group e) \<longrightarrow> ?g = p_group e" by (simp add: posts_def)
  have "\<forall>r lo hi. sec_ok toy_sst 2 r \<longrightarrow> (\<forall>kv. HasPrefix (fst kv) ?g \<longrightarrow> (kv \<in> set (sec_rows 2 r) \<longleftrightarrow> kv \<in> set rows)) \<longrightarrow>
      (\<exists>es. ScanChunks toy_sst r ?g lo hi = Inr es \<and> (\<forall>e \<in> set es. HasPrefix (p_group e) ?g) \<and>
        (\<forall>g. HasPrefix g ?g \<longrightarrow> filter (\<lambda>e. p_group e = g) es = filter (within lo hi) (merged_posts posts g)))"
    using postings_scan [OF fit p, of toy_sst] unfolding r(1) by blast
  from this [rule_format, OF sec, of 4 9] obtain es where es: "ScanChunks toy_sst run ?g 4 9 = Inr es"
    "filter (\<lambda>e. p_group e = ?g) es = filter (within 4 9) (merged_posts posts ?g)"
    unfolding sr using HasPrefix_append [of ?g "[]"] by auto
  have "filter (within 4 9) (merged_posts posts ?g) = [\<lparr>p_group = ?g, p_txnum = 5, p_payload = 5\<rparr>]"
    by (simp add: merged_posts_def posts_def payload_at_def within_def)
  then show ?thesis using es by (intro exI [of _ run] exI [of _ es]) simp
qed

lemma takeWhile_prefix:
  "takeWhile (\<lambda>kv. HasPrefix (fst kv) p) (filter (\<lambda>kv. HasPrefix (fst kv) p) rows @ filter (\<lambda>kv. p < fst kv \<and> \<not> HasPrefix (fst kv) p) rows')
     = filter (\<lambda>kv. HasPrefix (fst kv) p) (rows :: row list)"
proof -
  have tw: "takeWhile (\<lambda>kv. HasPrefix (fst kv) p) (xs @ ys) = xs" if "\<forall>x \<in> set xs. HasPrefix (fst x) p" "\<forall>y \<in> set ys. \<not> HasPrefix (fst y) p" for xs ys :: "row list"
    using that by (induction xs) (simp_all add: takeWhile_eq_Nil_iff, cases ys, auto)
  show ?thesis by (rule tw) simp_all
qed

lemma split_set_family: "HasPrefix k PrefixSet \<Longrightarrow> split k = (if length k \<ge> setSplit + 20 then setSplit else length k)"
proof -
  assume "HasPrefix k PrefixSet"
  then obtain x where "k = PrefixSet @ x" by (auto simp: HasPrefix_iff)
  then show ?thesis by (simp add: split_def)
qed

text \<open>A scan of a set prefix returns the keys that start with it, in key order, asked through the bloom filter or not.\<close>

lemma ScanSet_reference:
  assumes ok: "sec_ok T 2 r" and pre: "HasPrefix p PrefixSet"
    and len: "\<forall>kv \<in> set (sec_rows 2 r). HasPrefix (fst kv) p \<longrightarrow> length (fst kv) \<ge> setSplit + 20"
  shows "ScanSet T r p = filter (\<lambda>k. HasPrefix k p) (map fst (sec_rows 2 r))"
proof -
  have s: "sorted_wrt (<) (map fst (sec_rows 2 r))" using ok by (simp add: sec_ok_def)
  show ?thesis
  proof (cases "length p \<ge> setSplit \<and> \<not> MayHave T r 2 (take setSplit p)")
    case True
    have "\<not> HasPrefix (fst kv) p" if kv: "kv \<in> set (sec_rows 2 r)" for kv
    proof
      assume h: "HasPrefix (fst kv) p"
      then obtain x where x: "fst kv = p @ x" by (auto simp: HasPrefix_iff)
      have l: "length (fst kv) \<ge> setSplit + 20" using len kv h by blast
      have ps: "HasPrefix (fst kv) PrefixSet" using pre unfolding x by (auto simp: HasPrefix_iff)
      have "bloom_prefix (fst kv) = take setSplit (fst kv)"
        using split_set_family [OF ps] l by (simp add: bloom_prefix_def)
      moreover have "HasPrefix (take setSplit p) PrefixSet" using pre True by (auto simp: HasPrefix_iff setSplit_def)
      then have "bloom_prefix (take setSplit p) = take setSplit p" using split_set_family True by (simp add: bloom_prefix_def)
      ultimately have "bloom_prefix (fst kv) = bloom_prefix (take setSplit p)" using True by (simp add: x)
      then show False using ok kv True MayHave_bloom [of "fst kv" "take setSplit p" T r 2] by (auto simp: sec_ok_def)
    qed
    then show ?thesis using True by (auto simp: ScanSet_def filter_empty_conv)
  next
    case False
    have "ScanSet T r p = map fst (takeWhile (\<lambda>kv. HasPrefix (fst kv) p) (dropWhile (\<lambda>kv. fst kv < p) (sec_rows 2 r)))"
      by (simp only: ScanSet_def False if_False)
    then show ?thesis by (simp only: seek_prefix [OF s] takeWhile_prefix filter_map comp_def)
  qed
qed

end
