(* ===== verification/Window.thy ===== *)
theory Window
  imports Postings Recover
begin

text \<open>
  What a cut writes: \<^verbatim>\<open>writeSections\<close> of \<^verbatim>\<open>src/store/db.go\<close>, which streams the frozen window into the three sections
  of an L0 run, and the correspondence of the written sections with the window.
\<close>

section \<open>Writing the sections\<close>

fun chainLoop :: "fam list \<Rightarrow> memtable \<Rightarrow> RunWriter \<Rightarrow> memtable \<times> RunWriter res" where
  "chainLoop [] m w = (m, Inr w)"
| "chainLoop (f # fs) m w =
     (case eachChain f m of
        (m, Inl e) \<Rightarrow> (m, Inl e)
      | (m, Inr rows) \<Rightarrow>
          (case setRows (map (\<lambda>(n, v). (numKey (famPrefix f) n, v)) rows) w of
             Inl e \<Rightarrow> (m, Inl e)
           | Inr w \<Rightarrow> chainLoop fs m w))"

definition codeRows :: "memtable \<Rightarrow> row list" where
  "codeRows m = map (\<lambda>h. (CodeKey h, case map_of (mcode m) h of None \<Rightarrow> [] | Some b \<Rightarrow> b)) (sort (map fst (mcode m)))"

definition histRows :: "memtable \<Rightarrow> row list" where
  "histRows m = concat (map (\<lambda>p. map (\<lambda>(n, v). (Suffixed p n, v)) (case map_of (mstate m) p of None \<Rightarrow> [] | Some h \<Rightarrow> h)) (sort (map fst (mstate m))))"

definition sortKV :: "row list \<Rightarrow> row list" where
  "sortKV rows = sort_key fst rows"

definition lookupRows :: "memtable \<Rightarrow> row list res" where
  "lookupRows m =
     (case chunks (addAll (mpost m) emptyPostSet) of
        Inl e \<Rightarrow> Inl e
      | Inr rows \<Rightarrow> Inr (sortKV (rows @ map (\<lambda>(k, n). (k, beU64 n)) (mnums m) @ map (\<lambda>k. (k, [])) (msets m))))"

definition writeSections :: "sst_lib \<Rightarrow> memtable \<Rightarrow> RunWriter \<Rightarrow> memtable \<times> RunWriter res" where
  "writeSections T m w =
     (case Begin 0 w of Inl e \<Rightarrow> (m, Inl e) | Inr w \<Rightarrow>
      case chainLoop allFams m w of (m, Inl e) \<Rightarrow> (m, Inl e) | (m, Inr w) \<Rightarrow>
      (m, case End T w of Inl e \<Rightarrow> Inl e | Inr w \<Rightarrow>
          case Begin 1 w of Inl e \<Rightarrow> Inl e | Inr w \<Rightarrow>
          case setRows (codeRows m) w of Inl e \<Rightarrow> Inl e | Inr w \<Rightarrow>
          case setRows (histRows m) w of Inl e \<Rightarrow> Inl e | Inr w \<Rightarrow>
          case End T w of Inl e \<Rightarrow> Inl e | Inr w \<Rightarrow>
          case Begin 2 w of Inl e \<Rightarrow> Inl e | Inr w \<Rightarrow>
          case lookupRows m of Inl e \<Rightarrow> Inl e | Inr rows \<Rightarrow>
          case setRows rows w of Inl e \<Rightarrow> Inl e | Inr w \<Rightarrow> End T w))"

section \<open>The sections of a window\<close>

definition stateRows :: "memtable \<Rightarrow> row list" where
  "stateRows m = codeRows m @ histRows m"

lemma setRows_append: "setRows (as @ bs) w = (case setRows as w of Inl e \<Rightarrow> Inl e | Inr w \<Rightarrow> setRows bs w)"
  by (induction as arbitrary: w) (auto split: sum.split)

lemma flushLocked_frame [simp]:
  "mstate (flushLocked m) = mstate m" "mcode (flushLocked m) = mcode m" "mnums (flushLocked m) = mnums m"
  "mpost (flushLocked m) = mpost m" "msets (flushLocked m) = msets m" "chain (flushLocked m) = chain m"
  "baseTx (flushLocked m) = baseTx m" "nextTx (flushLocked m) = nextTx m" "baseHeight (flushLocked m) = baseHeight m"
  "nextHeight (flushLocked m) = nextHeight m" "started (flushLocked m) = started m" "log (flushLocked m) = log m"
  by (simp_all add: flushLocked_def bw_Flush_def log_def)

lemma flushLocked_idem [simp]: "flushLocked (flushLocked m) = flushLocked m"
  by (simp add: flushLocked_def bw_Flush_def)

lemma chainLoop_mem:
  assumes "fs \<noteq> []"
  shows "fst (chainLoop fs m w) = flushLocked m"
  using assms
proof (induction fs arbitrary: m w)
  case (Cons f fs)
  have "fst (chainLoop fs (flushLocked m) w') = flushLocked m" for w' using Cons.IH [of "flushLocked m" w'] by (cases fs) auto
  then show ?case by (auto simp: eachChain_def Let_def split: sum.split)
qed simp

lemma chainLoop_rows:
  assumes "chainLoop fs m w = (m', Inr w')"
  shows "\<exists>rows. setRows rows w = Inr w'"
  using assms
proof (induction fs arbitrary: m w)
  case Nil
  then show ?case by (intro exI [of _ "[]"]) simp
next
  case (Cons f fs)
  obtain m1 rows w1 where e: "eachChain f m = (m1, Inr rows)" "setRows (map (\<lambda>(n, v). (numKey (famPrefix f) n, v)) rows) w = Inr w1" "chainLoop fs m1 w1 = (m', Inr w')"
    using Cons.prems by (auto split: prod.splits sum.splits)
  then obtain rest where "setRows rest w1 = Inr w'" using Cons.IH by blast
  then show ?case using e(2) by (intro exI [of _ "map (\<lambda>(n, v). (numKey (famPrefix f) n, v)) rows @ rest"]) (simp add: setRows_append)
qed

lemma writeSections_rows:
  assumes "writeSections T m w = (m', Inr w')"
  shows "m' = flushLocked m" and "\<exists>ch lk. writeRun T [ch, stateRows m, lk] w = Inr w' \<and> lookupRows m = Inr lk"
proof -
  obtain w1 where w1: "Begin 0 w = Inr w1" using assms by (auto simp: writeSections_def split: sum.splits)
  obtain m2 w2 where w2: "chainLoop allFams m w1 = (m2, Inr w2)" using assms w1 by (auto simp: writeSections_def split: sum.splits prod.splits)
  have m2: "m2 = flushLocked m" using chainLoop_mem [of allFams m w1] w2 by (simp add: allFams_def)
  show "m' = flushLocked m" using assms w1 w2 m2 by (auto simp: writeSections_def split: sum.splits)
  have rows: "lookupRows m2 = lookupRows m" "codeRows m2 @ histRows m2 = stateRows m"
    unfolding m2 lookupRows_def stateRows_def codeRows_def histRows_def flushLocked_frame by (rule refl)+
  obtain ch where ch: "setRows ch w1 = Inr w2" using chainLoop_rows [OF w2] by blast
  obtain lk where lk: "lookupRows m2 = Inr lk" using assms w1 w2 by (auto simp: writeSections_def split: sum.splits)
  have "writeRun T [ch, codeRows m2 @ histRows m2, lk] w = Inr w'"
    using assms w1 w2 ch lk by (auto simp: writeSections_def writeRun_def writeSection_def setRows_append split: sum.split_asm)
  then have "writeRun T [ch, stateRows m, lk] w = Inr w' \<and> lookupRows m = Inr lk" using lk unfolding rows by blast
  then show "\<exists>ch lk. writeRun T [ch, stateRows m, lk] w = Inr w' \<and> lookupRows m = Inr lk" by blast
qed

lemma writeSection_sorted:
  assumes T: "sst_laws T" and "writeSection T s rows w = Inr w'"
  shows "sorted_wrt (<) (map fst rows)"
proof -
  obtain w1 where w1: "Begin s w = Inr w1" using assms(2) by (auto simp: writeSection_def split: sum.splits)
  then have "w_sst w1 = Some []" by (auto simp: Begin_def split: if_splits)
  then obtain ns bs where r: "setRows rows w1 = Inr (w1\<lparr>w_sst := Some rows, w_Rows := ns, w_Bytes := bs\<rparr>)" using setRows_sst [of w1 "[]" rows] by auto
  have "End T (w1\<lparr>w_sst := Some rows, w_Rows := ns, w_Bytes := bs\<rparr>) = Inr w'" using assms(2) w1 r by (simp add: writeSection_def)
  then have "sst_write T (nat (w_cur w1)) (w_level w1) rows \<noteq> None" by (auto simp: End_def Let_def split: option.splits)
  then show ?thesis using sst_lawsD(2) [OF T] by blast
qed

lemma writeRun_sorted:
  assumes T: "sst_laws T" and "writeRun T [a, b, c] w = Inr w'"
  shows "\<forall>rs \<in> set [a, b, c]. sorted_wrt (<) (map fst rs)"
  using assms(2) writeSection_sorted [OF T] by (auto simp: writeRun_def split: sum.splits)

section \<open>Histories\<close>

text \<open>\<open>putState\<close> on the map of histories, and a block's state rows in the order they are written.\<close>

type_synonym state_put = "bytes \<times> u64 \<times> bytes"

definition put_hist :: "u64 \<Rightarrow> bytes \<Rightarrow> history \<Rightarrow> history" where
  "put_hist n v h = (if h \<noteq> [] \<and> fst (last h) = n then butlast h @ [(n, v)] else h @ [(n, v)])"

definition put_st :: "state_put \<Rightarrow> (bytes \<times> history) list \<Rightarrow> (bytes \<times> history) list" where
  "put_st x st = (case x of (k, n, v) \<Rightarrow> AList.update k (put_hist n v (case map_of st k of None \<Rightarrow> [] | Some h \<Rightarrow> h)) st)"

definition puts :: "state_put list \<Rightarrow> bytes \<Rightarrow> history \<Rightarrow> history" where
  "puts xs p h = fold (\<lambda>(k, n, v) h. if k = p then put_hist n v h else h) xs h"

definition row_put :: "u64 \<Rightarrow> StateRow \<Rightarrow> state_put" where
  "row_put n r = (stateKeyPrefix r, n, Val r)"

definition block_puts :: "u64 \<Rightarrow> BlockWrite \<Rightarrow> state_put list" where
  "block_puts first b = concat (map (\<lambda>(n, t). map (row_put n) (TxState t)) (numbered first (Txs b))) @
     map (row_put (first + of_nat (length (Txs b)))) (Tail b)"

lemma puts_append: "puts (xs @ ys) p h = puts ys p (puts xs p h)"
  by (simp add: puts_def)

lemma hist_put_st: "(case map_of (fold put_st xs st) p of None \<Rightarrow> [] | Some h \<Rightarrow> h) = puts xs p (case map_of st p of None \<Rightarrow> [] | Some h \<Rightarrow> h)"
proof (induction xs arbitrary: st)
  case (Cons x xs)
  obtain k n v where x: "x = (k, n, v)" by (cases x) auto
  have "(case map_of (put_st x st) p of None \<Rightarrow> [] | Some h \<Rightarrow> h) = (if k = p then put_hist n v (case map_of st p of None \<Rightarrow> [] | Some h \<Rightarrow> h) else (case map_of st p of None \<Rightarrow> [] | Some h \<Rightarrow> h))"
    by (simp add: x put_st_def update_conv')
  then show ?case using Cons.IH [of "put_st x st"] by (simp add: puts_def x)
qed (simp add: puts_def)

text \<open>An operation whose effect on the histories is a list of puts, and that leaves the window ends alone.\<close>

definition putting :: "state_put list \<Rightarrow> (memtable \<Rightarrow> mres) \<Rightarrow> bool" where
  "putting xs g = (\<forall>m m'. g m = (m', None) \<longrightarrow> mstate m' = fold put_st xs (mstate m) \<and> baseTx m' = baseTx m \<and> nextTx m' = nextTx m)"

lemma putting_seq:
  assumes "putting xs g" and "putting ys k"
  shows "putting (xs @ ys) (\<lambda>m. and_then (g m) k)"
proof -
  have "\<exists>m1. g m = (m1, None) \<and> k m1 = (m', None)" if "and_then (g m) k = (m', None)" for m m'
    using that by (cases "g m"; cases "snd (g m)") auto
  then show ?thesis using assms unfolding putting_def by fastforce
qed

lemma putting_for_each:
  assumes "\<And>x. x \<in> set xs \<Longrightarrow> putting (f x) (g x)"
  shows "putting (concat (map f xs)) (for_each g xs)"
  using assms
proof (induction xs)
  case Nil
  then show ?case by (simp add: putting_def)
next
  case (Cons x xs)
  then have "putting (f x @ concat (map f xs)) (\<lambda>m. and_then (g x m) (for_each g xs))" by (intro putting_seq) simp_all
  moreover have "for_each g (x # xs) = (\<lambda>m. and_then (g x m) (for_each g xs))" by (rule ext) simp
  ultimately show ?case by simp
qed

lemma putting_none:
  assumes "\<And>x. x \<in> set xs \<Longrightarrow> putting [] (g x)"
  shows "putting [] (for_each g xs)"
proof -
  have "concat (map (\<lambda>_. [] :: state_put list) ys) = []" for ys :: "'x list" by (induction ys) simp_all
  with putting_for_each [of xs "\<lambda>_. []" g] assms show ?thesis by (metis (no_types))
qed

lemma bw_Write_state [simp]: "mstate (bw_Write p m) = mstate m" "baseTx (bw_Write p m) = baseTx m" "nextTx (bw_Write p m) = nextTx m"
  by (simp_all add: bw_Write_def Let_def)

lemma write_rec_state [simp]:
  "mstate (fst (write_rec k n pl m)) = mstate m" "baseTx (fst (write_rec k n pl m)) = baseTx m" "nextTx (fst (write_rec k n pl m)) = nextTx m"
proof -
  have "mstate (fold bw_Write pl z) = mstate z \<and> baseTx (fold bw_Write pl z) = baseTx z \<and> nextTx (fold bw_Write pl z) = nextTx z" for z
    by (induction pl arbitrary: z) simp_all
  then show "mstate (fst (write_rec k n pl m)) = mstate m" "baseTx (fst (write_rec k n pl m)) = baseTx m" "nextTx (fst (write_rec k n pl m)) = nextTx m"
    by (simp_all add: write_rec_def Let_def)
qed

lemma putState_state: "mstate (putState k n v m) = put_st (k, n, v) (mstate m)" "baseTx (putState k n v m) = baseTx m" "nextTx (putState k n v m) = nextTx m"
  by (simp_all add: putState_def put_st_def put_hist_def Let_def)

lemma putting_rows:
  "putting [] (chainRow f num val)" "putting [] (numRow key num)" "putting [] (postRow g num pl)" "putting [] (setRow num k)"
  "putting [] (codeRow hb)" "putting [row_put n r] (stateRow n r)"
  by (auto simp: putting_def chainRow_def numRow_def postRow_def setRow_def codeRow_def stateRow_def row_put_def Let_def setChain_def putState_state case_prod_unfold)

lemma putting_cidRow: "putting [] (cidRow R H b)"
  using putting_rows(2) by (auto simp: putting_def cidRow_def split: sum.splits)

lemma putting_seq_none: "putting [] g \<Longrightarrow> putting ys k \<Longrightarrow> putting ys (\<lambda>m. and_then (g m) k)"
  using putting_seq [of "[]" g ys k] by simp

lemma putting_state_rows: "putting (map (row_put n) rs) (for_each (stateRow n) rs)"
  using putting_for_each [of rs "\<lambda>r. [row_put n r]" "stateRow n"] putting_rows(6) by (simp add: concat_map_singleton)

lemma putting_txRows: "putting (map (row_put (fst nt)) (TxState (snd nt))) (txRows nt)"
  unfolding txRows_def Let_def
  by (intro putting_seq_none putting_state_rows putting_rows putting_none)

lemma putting_blockRows:
  assumes "blockRows R H b m = (m', None)"
  shows "mstate m' = fold put_st (block_puts (nextTx m) b) (mstate m)" and "baseTx m' = baseTx m" and "nextTx m' = nextTx m"
proof -
  let ?first = "nextTx m" and ?tail = "nextTx m + of_nat (length (Txs b))"
  have "putting (block_puts ?first b) (\<lambda>m'. and_then (and_then (and_then (and_then (and_then (and_then (and_then (chainRow FamBlk (Height b) (blkVal ?first b) m')
        (chainRow FamHdr (Height b) (HeaderRLP b)))
        (chainRow FamPvm (Height b) (Pvm b)))
        (numRow (BlkHashKey (Keccak256 H (HeaderRLP b))) (Height b)))
        (cidRow R H b))
        (for_each codeRow (Code b)))
        (for_each txRows (numbered ?first (Txs b))))
        (for_each (stateRow ?tail) (Tail b)))"
    unfolding block_puts_def case_prod_unfold
    by (intro putting_seq putting_seq_none putting_state_rows putting_rows putting_cidRow putting_none putting_for_each putting_txRows)
  then show "mstate m' = fold put_st (block_puts (nextTx m) b) (mstate m)" "baseTx m' = baseTx m" "nextTx m' = nextTx m"
    using assms unfolding putting_def blockRows_def Let_def by blast+
qed

section \<open>Well-formed windows\<close>

definition state_prefix :: "bytes \<Rightarrow> bool" where
  "state_prefix p = (\<exists>addr. length addr = 20 \<and> (p = AccountPrefix addr \<or> p = CodeRefPrefix addr \<or> (\<exists>slot. length slot = 32 \<and> p = SlotPrefix addr slot)))"

definition wf_row :: "StateRow \<Rightarrow> bool" where
  "wf_row r = (length (Addr r) = 20 \<and> (Kind r = of_char (CHR ''a'') \<or> Kind r = of_char (CHR ''c'') \<or> length (Slot r) = 32))"

definition wf_block :: "BlockWrite \<Rightarrow> bool" where
  "wf_block b = ((\<forall>t \<in> set (Txs b). \<forall>r \<in> set (TxState t). wf_row r) \<and> (\<forall>r \<in> set (Tail b). wf_row r))"

lemma wf_row_prefix: "wf_row r \<Longrightarrow> state_prefix (stateKeyPrefix r)"
  unfolding wf_row_def state_prefix_def stateKeyPrefix_def by auto

definition st_ok :: "u64 \<Rightarrow> nat \<Rightarrow> (bytes \<times> history) list \<Rightarrow> bool" where
  "st_ok lo N st = (distinct (map fst st) \<and> (\<forall>(p, h) \<in> set st. state_prefix p \<and> sorted_wrt (<) (map fst h) \<and> (\<forall>e \<in> set h. lo \<le> fst e \<and> unat (fst e) < N)))"

lemma st_okD:
  assumes "st_ok lo N st" and "map_of st p = Some h"
  shows "state_prefix p" and "sorted_wrt (<) (map fst h)" and "\<forall>e \<in> set h. lo \<le> fst e \<and> unat (fst e) < N"
  using assms map_of_SomeD unfolding st_ok_def by fastforce+

lemma put_hist_sorted:
  assumes "sorted_wrt (<) (map fst h)" and "\<forall>e \<in> set h. unat (fst e) < Suc (unat n)"
  shows "sorted_wrt (<) (map fst (put_hist n v h))"
proof -
  have le: "\<forall>e \<in> set h. fst e \<le> n" using assms(2) by (simp add: word_le_nat_alt less_Suc_eq_le)
  show ?thesis
  proof (cases "h \<noteq> [] \<and> fst (last h) = n")
    case True
    then obtain h' v' where h: "h = h' @ [(n, v')]" by (metis append_butlast_last_id prod.collapse)
    then show ?thesis using assms(1) by (simp add: put_hist_def)
  next
    case False
    have "fst e < n" if "e \<in> set h" for e
    proof -
      have ne: "h \<noteq> []" using that by auto
      then have "fst (last h) \<noteq> n" "fst (last h) \<le> n" using False le by auto
      moreover have "fst e \<le> fst (last h)"
        using assms(1) that ne by (cases h rule: rev_cases) (auto simp: sorted_wrt_append less_imp_le)
      ultimately show ?thesis by (simp add: order_less_le order_trans) 
    qed
    then show ?thesis using assms(1) False by (auto simp: put_hist_def sorted_wrt_append)
  qed
qed

lemma put_hist_mem: "e \<in> set (put_hist n v h) \<Longrightarrow> e = (n, v) \<or> e \<in> set h"
  by (auto simp: put_hist_def split: if_splits dest: in_set_butlastD)

lemma put_st_ok:
  assumes ok: "st_ok lo N st" and n: "N \<le> Suc (unat n)" "lo \<le> n" and p: "state_prefix k"
  shows "st_ok lo (Suc (unat n)) (put_st (k, n, v) st)"
proof -
  define h where "h = (case map_of st k of None \<Rightarrow> [] | Some h \<Rightarrow> h)"
  have h: "sorted_wrt (<) (map fst h)" "\<forall>e \<in> set h. lo \<le> fst e \<and> unat (fst e) < N"
    using st_okD(2,3) [OF ok, of k] by (cases "map_of st k"; simp add: h_def)+
  have s: "sorted_wrt (<) (map fst (put_hist n v h))" using h n by (intro put_hist_sorted) auto
  have new: "lo \<le> fst e \<and> unat (fst e) < Suc (unat n)" if "e \<in> set (put_hist n v h)" for e
    using put_hist_mem [OF that] h(2) n by (auto simp: less_Suc_eq_le)
  have P: "put_st (k, n, v) st = AList.update k (put_hist n v h) st" by (simp add: put_st_def h_def)
  have d: "distinct (map fst (put_st (k, n, v) st))" unfolding P using ok distinct_update [of st k] by (simp only: st_ok_def)
  have "state_prefix q \<and> sorted_wrt (<) (map fst g) \<and> (\<forall>e \<in> set g. lo \<le> fst e \<and> unat (fst e) < Suc (unat n))" if "(q, g) \<in> set (put_st (k, n, v) st)" for q g
  proof -
    have "((map_of st)(k \<mapsto> put_hist n v h)) q = Some g" using map_of_is_SomeI [OF d that] by (simp only: P update_conv')
    then have "q = k \<and> g = put_hist n v h \<or> map_of st q = Some g" by (cases "q = k") simp_all
    then show ?thesis
    proof
      assume "map_of st q = Some g"
      from st_okD [OF ok this] n(1) show ?thesis by auto
    qed (use s new p in simp)
  qed
  then show ?thesis using d unfolding st_ok_def by blast
qed

lemma puts_ok:
  assumes "st_ok lo N st" and "sorted (map (\<lambda>x. fst (snd x)) xs)" and "\<forall>x \<in> set xs. state_prefix (fst x) \<and> lo \<le> fst (snd x) \<and> N \<le> Suc (unat (fst (snd x))) \<and> unat (fst (snd x)) < M"
    and "N \<le> M"
  shows "st_ok lo M (fold put_st xs st)"
  using assms
proof (induction xs arbitrary: N st)
  case Nil
  then show ?case by (fastforce simp: st_ok_def)
next
  case (Cons x xs)
  obtain k n v where x: "x = (k, n, v)" by (cases x) auto
  have "st_ok lo (Suc (unat n)) (put_st x st)" unfolding x using Cons.prems by (intro put_st_ok [OF Cons.prems(1)]) (auto simp: x)
  moreover have "\<forall>y \<in> set xs. Suc (unat n) \<le> Suc (unat (fst (snd y)))" using Cons.prems(2) by (auto simp: x word_le_nat_alt)
  ultimately show ?case using Cons.IH [of "Suc (unat n)" "put_st x st"] Cons.prems by (auto simp: x)
qed

section \<open>A block\<close>

lemma endBlock_state [simp]:
  "mstate (endBlock h nt m) = mstate m" "baseTx (endBlock h nt m) = baseTx m" "nextTx (endBlock h nt m) = nt"
  by (simp_all add: endBlock_def padFams_def padFam_def setChain_def txKeyedFams_def)

lemma numbered_nums:
  assumes "unat first + length xs < 2 ^ 64" and "(n, t) \<in> set (numbered first xs)"
  shows "first \<le> n" and "unat n < unat first + length xs" and "t \<in> set xs"
proof -
  obtain i where i: "i < length xs" "n = first + of_nat i" "t = xs ! i"
    using assms(2) by (auto simp: numbered_def set_zip)
  have "unat n = unat first + i" using i assms(1) unat_add_of_nat [of first i] by (simp add: i(2))
  then show "first \<le> n" "unat n < unat first + length xs" "t \<in> set xs" using i by (auto simp: word_le_nat_alt)
qed

lemma numbered_sorted:
  assumes "unat first + length xs < 2 ^ 64"
  shows "sorted_wrt (\<lambda>a b. fst a \<le> fst b) (numbered first xs)"
  unfolding sorted_wrt_iff_nth_less
proof (intro allI impI)
  fix i j assume ij: "i < j" "j < length (numbered first xs)"
  have u: "unat (first + of_nat k) = unat first + k" if "k < length xs" for k using assms that by (intro unat_add_of_nat) simp
  show "fst (numbered first xs ! i) \<le> fst (numbered first xs ! j)" using ij u by (simp add: numbered_def word_le_nat_alt)
qed

lemma block_puts_facts:
  assumes room: "unat first + length (Txs b) < 2 ^ 64" and wf: "wf_block b"
  shows "sorted (map (\<lambda>x. fst (snd x)) (block_puts first b))"
    and "x \<in> set (block_puts first b) \<Longrightarrow> state_prefix (fst x) \<and> first \<le> fst (snd x) \<and> unat (fst (snd x)) \<le> unat first + length (Txs b)"
proof -
  let ?tail = "first + of_nat (length (Txs b))" and ?ns = "numbered first (Txs b)"
  have tail: "unat ?tail = unat first + length (Txs b)" using room by (intro unat_add_of_nat) simp
  have n: "first \<le> n \<and> unat n < unat ?tail \<and> t \<in> set (Txs b)" if "(n, t) \<in> set ?ns" for n t
    using numbered_nums [OF room that] tail by simp
  have sorted_const: "sorted (map (\<lambda>x. c) rs)" for rs :: "StateRow list" and c :: u64 by (induction rs) simp_all
  have "sorted (map (\<lambda>x. fst (snd x)) (concat (map (\<lambda>(n, t). map (row_put n) (TxState t)) ns)))"
    if "sorted_wrt (\<lambda>a b. fst a \<le> fst b) ns" for ns
    using that
  proof (induction ns)
    case (Cons a ns)
    then show ?case using sorted_const by (auto simp: row_put_def sorted_append case_prod_unfold comp_def)
  qed simp
  from this [OF numbered_sorted [OF room]] show "sorted (map (\<lambda>x. fst (snd x)) (block_puts first b))"
    using n sorted_const by (fastforce simp: block_puts_def sorted_append row_put_def word_le_nat_alt comp_def)
  show "state_prefix (fst x) \<and> first \<le> fst (snd x) \<and> unat (fst (snd x)) \<le> unat first + length (Txs b)" if "x \<in> set (block_puts first b)"
    using that n tail wf wf_row_prefix by (fastforce simp: block_puts_def row_put_def wf_block_def word_le_nat_alt)
qed

text \<open>The histories of a window lie between its ends.\<close>

definition hist_ok :: "memtable \<Rightarrow> bool" where
  "hist_ok m = (st_ok (baseTx m) (unat (nextTx m)) (mstate m) \<and> baseTx m \<le> nextTx m)"

lemma add_block_state:
  assumes "add_block R H b m = (m', None)" and "\<not> Height b < nextHeight m"
  shows "mstate m' = fold put_st (block_puts (nextTx m) b) (mstate m)" and "baseTx m' = baseTx m" and "nextTx m' = nextTx m + of_nat (length (Txs b)) + 1"
proof -
  define m1 where "m1 = (if \<not> started m then m\<lparr>baseHeight := Height b, nextHeight := Height b, started := True\<rparr> else m)"
  have same: "mstate m1 = mstate m" "baseTx m1 = baseTx m" "nextTx m1 = nextTx m" by (simp_all add: m1_def)
  have "and_then (blockRows R H b m1) (finishBlock (Height b) (nextTx m1 + of_nat (length (Txs b)) + 1)) = (m', None)"
    using assms by (auto simp: add_block_def addStarted_def m1_def split: if_splits)
  then obtain m2 where m2: "blockRows R H b m1 = (m2, None)" "m' = endBlock (Height b) (nextTx m1 + of_nat (length (Txs b)) + 1) m2"
    by (cases "blockRows R H b m1"; cases "snd (blockRows R H b m1)") (auto simp: finishBlock_def)
  note p = putting_blockRows [OF m2(1)]
  show "mstate m' = fold put_st (block_puts (nextTx m) b) (mstate m)" "baseTx m' = baseTx m" "nextTx m' = nextTx m + of_nat (length (Txs b)) + 1"
    using p same by (simp_all add: m2(2))
qed

lemma mem_hist_add:
  assumes "add_block R H b m = (m', None)" and "\<not> Height b < nextHeight m"
  shows "mem_hist m' p = puts (block_puts (nextTx m) b) p (mem_hist m p)"
  using hist_put_st by (simp add: mem_hist_def add_block_state [OF assms])

lemma hist_ok_add:
  assumes add: "add_block R H b m = (m', None)" "\<not> Height b < nextHeight m" and ok: "hist_ok m" and wf: "wf_block b"
    and room: "unat (nextTx m) + length (Txs b) + 1 < 2 ^ 64"
  shows "hist_ok m'" and "unat (nextTx m') = unat (nextTx m) + length (Txs b) + 1"
proof -
  let ?k = "length (Txs b)"
  have "nextTx m' = nextTx m + of_nat (?k + 1)" by (simp add: add_block_state(3) [OF add] add.assoc add.commute)
  then show nx: "unat (nextTx m') = unat (nextTx m) + ?k + 1" using room unat_add_of_nat [of "nextTx m" "?k + 1"] by simp
  have r: "unat (nextTx m) + ?k < 2 ^ 64" using room by simp
  have le: "baseTx m \<le> nextTx m" using ok by (simp add: hist_ok_def)
  have "st_ok (baseTx m) (unat (nextTx m')) (fold put_st (block_puts (nextTx m) b) (mstate m))"
  proof (rule puts_ok)
    show "st_ok (baseTx m) (unat (nextTx m)) (mstate m)" using ok by (simp add: hist_ok_def)
    show "\<forall>x \<in> set (block_puts (nextTx m) b). state_prefix (fst x) \<and> baseTx m \<le> fst (snd x) \<and> unat (nextTx m) \<le> Suc (unat (fst (snd x))) \<and> unat (fst (snd x)) < unat (nextTx m')"
      using block_puts_facts(2) [OF r wf] nx le by (fastforce simp: word_le_nat_alt)
  qed (use block_puts_facts(1) [OF r wf] nx in simp_all)
  then show "hist_ok m'" using add_block_state [OF add] nx le by (simp add: hist_ok_def word_le_nat_alt)
qed

lemma hist_okD:
  assumes "hist_ok m"
  shows "mem_sorted m p" and "\<forall>e \<in> set (mem_hist m p). baseTx m \<le> fst e \<and> fst e < nextTx m" and "mem_hist m p \<noteq> [] \<Longrightarrow> state_prefix p"
proof -
  have ok: "st_ok (baseTx m) (unat (nextTx m)) (mstate m)" using assms by (simp add: hist_ok_def)
  show "mem_sorted m p" "\<forall>e \<in> set (mem_hist m p). baseTx m \<le> fst e \<and> fst e < nextTx m" "mem_hist m p \<noteq> [] \<Longrightarrow> state_prefix p"
    using st_okD [OF ok, of p] by (cases "map_of (mstate m) p"; simp add: mem_hist_def mem_sorted_def word_less_nat_alt)+
qed

section \<open>The state section holds the histories\<close>

lemma state_prefix_family: "state_prefix p \<Longrightarrow> HasPrefix p PrefixState"
  by (auto simp: state_prefix_def AccountPrefix_def CodeRefPrefix_def SlotPrefix_def)

lemma state_prefix_bloom: "state_prefix p \<Longrightarrow> bloom_prefix (Suffixed p n) = p"
proof -
  assume "state_prefix p"
  then have "split (Suffixed p n) = length p" using split_state unfolding state_prefix_def by blast
  then show ?thesis by (simp add: bloom_prefix_def Suffixed_def)
qed

lemma state_prefix_lone:
  assumes "state_prefix p" and "state_prefix q" and "HasPrefix (Suffixed q n) p"
  shows "q = p"
proof -
  have l: "length p \<le> length q + 8" using HasPrefix_length [OF assms(3)] by simp
  have len: "length r = 29 \<and> r ! 27 \<noteq> of_char (CHR ''s'') \<or> length r = 62 \<and> r ! 27 = of_char (CHR ''s'')" if "state_prefix r" for r
    using that by (auto simp: state_prefix_def AccountPrefix_def CodeRefPrefix_def SlotPrefix_def ascii_def nth_append)
  have "length p = length q"
  proof -
    have "Suffixed q n ! 27 = p ! 27" using HasPrefix_nth [OF assms(3), of 27] len [OF assms(1)] by auto
    then have "q ! 27 = p ! 27" using len [OF assms(2)] by (auto simp: Suffixed_def nth_append)
    then show ?thesis using len [OF assms(1)] len [OF assms(2)] by auto
  qed
  then show ?thesis using assms(3) by (simp add: HasPrefix_def Suffixed_def)
qed

lemma under_Suffixed_iff: "under p (Suffixed q n) \<longleftrightarrow> p = q"
  by (auto simp: under_def) (simp add: Suffixed_def)

lemma under_CodeKey: "HasPrefix p PrefixState \<Longrightarrow> \<not> under p (CodeKey h)"
proof
  assume p: "HasPrefix p PrefixState" and "under p (CodeKey h)"
  then have "HasPrefix (CodeKey h) p" by (simp add: under_def HasPrefix_def)
  then have "HasPrefix (CodeKey h) PrefixState" using p by (auto simp: HasPrefix_iff)
  then show False by (simp add: CodeKey_def HasPrefix_def prefix_defs ascii_def)
qed

lemma row_hist_append: "row_hist (xs @ ys) p = row_hist xs p @ row_hist ys p"
  by (simp add: row_hist_def)

lemma row_hist_suffixed: "row_hist (map (\<lambda>(n, v). (Suffixed q n, v)) h) p = (if q = p then h else [])"
  by (induction h) (auto simp: row_hist_def under_Suffixed_iff)

lemma concat_single: "distinct ps \<Longrightarrow> concat (map (\<lambda>q. if q = p then x else []) ps) = (if p \<in> set ps then x else [])"
  by (induction ps) auto

lemma row_hist_histRows:
  assumes "distinct (map fst (mstate m))"
  shows "row_hist (histRows m) p = mem_hist m p"
proof -
  define ps where "ps = sort (map fst (mstate m))"
  have "row_hist (concat (map f qs)) p = concat (map (\<lambda>q. row_hist (f q) p) qs)" for f :: "bytes \<Rightarrow> row list" and qs
    by (induction qs) (simp_all add: row_hist_append, simp add: row_hist_def)
  then have "row_hist (histRows m) p = concat (map (\<lambda>q. if q = p then mem_hist m p else []) ps)"
    by (simp add: histRows_def ps_def [symmetric] row_hist_suffixed mem_hist_def cong: if_cong)
  also have "\<dots> = (if p \<in> set ps then mem_hist m p else [])" using assms by (intro concat_single) (simp add: ps_def)
  also have "\<dots> = mem_hist m p" 
  proof (cases "map_of (mstate m) p")
    case (Some h)
    from map_of_SomeD [OF this] have "p \<in> set ps" by (force simp: ps_def)
    then show ?thesis by simp
  qed (simp add: mem_hist_def)
  finally show ?thesis .
qed

lemma row_hist_stateRows:
  assumes "hist_ok m" and p: "HasPrefix p PrefixState"
  shows "row_hist (stateRows m) p = mem_hist m p"
proof -
  have "row_hist (codeRows m) p = []" using under_CodeKey [OF p] by (auto simp: row_hist_def codeRows_def filter_empty_conv)
  then show ?thesis using assms(1) by (simp add: stateRows_def row_hist_append row_hist_histRows hist_ok_def st_ok_def)
qed

lemma histRows_mem: "(k, v) \<in> set (histRows m) \<Longrightarrow> \<exists>q n h. k = Suffixed q n \<and> map_of (mstate m) q = Some h \<and> (n, v) \<in> set h"
  unfolding histRows_def by (clarsimp split: option.split_asm) metis

lemma prefix_ok_stateRows:
  assumes ok: "hist_ok m" and p: "state_prefix p"
  shows "prefix_ok p (stateRows m)"
  unfolding prefix_ok_def
proof (intro conjI ballI allI)
  show "bloom_prefix (Suffixed p n) = bloom_prefix (Suffixed p 0)" for n using state_prefix_bloom [OF p] by simp
  fix kv assume kv: "kv \<in> set (stateRows m)"
  have "length k = length p + 8" if k: "kv = (k, v)" "HasPrefix k p" for k v
  proof -
    have "k \<noteq> CodeKey h" for h
    proof
      assume "k = CodeKey h"
      then have "HasPrefix (CodeKey h) PrefixState" using k(2) state_prefix_family [OF p] by (auto simp: HasPrefix_iff)
      then show False by (simp add: CodeKey_def HasPrefix_def prefix_defs ascii_def)
    qed
    then have "(k, v) \<in> set (histRows m)" using kv k(1) by (auto simp: stateRows_def codeRows_def)
    then obtain q n h where q: "k = Suffixed q n" "map_of (mstate m) q = Some h" using histRows_mem by blast
    then have "state_prefix q" using ok st_okD(1) unfolding hist_ok_def by blast
    then have "q = p" using state_prefix_lone [OF p] k(2) q(1) by blast
    then show ?thesis by (simp add: q(1))
  qed
  then show "case kv of (k, v) \<Rightarrow> HasPrefix k p \<longrightarrow> length k = length p + 8" by (cases kv) auto
qed

end
