(* ===== verification/Database.thy ===== *)
theory Database
  imports Window Flat
begin

text \<open>
  The life cycle of the database, \<^verbatim>\<open>DB\<close> of \<^verbatim>\<open>src/store/db.go\<close>: the window that blocks are written into, the
  frozen window a cut seals into a run, the terminal merge of \<^verbatim>\<open>src/store/merge.go\<close> and the publication and
  reopening of runs of \<^verbatim>\<open>src/store/join.go\<close>.

  The goroutines are cut into the segments between their acquisitions of \<^verbatim>\<open>mu\<close>: what the cut still has to do is
  the value \<open>d_cut\<close>, what the merge still has to do is \<open>d_job\<close>, and a segment is a function on the database.
  An operation that waits for a goroutine is \<open>None\<close> while the goroutine is not done.  Operations of the
  operating system succeed.  Log lines, page-cache advice and reference counts of open files are left out.
\<close>

section \<open>What the database is given\<close>

text \<open>The size-bounded cache of contract code is libevm's; \<open>'c\<close> is its state.\<close>

record 'c lru_lib =
  lru_New :: "u64 \<Rightarrow> 'c"
  lru_Get :: "'c \<Rightarrow> bytes \<Rightarrow> bytes option \<times> 'c"
  lru_Add :: "'c \<Rightarrow> bytes \<Rightarrow> bytes \<Rightarrow> 'c"

record ('r, 'c, 'blk, 'tx) env =
  e_cas :: "'r cas_lib"
  e_sst :: sst_lib
  e_gap :: u64               \<comment> \<open>the chunk size of the artifact store\<close>
  e_lru :: "'c lru_lib"
  e_rlp :: "('blk, 'tx) rlp_lib"
  e_hash :: hash_lib

section \<open>The state\<close>

datatype cut =
    NoCut
  | Cutting memtable              \<comment> \<open>frozen, nothing written yet\<close>
  | CutSealed memtable RunRef Run  \<comment> \<open>the run is written and open, the manifest does not name it\<close>
  | CutPublished memtable         \<comment> \<open>the manifest names the run, the frozen log is still there\<close>
  | CutDone "err option"          \<comment> \<open>what waits in the channel\<close>

datatype job =
    NoJob
  | Planned nat nat
  | Reading nat nat "RunRef list" "Run list" bytes  \<comment> \<open>references, open inputs and the link to the run before\<close>
  | Built nat nat "RunRef list" RunRef Run
  | Swapped "RunRef list"
  | Dropped

record ('r, 'c) DB =
  d_cas :: "'r Store"
  d_side :: files                   \<comment> \<open>the sidecars beside the artifacts\<close>
  d_chainRoot :: bytes
  d_mem :: memtable
  d_frozen :: "memtable option"
  d_man :: Manifest
  d_manFile :: "Manifest option"    \<comment> \<open>the file \<^verbatim>\<open>manifest.json\<close>\<close>
  d_runs :: "Run list"              \<comment> \<open>the current version\<close>
  d_flat :: flatCache
  d_code :: "'c option"
  d_flushTxs :: u64
  d_flushBlocks :: u64
  d_terminalTxs :: u64
  d_cut :: cut
  d_job :: job
  d_mergeErr :: "err option"
  d_published :: string
  d_lastManifest :: string
  d_ceil :: "(u64 \<times> u64) option"  \<comment> \<open>a height and its ceiling, the last answer of \<^verbatim>\<open>txCeiling\<close>\<close>

abbreviation refs_of :: "('r, 'c) DB \<Rightarrow> RunRef list" where
  "refs_of d \<equiv> mf_Runs (d_man d)"

abbreviation setRuns :: "RunRef list \<Rightarrow> ('r, 'c) DB \<Rightarrow> ('r, 'c) DB" where
  "setRuns rs d \<equiv> d\<lparr>d_man := (d_man d)\<lparr>mf_Runs := rs\<rparr>\<rparr>"

text \<open>\<^verbatim>\<open>save\<close> replaces the file as a whole.\<close>

definition save :: "('r, 'c) DB \<Rightarrow> ('r, 'c) DB" where
  "save d = d\<lparr>d_manFile := Some (d_man d)\<rparr>"

section \<open>Where the chain ends\<close>

definition flushedTx :: "('r, 'c) DB \<Rightarrow> u64" where
  "flushedTx d = (if refs_of d = [] then 0 else rf_ToTx (last (refs_of d)))"

definition flushedHeight :: "('r, 'c) DB \<Rightarrow> u64" where
  "flushedHeight d = (if refs_of d = [] then 0 else rf_ToHeight (last (refs_of d)) + 1)"

definition NextTx :: "('r, 'c) DB \<Rightarrow> u64" where
  "NextTx d =
     (if started (d_mem d) then nextTx (d_mem d)
      else case d_frozen d of
        Some f \<Rightarrow> if started f then nextTx f else flushedTx d
      | None \<Rightarrow> flushedTx d)"

definition NextHeight :: "('r, 'c) DB \<Rightarrow> u64" where
  "NextHeight d =
     (if started (d_mem d) then nextHeight (d_mem d)
      else case d_frozen d of
        Some f \<Rightarrow> if started f then nextHeight f else flushedHeight d
      | None \<Rightarrow> flushedHeight d)"

definition db_Head :: "('r, 'c) DB \<Rightarrow> u64 option" where
  "db_Head d = (if NextHeight d = 0 then None else Some (NextHeight d - 1))"

definition FlushedFloor :: "('r, 'c) DB \<Rightarrow> u64" where
  "FlushedFloor d = (if refs_of d = [] then 0 else rf_ToHeight (last (refs_of d)))"

definition db_Sync :: "('r, 'c) DB \<Rightarrow> ('r, 'c) DB" where
  "db_Sync d = d\<lparr>d_mem := sync (d_mem d)\<rparr>"

section \<open>Writing and cutting\<close>

definition addBlock :: "('r, 'c, 'blk, 'tx) env \<Rightarrow> BlockWrite \<Rightarrow> ('r, 'c) DB \<Rightarrow> ('r, 'c) DB \<times> err option" where
  "addBlock E b d =
     (case add_block (e_rlp E) (e_hash E) b (d_mem d) of
        (m, Some e) \<Rightarrow> (d\<lparr>d_mem := m\<rparr>, Some e)
      | (m, None) \<Rightarrow> (d\<lparr>d_mem := m, d_flat := flat_apply b (d_flat d)\<rparr>, None))"

definition waitCut :: "('r, 'c) DB \<Rightarrow> (('r, 'c) DB \<times> err option) option" where
  "waitCut d =
     (case d_cut d of
        NoCut \<Rightarrow> Some (d, None)
      | CutDone e \<Rightarrow> Some (d\<lparr>d_cut := NoCut\<rparr>, e)
      | _ \<Rightarrow> None)"

definition cutWindow :: "('r, 'c) DB \<Rightarrow> (('r, 'c) DB \<times> err option) option" where
  "cutWindow d =
     (case waitCut d of
        None \<Rightarrow> None
      | Some (d, Some e) \<Rightarrow> Some (d, Some e)
      | Some (d, None) \<Rightarrow>
          let m = d_mem d in
          if \<not> started m \<or> nextHeight m = baseHeight m then Some (d, None)
          else
            let m = sync m; new = reset (nextTx m) (nextHeight m) (newMemtableAt [] False) in
            Some (d\<lparr>d_frozen := Some m, d_mem := new, d_cut := Cutting m\<rparr>, None))"

definition MaybeFlush :: "('r, 'c) DB \<Rightarrow> (('r, 'c) DB \<times> err option) option" where
  "MaybeFlush d =
     (let m = d_mem d in
      if \<not> started m then Some (d, None)
      else if nextTx m - baseTx m < d_flushTxs d \<and> nextHeight m - baseHeight m < d_flushBlocks d then Some (d, None)
      else cutWindow d)"

definition WriteBlock :: "('r, 'c, 'blk, 'tx) env \<Rightarrow> BlockWrite \<Rightarrow> ('r, 'c) DB \<Rightarrow> (('r, 'c) DB \<times> err option) option" where
  "WriteBlock E b d =
     (case addBlock E b d of
        (d, Some e) \<Rightarrow> Some (d, Some e)
      | (d, None) \<Rightarrow> MaybeFlush d)"

section \<open>Publishing\<close>

text \<open>\<^verbatim>\<open>json.Marshal\<close> of the published manifest; names and roots are hexadecimal, which needs no escape.\<close>

definition jsonString :: "string \<Rightarrow> string" where
  "jsonString s = ''\"'' @ s @ ''\"''"

definition jsonRef :: "RunRef \<Rightarrow> string" where
  "jsonRef r = ''{\"from_tx\":'' @ itoa (unat (rf_FromTx r)) @ '',\"to_tx\":'' @ itoa (unat (rf_ToTx r)) @
     '',\"from_height\":'' @ itoa (unat (rf_FromHeight r)) @ '',\"to_height\":'' @ itoa (unat (rf_ToHeight r)) @
     '',\"name\":'' @ jsonString (rf_Name r) @ '',\"level\":'' @ itoa (rf_Level r) @ ''}''"

fun jsonList :: "string list \<Rightarrow> string" where
  "jsonList [] = ''''"
| "jsonList [x] = x"
| "jsonList (x # xs) = x @ '','' @ jsonList xs"

definition jsonManifest :: "Manifest \<Rightarrow> bytes" where
  "jsonManifest m = ascii (''{\"storage_version\":'' @ itoa (mf_StorageVersion m) @ '',\"chain_root\":'' @ jsonString (mf_ChainRoot m) @
     '',\"runs\":['' @ jsonList (map jsonRef (mf_Runs m)) @ '']}'')"

definition Publish :: "('r, 'c, 'blk, 'tx) env \<Rightarrow> ('r, 'c) DB \<Rightarrow> ('r, 'c) DB" where
  "Publish E d =
     (let m = (d_man d)\<lparr>mf_Runs := publishable (refs_of d)\<rparr> in
      if mf_Runs m = [] then d
      else
        let hd = rf_Name (last (mf_Runs m)) in
        if hd = d_published d then d
        else case Put (e_cas E) (jsonManifest m) (d_cas d) of
          (name, st) \<Rightarrow>
            let st = SetLatest (d_chainRoot d) name st; old = d_lastManifest d;
                st = (if old \<noteq> '''' \<and> old \<noteq> name then st\<lparr>spool := AList.delete old (spool st)\<rparr> else st)
            in d\<lparr>d_cas := st, d_lastManifest := name, d_published := hd\<rparr>)"

section \<open>Starting a merge\<close>

definition MaybeMerge :: "('r, 'c) DB \<Rightarrow> ('r, 'c) DB \<times> err option" where
  "MaybeMerge d =
     (case d_mergeErr d of
        Some e \<Rightarrow> (d, Some e)
      | None \<Rightarrow>
          if d_job d \<noteq> NoJob then (d, None)
          else case mergeSpan (d_terminalTxs d) (refs_of d) of
            None \<Rightarrow> (d, None)
          | Some (start, stop) \<Rightarrow> (d\<lparr>d_job := Planned start stop\<rparr>, None))"

definition WaitMerge :: "('r, 'c) DB \<Rightarrow> err option option" where
  "WaitMerge d = (if d_job d = NoJob then Some (d_mergeErr d) else None)"

section \<open>Sealing\<close>

text \<open>The link to the run before: the chain root for the first run.\<close>

definition prevName :: "nat \<Rightarrow> ('r, 'c) DB \<Rightarrow> bytes res" where
  "prevName n d = (if n = 0 then Inr (d_chainRoot d) else decodeRoot (rf_Name (refs_of d ! (n - 1))))"

text \<open>Up to the open run; writing the chain section flushes the log of the window.\<close>

definition sealRun :: "('r, 'c, 'blk, 'tx) env \<Rightarrow> memtable \<Rightarrow> ('r, 'c) DB \<Rightarrow> (('r, 'c) DB \<times> memtable) \<times> (RunRef \<times> Run) res" where
  "sealRun E m d =
     (case prevName (length (refs_of d)) d of
        Inl e \<Rightarrow> ((d, m), Inl e)
      | Inr prev \<Rightarrow>
          (case writeSections (e_sst E) m (NewRunWriter prev 0) of
             (m, Inl e) \<Rightarrow> ((d, m), Inl e)
           | (m, Inr w) \<Rightarrow>
               (case Finish (e_cas E) (baseTx m) (nextTx m) (baseHeight m) (nextHeight m - 1) w (d_cas d) of
                  ((name, _), st) \<Rightarrow>
                    (case OpenRun (e_cas E) (e_sst E) (e_gap E) name st (d_side d) of
                       Inl e \<Rightarrow> ((d\<lparr>d_cas := st\<rparr>, m), Inl e)
                     | Inr (run, side) \<Rightarrow>
                         ((d\<lparr>d_cas := st, d_side := side\<rparr>, m),
                          Inr (\<lparr>rf_FromTx = baseTx m, rf_ToTx = nextTx m, rf_FromHeight = baseHeight m,
                                 rf_ToHeight = nextHeight m - 1, rf_Name = name, rf_Level = 0\<rparr>, run))))))"

definition sealPublish :: "RunRef \<Rightarrow> Run \<Rightarrow> ('r, 'c) DB \<Rightarrow> ('r, 'c) DB" where
  "sealPublish ref run d =
     (save (setRuns (refs_of d @ [ref]) d))\<lparr>d_runs := d_runs d @ [run], d_frozen := None\<rparr>"

text \<open>After the frozen log is removed.\<close>

definition sealTail :: "('r, 'c, 'blk, 'tx) env \<Rightarrow> ('r, 'c) DB \<Rightarrow> ('r, 'c) DB \<times> err option" where
  "sealTail E d = (case MaybeMerge d of (d, Some e) \<Rightarrow> (d, Some e) | (d, None) \<Rightarrow> (Publish E d, None))"

definition db_seal :: "('r, 'c, 'blk, 'tx) env \<Rightarrow> memtable \<Rightarrow> ('r, 'c) DB \<Rightarrow> ('r, 'c) DB \<times> err option" where
  "db_seal E m d =
     (case sealRun E m d of
        ((d, m), Inl e) \<Rightarrow> (d, Some e)
      | ((d, m), Inr (ref, run)) \<Rightarrow> sealTail E (sealPublish ref run d))"

text \<open>The goroutine of a cut: \<open>db_seal\<close> in segments.  The frozen window stays readable until the run is.\<close>

definition cutStep :: "('r, 'c, 'blk, 'tx) env \<Rightarrow> ('r, 'c) DB \<Rightarrow> ('r, 'c) DB" where
  "cutStep E d =
     (case d_cut d of
        Cutting m \<Rightarrow>
          (case sealRun E m d of
             ((d, m), Inl e) \<Rightarrow> d\<lparr>d_frozen := Some m, d_cut := CutDone (Some e)\<rparr>
           | ((d, m), Inr (ref, run)) \<Rightarrow> d\<lparr>d_frozen := Some m, d_cut := CutSealed m ref run\<rparr>)
      | CutSealed m ref run \<Rightarrow> (sealPublish ref run d)\<lparr>d_cut := CutPublished m\<rparr>
      | CutPublished m \<Rightarrow> (case sealTail E d of (d, e) \<Rightarrow> d\<lparr>d_cut := CutDone e\<rparr>)
      | _ \<Rightarrow> d)"

definition Flush :: "('r, 'c, 'blk, 'tx) env \<Rightarrow> ('r, 'c) DB \<Rightarrow> (('r, 'c) DB \<times> err option) option" where
  "Flush E d =
     (case cutWindow d of
        None \<Rightarrow> None
      | Some (d, Some e) \<Rightarrow> Some (d, Some e)
      | Some (d, None) \<Rightarrow> waitCut (cutStep E (cutStep E (cutStep E d))))"

section \<open>Merging\<close>

definition mergeFail :: "err \<Rightarrow> ('r, 'c) DB \<Rightarrow> ('r, 'c) DB" where
  "mergeFail e d = d\<lparr>d_job := NoJob, d_mergeErr := Some e\<rparr>"

definition contiguous :: "RunRef list \<Rightarrow> bool" where
  "contiguous refs = (\<forall>i \<in> set [1..<length refs].
     rf_FromTx (refs ! i) = rf_ToTx (refs ! (i - 1)) \<and> rf_FromHeight (refs ! i) = rf_ToHeight (refs ! (i - 1)) + 1)"

definition segment :: "nat \<Rightarrow> nat \<Rightarrow> 'a list \<Rightarrow> 'a list" where
  "segment start stop xs = drop start (take stop xs)"

definition mergeRead :: "nat \<Rightarrow> nat \<Rightarrow> ('r, 'c) DB \<Rightarrow> ('r, 'c) DB" where
  "mergeRead start stop d =
     (case prevName start d of
        Inl e \<Rightarrow> mergeFail e d
      | Inr prev \<Rightarrow> d\<lparr>d_job := Reading start stop (segment start stop (refs_of d)) (segment start stop (d_runs d)) prev\<rparr>)"

definition mergeBuild :: "('r, 'c, 'blk, 'tx) env \<Rightarrow> nat \<Rightarrow> nat \<Rightarrow> RunRef list \<Rightarrow> Run list \<Rightarrow> bytes \<Rightarrow> ('r, 'c) DB \<Rightarrow> ('r, 'c) DB" where
  "mergeBuild E start stop refs inputs prev d =
     (let from = refs ! 0; to = refs ! (length refs - 1) in
      if \<not> contiguous refs then mergeFail MergeGap d
      else case mergeInto (e_sst E) inputs [0..<numSections] (NewRunWriter prev TerminalLevel) of
        Inl e \<Rightarrow> mergeFail e d
      | Inr (rows, w) \<Rightarrow>
          (case Finish (e_cas E) (rf_FromTx from) (rf_ToTx to) (rf_FromHeight from) (rf_ToHeight to) w (d_cas d) of
             ((name, _), st) \<Rightarrow>
               (case OpenRun (e_cas E) (e_sst E) (e_gap E) name st (d_side d) of
                  Inl e \<Rightarrow> mergeFail e (d\<lparr>d_cas := st\<rparr>)
                | Inr (merged, side) \<Rightarrow>
                    let d = d\<lparr>d_cas := st, d_side := side\<rparr> in
                    (case verifyRun merged rows from to of
                       Some e \<Rightarrow> mergeFail e d
                     | None \<Rightarrow>
                         d\<lparr>d_job := Built start stop refs
                           \<lparr>rf_FromTx = rf_FromTx from, rf_ToTx = rf_ToTx to, rf_FromHeight = rf_FromHeight from,
                            rf_ToHeight = rf_ToHeight to, rf_Name = name, rf_Level = TerminalLevel\<rparr> merged\<rparr>))))"

definition mergeSwap :: "nat \<Rightarrow> nat \<Rightarrow> RunRef list \<Rightarrow> RunRef \<Rightarrow> Run \<Rightarrow> ('r, 'c) DB \<Rightarrow> ('r, 'c) DB" where
  "mergeSwap start stop refs ref merged d =
     (let old = refs_of d in
      if stop > length old \<or> rf_Name (old ! start) \<noteq> rf_Name (refs ! 0) \<or> rf_Name (old ! (stop - 1)) \<noteq> rf_Name (refs ! (length refs - 1))
      then mergeFail MergeSpanMoved d
      else (save (setRuns (splice start stop ref old) d))\<lparr>d_runs := splice start stop merged (d_runs d), d_job := Swapped refs\<rparr>)"

definition mergeDrop :: "RunRef list \<Rightarrow> ('r, 'c) DB \<Rightarrow> ('r, 'c) DB" where
  "mergeDrop refs d = d\<lparr>d_cas := fold (\<lambda>r. DropLocal (rf_Name r)) refs (d_cas d), d_job := Dropped\<rparr>"

text \<open>The goroutine that \<^verbatim>\<open>MaybeMerge\<close> starts, in segments.\<close>

definition mergeStep :: "('r, 'c, 'blk, 'tx) env \<Rightarrow> ('r, 'c) DB \<Rightarrow> ('r, 'c) DB" where
  "mergeStep E d =
     (case d_job d of
        NoJob \<Rightarrow> d
      | Planned start stop \<Rightarrow> mergeRead start stop d
      | Reading start stop refs inputs prev \<Rightarrow> mergeBuild E start stop refs inputs prev d
      | Built start stop refs ref merged \<Rightarrow> mergeSwap start stop refs ref merged d
      | Swapped refs \<Rightarrow> mergeDrop refs d
      | Dropped \<Rightarrow> (Publish E d)\<lparr>d_job := NoJob, d_mergeErr := None\<rparr>)"

section \<open>Uploading\<close>

text \<open>The runs whose local copies are gone, reopened from the artifact store, in the order of the version.\<close>

fun reopenAll :: "('r, 'c, 'blk, 'tx) env \<Rightarrow> string list \<Rightarrow> 'r Store \<Rightarrow> Run list \<Rightarrow> files \<Rightarrow> (Run list \<times> files) res" where
  "reopenAll E gone st [] side = Inr ([], side)"
| "reopenAll E gone st (r # rs) side =
     (if Name r \<notin> set gone then reopenAll E gone st rs side
      else case ReopenRun (e_cas E) (e_sst E) (e_gap E) r st side of
        Inl e \<Rightarrow> Inl (Errorf ''store: run was uploaded and unlinked but does not reopen'')
      | Inr (nr, side) \<Rightarrow>
          (case reopenAll E gone st rs side of Inl e \<Rightarrow> Inl e | Inr (nrs, side) \<Rightarrow> Inr (nr # nrs, side)))"

text \<open>A reopened run takes the place of the first run of its name in the version of that moment.\<close>

fun replaceRun :: "Run \<Rightarrow> Run list \<Rightarrow> Run list" where
  "replaceRun nr [] = []"
| "replaceRun nr (r # rs) = (if Name r = Name nr then nr # rs else r # replaceRun nr rs)"

definition reopenReleased :: "('r, 'c, 'blk, 'tx) env \<Rightarrow> string list \<Rightarrow> ('r, 'c) DB \<Rightarrow> ('r, 'c) DB \<times> err option" where
  "reopenReleased E names d =
     (case reopenAll E names (d_cas d) (d_runs d) (d_side d) of
        Inl e \<Rightarrow> (d, Some e)
      | Inr (nrs, side) \<Rightarrow> (d\<lparr>d_runs := fold replaceRun nrs (d_runs d), d_side := side\<rparr>, None))"

definition SyncArtifacts :: "('r, 'c, 'blk, 'tx) env \<Rightarrow> ('r, 'c) DB \<Rightarrow> ('r, 'c) DB \<times> err option" where
  "SyncArtifacts E d =
     (case Sync (e_cas E) (d_cas d) of
        (st, released) \<Rightarrow>
          let d = d\<lparr>d_cas := st\<rparr> in
          if released = [] then (d, None) else reopenReleased E released d)"

section \<open>Opening\<close>

text \<open>A data directory: the manifest file, the active window log and the log a cut left behind.\<close>

record data_dir =
  manifest_json :: "Manifest option"
  window_log :: bytes
  frozen_log :: "bytes option"

text \<open>What the process reads of its surroundings to size the caches.\<close>

record surroundings =
  env_flat :: string
  env_code :: string
  env_jump :: string
  memory_max :: "string option"

definition checkRoot :: "bytes \<Rightarrow> Manifest \<Rightarrow> Manifest res" where
  "checkRoot chainRoot man =
     (if mf_ChainRoot man = '''' then Inr (man\<lparr>mf_ChainRoot := hexName chainRoot\<rparr>)
      else if mf_ChainRoot man \<noteq> hexName chainRoot then Inl WrongChainRoot
      else Inr man)"

definition emptyDB :: "('r, 'c, 'blk, 'tx) env \<Rightarrow> 'r Store \<Rightarrow> files \<Rightarrow> bytes \<Rightarrow> Manifest option \<Rightarrow> Manifest \<Rightarrow> Run list \<Rightarrow> memtable \<Rightarrow> u64 \<Rightarrow> u64 \<Rightarrow> ('r, 'c) DB" where
  "emptyDB E st side chainRoot file man runs mem fb codeBudget =
     \<lparr>d_cas = st, d_side = side, d_chainRoot = chainRoot, d_mem = mem, d_frozen = None, d_man = man, d_manFile = file,
      d_runs = runs, d_flat = newFlatCache fb,
      d_code = (if codeBudget > 0 then Some (lru_New (e_lru E) codeBudget) else None),
      d_flushTxs = FlushTxs, d_flushBlocks = FlushBlocks, d_terminalTxs = TerminalTxs,
      d_cut = NoCut, d_job = NoJob, d_mergeErr = None, d_published = '''', d_lastManifest = '''', d_ceil = None\<rparr>"

text \<open>The frozen log: what it holds beyond the last run is sealed before anything else; a reader keeps it in memory.\<close>

definition openFrozen :: "('r, 'c, 'blk, 'tx) env \<Rightarrow> bool \<Rightarrow> bytes option \<Rightarrow> ('r, 'c) DB \<Rightarrow> (('r, 'c) DB \<times> u64 \<times> u64) res" where
  "openFrozen E ro file d =
     (let tx = flushedTx d; h = flushedHeight d in
      case file of
        None \<Rightarrow> Inr (d, tx, h)
      | Some f \<Rightarrow>
          (case recover tx h (newMemtableAt f ro) of
             (fm, Some e) \<Rightarrow> Inl e
           | (fm, None) \<Rightarrow>
               if started fm then
                 let d = d\<lparr>d_frozen := Some fm\<rparr> in
                 if ro then Inr (d, nextTx fm, nextHeight fm)
                 else (case db_seal E fm d of (d, Some e) \<Rightarrow> Inl e | (d, None) \<Rightarrow> Inr (d, nextTx fm, nextHeight fm))
               else Inr (d, tx, h)))"

definition db_open :: "('r, 'c, 'blk, 'tx) env \<Rightarrow> surroundings \<Rightarrow> data_dir \<Rightarrow> 'r Store \<Rightarrow> files \<Rightarrow> bytes \<Rightarrow> bool \<Rightarrow> ('r, 'c) DB res" where
  "db_open E os dir st side chainRoot ro =
     (case loadManifest (manifest_json dir) of Inl e \<Rightarrow> Inl e | Inr man \<Rightarrow>
      case checkRoot chainRoot man of Inl e \<Rightarrow> Inl e | Inr man \<Rightarrow>
      case flatCacheBytes (env_flat os) (memory_max os) of Inl e \<Rightarrow> Inl e | Inr fb \<Rightarrow>
      case codeCacheBytes (env_code os) fb of Inl e \<Rightarrow> Inl e | Inr codeBudget \<Rightarrow>
      case jumpDestCacheBytes (env_jump os) codeBudget of Inl e \<Rightarrow> Inl e | Inr jdBudget \<Rightarrow>
      case openAll (e_cas E) (e_sst E) (e_gap E) (map rf_Name (mf_Runs man)) st (sweepSidecars (map rf_Name (mf_Runs man)) side) of
        Inl e \<Rightarrow> Inl e
      | Inr (runs, side) \<Rightarrow>
          let mem = newMemtableAt (window_log dir) ro in
          (case openFrozen E ro (frozen_log dir) (emptyDB E st side chainRoot (manifest_json dir) man runs mem fb codeBudget) of
             Inl e \<Rightarrow> Inl e
           | Inr (d, tx, h) \<Rightarrow>
               (case recover tx h mem of
                  (m, Some e) \<Rightarrow> Inl e
                | (m, None) \<Rightarrow>
                    let d = d\<lparr>d_mem := m\<rparr> in
                    Inr (case db_Head d of None \<Rightarrow> d | Some hh \<Rightarrow> d\<lparr>d_flat := adopt hh (d_flat d)\<rparr>))))"

definition db_Close :: "('r, 'c) DB \<Rightarrow> ('r, 'c) DB option" where
  "db_Close d =
     (case waitCut d of
        None \<Rightarrow> None
      | Some (d, _) \<Rightarrow>
          (case WaitMerge d of
             None \<Rightarrow> None
           | Some _ \<Rightarrow> Some (d\<lparr>d_runs := [], d_mem := close_log (d_mem d), d_frozen := None\<rparr>)))"

text \<open>What a process that is killed leaves in the data directory.\<close>

definition dir_of :: "('r, 'c) DB \<Rightarrow> data_dir" where
  "dir_of d = \<lparr>manifest_json = d_manFile d, window_log = logFile (d_mem d),
     frozen_log = (case d_frozen d of
        Some f \<Rightarrow> Some (logFile f)
      | None \<Rightarrow> (case d_cut d of CutPublished m \<Rightarrow> Some (logFile m) | _ \<Rightarrow> None))\<rparr>"

end
