(* ===== verification/DBReads.thy ===== *)
theory DBReads
  imports Database
begin

text \<open>
  The read path of \<^verbatim>\<open>src/store/db.go\<close> and the state reads of \<^verbatim>\<open>src/store/statedb.go\<close>: the active window, the frozen
  one, then the runs.  A read takes the pair of windows and the version of the run list at two moments, each
  under the lock: every read is a function of the windows \<open>a\<close>, \<open>f\<close> and of the runs, and \<open>DB\<close>'s method is that
  function at one state.  A callback that stops a walk takes a prefix of the list the model returns.
\<close>

section \<open>Chain rows\<close>

definition famByHeight :: "fam \<Rightarrow> bool" where
  "famByHeight f = (f = FamBlk \<or> f = FamHdr \<or> f = FamPvm)"

text \<open>A lookup in a window; the flush it may cause changes no answer and is dropped.\<close>

definition mem_chain :: "fam \<Rightarrow> u64 \<Rightarrow> memtable \<Rightarrow> bytes option res" where
  "mem_chain fam n m = snd (chainGet id fam n m)"

fun chainRuns :: "sst_lib \<Rightarrow> fam \<Rightarrow> u64 \<Rightarrow> bool \<Rightarrow> Run list \<Rightarrow> bytes option" where
  "chainRuns T fam n byHeight [] = None"
| "chainRuns T fam n byHeight (r # rs) =
     (let f = r_footer r;
          inside = (if byHeight then n \<ge> FromHeight f \<and> n \<le> ToHeight f else n \<ge> FromTx f \<and> n < ToTx f)
      in if \<not> inside then chainRuns T fam n byHeight rs else Get T r 0 (numKey (famPrefix fam) n))"

definition chainRowOver :: "sst_lib \<Rightarrow> memtable \<Rightarrow> memtable option \<Rightarrow> Run list \<Rightarrow> fam \<Rightarrow> u64 \<Rightarrow> bool \<Rightarrow> bytes option res" where
  "chainRowOver T a f runs fam n byHeight =
     (case mem_chain fam n a of
        Inl e \<Rightarrow> Inl e
      | Inr (Some v) \<Rightarrow> Inr (Some v)
      | Inr None \<Rightarrow>
          (case (case f of None \<Rightarrow> Inr None | Some m \<Rightarrow> mem_chain fam n m) of
             Inl e \<Rightarrow> Inl e
           | Inr (Some v) \<Rightarrow> Inr (Some v)
           | Inr None \<Rightarrow> Inr (chainRuns T fam n byHeight (rev runs))))"

definition db_chainRow :: "('r, 'c, 'blk, 'tx) env \<Rightarrow> ('r, 'c) DB \<Rightarrow> fam \<Rightarrow> u64 \<Rightarrow> bool \<Rightarrow> bytes option res" where
  "db_chainRow E d fam n byHeight = chainRowOver (e_sst E) (d_mem d) (d_frozen d) (d_runs d) fam n byHeight"

definition db_HeaderRLP :: "('r, 'c, 'blk, 'tx) env \<Rightarrow> ('r, 'c) DB \<Rightarrow> u64 \<Rightarrow> bytes option res" where
  "db_HeaderRLP E d height = db_chainRow E d FamHdr height True"

definition db_Pvm :: "('r, 'c, 'blk, 'tx) env \<Rightarrow> ('r, 'c) DB \<Rightarrow> u64 \<Rightarrow> bytes option res" where
  "db_Pvm E d height = db_chainRow E d FamPvm height True"

definition db_TxRLP :: "('r, 'c, 'blk, 'tx) env \<Rightarrow> ('r, 'c) DB \<Rightarrow> u64 \<Rightarrow> bytes option res" where
  "db_TxRLP E d txnum = db_chainRow E d FamTx txnum False"

definition db_Frames :: "('r, 'c, 'blk, 'tx) env \<Rightarrow> ('r, 'c) DB \<Rightarrow> u64 \<Rightarrow> bytes option res" where
  "db_Frames E d txnum = db_chainRow E d FamItx txnum False"

definition db_Receipt :: "('r, 'c, 'blk, 'tx) env \<Rightarrow> ('r, 'c) DB \<Rightarrow> u64 \<Rightarrow> bytes option res" where
  "db_Receipt E d txnum = db_chainRow E d FamRcpt txnum False"

definition beDecode :: "bytes \<Rightarrow> u64" where
  "beDecode b = fold (\<lambda>c n. push_bit 8 n OR ucast c) b 0"

definition BlockTxRange :: "('r, 'c, 'blk, 'tx) env \<Rightarrow> ('r, 'c) DB \<Rightarrow> u64 \<Rightarrow> (u64 \<times> u32) option res" where
  "BlockTxRange E d height =
     (case db_chainRow E d FamBlk height True of
        Inl e \<Rightarrow> Inl e
      | Inr None \<Rightarrow> Inr None
      | Inr (Some v) \<Rightarrow>
          if length v \<noteq> 12 then Inl (BlkRowSize (length v))
          else Inr (Some (beDecode (take 8 v), ucast (beDecode (drop 8 v)))))"

subsection \<open>In one sequential pass\<close>

text \<open>The runs, oldest first: the rows yielded, and the number after the last of them.\<close>

fun scanChain :: "fam \<Rightarrow> u64 \<Rightarrow> u64 \<Rightarrow> Run list \<Rightarrow> (u64 \<times> bytes) list \<times> u64" where
  "scanChain fam nxt to [] = ([], nxt)"
| "scanChain fam nxt to (r # rs) =
     (let f = r_footer r; byHeight = famByHeight fam;
          lo = (if byHeight then FromHeight f else FromTx f); hi = (if byHeight then ToHeight f else ToTx f - 1)
      in if ToTx f = FromTx f \<and> \<not> byHeight then scanChain fam nxt to rs
      else if hi < nxt \<or> lo > to then scanChain fam nxt to rs
      else
        let rows = map (\<lambda>(k, v). (TxNumOf k, v)) (ScanRange r 0 (numKey (famPrefix fam) nxt) (Some (numKey (famPrefix fam) (to + 1))));
            nxt = (if rows = [] then nxt else fst (last rows) + 1)
        in case scanChain fam nxt to rs of (rest, nxt) \<Rightarrow> (rows @ rest, nxt))"

text \<open>The windows, number by number.  \<open>None\<close> is a walk that does not end: the counter wraps at the largest bound.\<close>

partial_function (option) scanWindow :: "memtable \<Rightarrow> memtable option \<Rightarrow> fam \<Rightarrow> u64 \<Rightarrow> u64 \<Rightarrow> (u64 \<times> bytes) list \<Rightarrow> ((u64 \<times> bytes) list \<times> err option) option" where
  "scanWindow a f fam n to acc =
     (if \<not> n \<le> to then Some (acc, None)
      else case (case mem_chain fam n a of
          Inr None \<Rightarrow> (case f of None \<Rightarrow> Inr None | Some m \<Rightarrow> mem_chain fam n m)
        | r \<Rightarrow> r) of
        Inl e \<Rightarrow> Some (acc, Some e)
      | Inr None \<Rightarrow> scanWindow a f fam (n + 1) to acc
      | Inr (Some v) \<Rightarrow> scanWindow a f fam (n + 1) to (acc @ [(n, v)]))"

definition ChainRowsOver :: "Run list \<Rightarrow> memtable \<Rightarrow> memtable option \<Rightarrow> fam \<Rightarrow> u64 \<Rightarrow> u64 \<Rightarrow> ((u64 \<times> bytes) list \<times> err option) option" where
  "ChainRowsOver runs a f fam from to =
     (if to < from then Some ([], None)
      else case scanChain fam from to runs of (rows, nxt) \<Rightarrow> scanWindow a f fam nxt to rows)"

definition ChainRows :: "('r, 'c) DB \<Rightarrow> fam \<Rightarrow> u64 \<Rightarrow> u64 \<Rightarrow> ((u64 \<times> bytes) list \<times> err option) option" where
  "ChainRows d fam from to = ChainRowsOver (d_runs d) (d_mem d) (d_frozen d) fam from to"

section \<open>Point lookups\<close>

fun numRuns :: "sst_lib \<Rightarrow> bytes \<Rightarrow> Run list \<Rightarrow> u64 option res" where
  "numRuns T key [] = Inr None"
| "numRuns T key (r # rs) =
     (case Get T r 2 key of
        None \<Rightarrow> numRuns T key rs
      | Some v \<Rightarrow> if length v \<noteq> 8 then Inl (NumRowSize (length v)) else Inr (Some (beDecode v)))"

definition lookupNumOver :: "sst_lib \<Rightarrow> memtable \<Rightarrow> memtable option \<Rightarrow> Run list \<Rightarrow> bytes \<Rightarrow> u64 option res" where
  "lookupNumOver T a f runs key =
     (case mem_lookupNum key a of
        Some n \<Rightarrow> Inr (Some n)
      | None \<Rightarrow>
          (case (case f of None \<Rightarrow> None | Some m \<Rightarrow> mem_lookupNum key m) of
             Some n \<Rightarrow> Inr (Some n)
           | None \<Rightarrow> numRuns T key (rev runs)))"

definition db_lookupNum :: "('r, 'c, 'blk, 'tx) env \<Rightarrow> ('r, 'c) DB \<Rightarrow> bytes \<Rightarrow> u64 option res" where
  "db_lookupNum E d key = lookupNumOver (e_sst E) (d_mem d) (d_frozen d) (d_runs d) key"

definition TxNumByHash :: "('r, 'c, 'blk, 'tx) env \<Rightarrow> ('r, 'c) DB \<Rightarrow> bytes \<Rightarrow> u64 option res" where
  "TxNumByHash E d hash = db_lookupNum E d (TxHashKey hash)"

definition HeightByHash :: "('r, 'c, 'blk, 'tx) env \<Rightarrow> ('r, 'c) DB \<Rightarrow> bytes \<Rightarrow> u64 option res" where
  "HeightByHash E d hash = db_lookupNum E d (BlkHashKey hash)"

definition HeightByContainerID :: "('r, 'c, 'blk, 'tx) env \<Rightarrow> ('r, 'c) DB \<Rightarrow> bytes \<Rightarrow> u64 option res" where
  "HeightByContainerID E d i = db_lookupNum E d (CidKey i)"

section \<open>Versioned state\<close>

fun latestRuns :: "sst_lib \<Rightarrow> nat \<Rightarrow> bytes \<Rightarrow> u64 \<Rightarrow> Run list \<Rightarrow> bytes option" where
  "latestRuns T sec p at [] = None"
| "latestRuns T sec p at (r # rs) =
     (if FromTx (r_footer r) > at then latestRuns T sec p at rs
      else case run_Latest T r sec p at of Some (v, _) \<Rightarrow> Some v | None \<Rightarrow> latestRuns T sec p at rs)"

definition latestOver :: "sst_lib \<Rightarrow> memtable \<Rightarrow> memtable option \<Rightarrow> Run list \<Rightarrow> nat \<Rightarrow> bytes \<Rightarrow> u64 \<Rightarrow> bytes option" where
  "latestOver T a f runs sec p at =
     (case latestState p at a of
        Some (v, _) \<Rightarrow> Some v
      | None \<Rightarrow>
          (case (case f of None \<Rightarrow> None | Some m \<Rightarrow> latestState p at m) of
             Some (v, _) \<Rightarrow> Some v
           | None \<Rightarrow> latestRuns T sec p at (rev runs)))"

definition db_latest :: "('r, 'c, 'blk, 'tx) env \<Rightarrow> ('r, 'c) DB \<Rightarrow> nat \<Rightarrow> bytes \<Rightarrow> u64 \<Rightarrow> bytes option" where
  "db_latest E d sec p at = latestOver (e_sst E) (d_mem d) (d_frozen d) (d_runs d) sec p at"

definition AccountAt :: "('r, 'c, 'blk, 'tx) env \<Rightarrow> ('r, 'c) DB \<Rightarrow> bytes \<Rightarrow> u64 \<Rightarrow> bytes option" where
  "AccountAt E d addr at = db_latest E d 1 (AccountPrefix addr) at"

definition StorageAt :: "('r, 'c, 'blk, 'tx) env \<Rightarrow> ('r, 'c) DB \<Rightarrow> bytes \<Rightarrow> bytes \<Rightarrow> u64 \<Rightarrow> bytes option" where
  "StorageAt E d addr slot at = db_latest E d 1 (SlotPrefix addr slot) at"

definition CodeHashAt :: "('r, 'c, 'blk, 'tx) env \<Rightarrow> ('r, 'c) DB \<Rightarrow> bytes \<Rightarrow> u64 \<Rightarrow> bytes option" where
  "CodeHashAt E d addr at = db_latest E d 1 (CodeRefPrefix addr) at"

subsection \<open>Contract code\<close>

text \<open>\<^verbatim>\<open>common.BytesToHash\<close>: the last 32 bytes, padded with zeros on the left.\<close>

definition BytesToHash :: "bytes \<Rightarrow> bytes" where
  "BytesToHash b = (let b = drop (length b - 32) b in replicate (32 - length b) 0 @ b)"

fun codeRuns :: "sst_lib \<Rightarrow> bytes \<Rightarrow> Run list \<Rightarrow> bytes option" where
  "codeRuns T key [] = None"
| "codeRuns T key (r # rs) = (case Get T r 1 key of Some v \<Rightarrow> Some v | None \<Rightarrow> codeRuns T key rs)"

definition db_Code :: "('r, 'c, 'blk, 'tx) env \<Rightarrow> bytes \<Rightarrow> ('r, 'c) DB \<Rightarrow> bytes option \<times> ('r, 'c) DB" where
  "db_Code E hash d =
     (let h = BytesToHash hash;
          (hit, d) = (case d_code d of
             None \<Rightarrow> (None, d)
           | Some c \<Rightarrow> (case lru_Get (e_lru E) c h of (b, c) \<Rightarrow> (b, d\<lparr>d_code := Some c\<rparr>)))
      in case hit of
        Some b \<Rightarrow> (Some b, d)
      | None \<Rightarrow>
          (case codeBlob hash (d_mem d) of
             Some b \<Rightarrow> (Some b, d)
           | None \<Rightarrow>
               (case (case d_frozen d of None \<Rightarrow> None | Some m \<Rightarrow> codeBlob hash m) of
                  Some b \<Rightarrow> (Some b, d)
                | None \<Rightarrow>
                    (case codeRuns (e_sst E) (CodeKey hash) (rev (d_runs d)) of
                       None \<Rightarrow> (None, d)
                     | Some v \<Rightarrow> (Some v, d\<lparr>d_code := map_option (\<lambda>c. lru_Add (e_lru E) c h v) (d_code d)\<rparr>)))))"

section \<open>Walks over every source\<close>

definition windows :: "memtable \<Rightarrow> memtable option \<Rightarrow> memtable list" where
  "windows a f = (case f of None \<Rightarrow> [] | Some m \<Rightarrow> [m]) @ [a]"

definition StateTxNumsOver :: "Run list \<Rightarrow> memtable \<Rightarrow> memtable option \<Rightarrow> u64 \<Rightarrow> u64 \<Rightarrow> u64 list" where
  "StateTxNumsOver runs a f lo hi =
     concat (map (\<lambda>r. if ToTx (r_footer r) \<le> lo \<or> FromTx (r_footer r) > hi then []
       else filter (\<lambda>n. n \<ge> lo \<and> n \<le> hi) (map (\<lambda>(k, v). TxNumOf k) (filter (\<lambda>(k, v). HasPrefix k PrefixState) (ScanRange r 1 [] None)))) runs) @
     concat (map (\<lambda>m. filter (\<lambda>n. n \<ge> lo \<and> n \<le> hi) (map fst (concat (map snd (mstate m))))) (windows a f))"

definition StateTxNums :: "('r, 'c) DB \<Rightarrow> u64 \<Rightarrow> u64 \<Rightarrow> u64 list" where
  "StateTxNums d lo hi = StateTxNumsOver (d_runs d) (d_mem d) (d_frozen d) lo hi"

definition windowPostings :: "memtable \<Rightarrow> memtable option \<Rightarrow> posting list" where
  "windowPostings a f = concat (map mpost (windows a f))"

definition windowSets :: "bytes \<Rightarrow> memtable \<Rightarrow> memtable option \<Rightarrow> bytes list" where
  "windowSets p a f = sort (concat (map (\<lambda>m. filter (\<lambda>k. HasPrefix k p) (msets m)) (windows a f)))"

text \<open>\<^verbatim>\<open>sort.SliceStable\<close> by TxNum, up or down.\<close>

definition emitPosts :: "bool \<Rightarrow> posting list \<Rightarrow> (u64 \<times> byte) list" where
  "emitPosts desc ents =
     map (\<lambda>e. (p_txnum e, p_payload e)) (if desc then sort_key (\<lambda>e. - int (unat (p_txnum e))) ents else sort_key p_txnum ents)"

definition windowEntries :: "bytes \<Rightarrow> u64 \<Rightarrow> u64 \<Rightarrow> memtable \<Rightarrow> memtable option \<Rightarrow> posting list" where
  "windowEntries p loTx hiTx a f =
     filter (\<lambda>e. p_txnum e \<ge> loTx \<and> p_txnum e \<le> hiTx \<and> HasPrefix (p_group e) p) (windowPostings a f)"

definition runEntries :: "sst_lib \<Rightarrow> bytes \<Rightarrow> u64 \<Rightarrow> u64 \<Rightarrow> Run \<Rightarrow> posting list res" where
  "runEntries T p loTx hiTx r =
     (if ToTx (r_footer r) \<le> loTx \<or> FromTx (r_footer r) > hiTx then Inr [] else ScanChunks T r p loTx hiTx)"

text \<open>What \<^verbatim>\<open>scanRuns\<close> hands out: the results in the order of the runs, up to the first error.\<close>

fun emitAll :: "(Run \<Rightarrow> 'a list res) \<Rightarrow> ('a list \<Rightarrow> 'b list) \<Rightarrow> Run list \<Rightarrow> 'b list \<times> err option" where
  "emitAll work g [] = ([], None)"
| "emitAll work g (r # rs) =
     (case work r of
        Inl e \<Rightarrow> ([], Some e)
      | Inr xs \<Rightarrow> (case emitAll work g rs of (ys, e) \<Rightarrow> (g xs @ ys, e)))"

definition postingsOver :: "sst_lib \<Rightarrow> Run list \<Rightarrow> memtable \<Rightarrow> memtable option \<Rightarrow> bytes \<Rightarrow> u64 \<Rightarrow> u64 \<Rightarrow> bool \<Rightarrow> (u64 \<times> byte) list \<times> err option" where
  "postingsOver T runs a f p loTx hiTx desc =
     (let win = emitPosts desc (windowEntries p loTx hiTx a f) in
      case emitAll (runEntries T p loTx hiTx) (emitPosts desc) (if desc then rev runs else runs) of
        (out, Some e) \<Rightarrow> ((if desc then win else []) @ out, Some e)
      | (out, None) \<Rightarrow> (if desc then win @ out else out @ win, None))"

definition Postings :: "('r, 'c, 'blk, 'tx) env \<Rightarrow> ('r, 'c) DB \<Rightarrow> bytes \<Rightarrow> u64 \<Rightarrow> u64 \<Rightarrow> (u64 \<times> byte) list \<times> err option" where
  "Postings E d p loTx hiTx = postingsOver (e_sst E) (d_runs d) (d_mem d) (d_frozen d) p loTx hiTx False"

definition PostingsDesc :: "('r, 'c, 'blk, 'tx) env \<Rightarrow> ('r, 'c) DB \<Rightarrow> bytes \<Rightarrow> u64 \<Rightarrow> u64 \<Rightarrow> (u64 \<times> byte) list \<times> err option" where
  "PostingsDesc E d p loTx hiTx = postingsOver (e_sst E) (d_runs d) (d_mem d) (d_frozen d) p loTx hiTx True"

definition GroupsOver :: "sst_lib \<Rightarrow> Run list \<Rightarrow> memtable \<Rightarrow> memtable option \<Rightarrow> bytes \<Rightarrow> bytes list" where
  "GroupsOver T runs a f p =
     concat (map (\<lambda>r. ScanGroups T r p) runs) @ rev (remdups (rev (filter (\<lambda>g. HasPrefix g p) (map p_group (windowPostings a f)))))"

definition SetScanOver :: "sst_lib \<Rightarrow> Run list \<Rightarrow> memtable \<Rightarrow> memtable option \<Rightarrow> bytes \<Rightarrow> bytes list" where
  "SetScanOver T runs a f p = rev (remdups (rev (concat (map (\<lambda>r. ScanSet T r p) runs) @ windowSets p a f)))"

definition Groups :: "('r, 'c, 'blk, 'tx) env \<Rightarrow> ('r, 'c) DB \<Rightarrow> bytes \<Rightarrow> bytes list" where
  "Groups E d p = GroupsOver (e_sst E) (d_runs d) (d_mem d) (d_frozen d) p"

definition SetScan :: "('r, 'c, 'blk, 'tx) env \<Rightarrow> ('r, 'c) DB \<Rightarrow> bytes \<Rightarrow> bytes list" where
  "SetScan E d p = SetScanOver (e_sst E) (d_runs d) (d_mem d) (d_frozen d) p"

definition SectionSizes :: "('r, 'c) DB \<Rightarrow> u64 list" where
  "SectionSizes d = map (\<lambda>s. sum_list (map (\<lambda>r. Len (r_footer r) ! s) (d_runs d))) [0..<numSections]"

section \<open>The block of a TxNum\<close>

definition memBounds :: "u64 \<Rightarrow> memtable \<Rightarrow> (u64 \<times> u64) option" where
  "memBounds txnum m =
     (if started m \<and> txnum \<ge> baseTx m \<and> txnum < nextTx m then Some (baseHeight m, nextHeight m - 1) else None)"

definition heightBounds :: "u64 \<Rightarrow> ('r, 'c) DB \<Rightarrow> (u64 \<times> u64) option" where
  "heightBounds txnum d =
     (case memBounds txnum (d_mem d) of
        Some b \<Rightarrow> Some b
      | None \<Rightarrow>
          (case (case d_frozen d of None \<Rightarrow> None | Some m \<Rightarrow> memBounds txnum m) of
             Some b \<Rightarrow> Some b
           | None \<Rightarrow>
               map_option (\<lambda>r. (rf_FromHeight r, rf_ToHeight r)) (find (\<lambda>r. txnum \<ge> rf_FromTx r \<and> txnum < rf_ToTx r) (refs_of d))))"

text \<open>\<open>None\<close> is a search that does not end.\<close>

partial_function (option) heightLoop :: "(u64 \<Rightarrow> (u64 \<times> u32) option res) \<Rightarrow> u64 \<Rightarrow> u64 \<Rightarrow> u64 \<Rightarrow> u64 option res option" where
  "heightLoop rd txnum lo hi =
     (if \<not> lo < hi then Some (Inr (Some lo))
      else
        let mid = (lo + hi + 1) div 2 in
        case rd mid of
          Inl e \<Rightarrow> Some (Inl e)
        | Inr None \<Rightarrow> Some (Inr None)
        | Inr (Some fc) \<Rightarrow>
            if fst fc \<le> txnum then heightLoop rd txnum mid hi else heightLoop rd txnum lo (mid - 1))"

definition HeightOfTx :: "('r, 'c, 'blk, 'tx) env \<Rightarrow> ('r, 'c) DB \<Rightarrow> u64 \<Rightarrow> u64 option res option" where
  "HeightOfTx E d txnum =
     (case heightBounds txnum d of
        None \<Rightarrow> Some (Inr None)
      | Some (lo, hi) \<Rightarrow> heightLoop (BlockTxRange E d) txnum lo hi)"

end
