(* ===== verification/StateDB.thy ===== *)
theory StateDB
  imports DBReads
begin

text \<open>
  The state as of the end of a block, \<^verbatim>\<open>src/store/statedb.go\<close>: the TxNum ceiling of a height, the descent with the
  flat cache in front of it, and the accounts, slots and code over the genesis state.  libevm's account codec,
  its encoding of a byte string and its constants are the record \<open>state_lib\<close>.
\<close>

section \<open>Accounts\<close>

record StateAccount =
  sa_Nonce :: u64
  sa_Balance :: nat
  sa_Root :: bytes
  sa_CodeHash :: bytes

record GenesisAccount =
  ga_Nonce :: u64
  ga_Balance :: "nat option"
  ga_Code :: bytes
  ga_Storage :: "(bytes \<times> bytes) list option"

type_synonym genesis = "(bytes \<times> GenesisAccount) list"

record state_lib =
  DecodeAccount :: "bytes \<Rightarrow> StateAccount option"  \<comment> \<open>\<^verbatim>\<open>rlp.DecodeBytes\<close> into an account\<close>
  EncodeBytes :: "bytes \<Rightarrow> bytes"                  \<comment> \<open>\<^verbatim>\<open>rlp.EncodeToBytes\<close> of a byte string\<close>
  EmptyCodeHash :: bytes

definition SentinelStorageRoot :: "hash_lib \<Rightarrow> bytes" where
  "SentinelStorageRoot H = Keccak256 H (ascii ''epochdb: sentinel storage root'')"

definition decodeAccount :: "state_lib \<Rightarrow> hash_lib \<Rightarrow> bytes \<Rightarrow> StateAccount option res" where
  "decodeAccount A H val =
     (if val = [] then Inr None
      else case DecodeAccount A val of
        None \<Rightarrow> Inl (Errorf ''decode account'')
      | Some acc \<Rightarrow> Inr (Some (acc\<lparr>sa_Root := SentinelStorageRoot H\<rparr>)))"

section \<open>The ceiling of a height\<close>

definition TxNumAtEndOf :: "('r, 'c, 'blk, 'tx) env \<Rightarrow> ('r, 'c) DB \<Rightarrow> u64 \<Rightarrow> u64 option res" where
  "TxNumAtEndOf E d height =
     (case BlockTxRange E d height of
        Inl e \<Rightarrow> Inl e
      | Inr None \<Rightarrow> Inr None
      | Inr (Some (first, n)) \<Rightarrow> Inr (Some (first + ucast n)))"

text \<open>\<open>None\<close> is the floor: height 0 when genesis is no stored block.\<close>

definition txCeiling :: "('r, 'c, 'blk, 'tx) env \<Rightarrow> u64 \<Rightarrow> ('r, 'c) DB \<Rightarrow> u64 option res \<times> ('r, 'c) DB" where
  "txCeiling E height d =
     (case (case d_ceil d of Some (h, at) \<Rightarrow> if h = height then Some at else None | None \<Rightarrow> None) of
        Some at \<Rightarrow> (Inr (Some at), d)
      | None \<Rightarrow>
          (case TxNumAtEndOf E d height of
             Inl e \<Rightarrow> (Inl e, d)
           | Inr None \<Rightarrow> (if height = 0 then Inr None else Inl (Errorf ''store: block is not stored''), d)
           | Inr (Some at) \<Rightarrow> (Inr (Some at), d\<lparr>d_ceil := Some (height, at)\<rparr>)))"

definition db_stateRow :: "('r, 'c, 'blk, 'tx) env \<Rightarrow> bytes \<Rightarrow> u64 \<Rightarrow> u64 \<Rightarrow> ('r, 'c) DB \<Rightarrow> bytes option \<times> ('r, 'c) DB" where
  "db_stateRow E p height at d =
     (case flat_get p height (d_flat d) of
        Some v \<Rightarrow> (if fv_found v then Some (fv_val v) else None, d)
      | None \<Rightarrow>
          let val = db_latest E d 1 p at in
          (val, d\<lparr>d_flat := fill p (case val of None \<Rightarrow> [] | Some v \<Rightarrow> v) (val \<noteq> None) height (d_flat d)\<rparr>))"

text \<open>The row under a prefix at the end of a block: \<open>None\<close> when none was written at or below it.\<close>

definition rowAtEnd :: "('r, 'c, 'blk, 'tx) env \<Rightarrow> bytes \<Rightarrow> u64 \<Rightarrow> ('r, 'c) DB \<Rightarrow> bytes option res \<times> ('r, 'c) DB" where
  "rowAtEnd E p height d =
     (case txCeiling E height d of
        (Inl e, d) \<Rightarrow> (Inl e, d)
      | (Inr None, d) \<Rightarrow> (Inr None, d)
      | (Inr (Some at), d) \<Rightarrow> (case db_stateRow E p height at d of (v, d) \<Rightarrow> (Inr v, d)))"

definition genesisAccount :: "state_lib \<Rightarrow> hash_lib \<Rightarrow> genesis \<Rightarrow> bytes \<Rightarrow> StateAccount option res" where
  "genesisAccount A H g addr =
     (case map_of g addr of
        None \<Rightarrow> Inr None
      | Some ga \<Rightarrow>
          if (case ga_Balance ga of None \<Rightarrow> False | Some b \<Rightarrow> b \<ge> 2 ^ 256) then Inl GoPanic
          else Inr (Some \<lparr>sa_Nonce = ga_Nonce ga, sa_Balance = (case ga_Balance ga of None \<Rightarrow> 0 | Some b \<Rightarrow> b),
            sa_Root = SentinelStorageRoot H,
            sa_CodeHash = (if ga_Code ga = [] then EmptyCodeHash A else Keccak256 H (ga_Code ga))\<rparr>))"

definition Account :: "('r, 'c, 'blk, 'tx) env \<Rightarrow> state_lib \<Rightarrow> genesis \<Rightarrow> bytes \<Rightarrow> u64 \<Rightarrow> ('r, 'c) DB \<Rightarrow> StateAccount option res \<times> ('r, 'c) DB" where
  "Account E A g addr height d =
     (case rowAtEnd E (AccountPrefix addr) height d of
        (Inl e, d) \<Rightarrow> (Inl e, d)
      | (Inr (Some val), d) \<Rightarrow> (decodeAccount A (e_hash E) val, d)
      | (Inr None, d) \<Rightarrow> (genesisAccount A (e_hash E) g addr, d))"

definition TrimLeftZeroes :: "bytes \<Rightarrow> bytes" where
  "TrimLeftZeroes b = dropWhile (\<lambda>c. c = 0) b"

text \<open>\<open>None\<close> and the empty value are both a slot that reads as zero.\<close>

definition Storage :: "('r, 'c, 'blk, 'tx) env \<Rightarrow> state_lib \<Rightarrow> genesis \<Rightarrow> bytes \<Rightarrow> bytes \<Rightarrow> u64 \<Rightarrow> ('r, 'c) DB \<Rightarrow> bytes option res \<times> ('r, 'c) DB" where
  "Storage E A g addr slot height d =
     (case rowAtEnd E (SlotPrefix addr slot) height d of
        (Inl e, d) \<Rightarrow> (Inl e, d)
      | (Inr (Some val), d) \<Rightarrow> (Inr (Some val), d)
      | (Inr None, d) \<Rightarrow>
          (Inr (case map_of g addr of
             None \<Rightarrow> None
           | Some ga \<Rightarrow>
               (case ga_Storage ga of
                  None \<Rightarrow> None
                | Some s \<Rightarrow>
                    (case map_of s (take 32 (slot @ replicate 32 0)) of
                       None \<Rightarrow> None
                     | Some v \<Rightarrow> if v = replicate 32 0 then None else Some (EncodeBytes A (TrimLeftZeroes v))))), d))"

definition CodeByHash :: "('r, 'c, 'blk, 'tx) env \<Rightarrow> state_lib \<Rightarrow> genesis \<Rightarrow> bytes \<Rightarrow> ('r, 'c) DB \<Rightarrow> bytes option \<times> ('r, 'c) DB" where
  "CodeByHash E A g h d =
     (if h = EmptyCodeHash A \<or> h = replicate 32 0 then (None, d)
      else case db_Code E h d of
        (Some blob, d) \<Rightarrow> (Some blob, d)
      | (None, d) \<Rightarrow>
          (map_option (\<lambda>e. ga_Code (snd e)) (find (\<lambda>e. ga_Code (snd e) \<noteq> [] \<and> Keccak256 (e_hash E) (ga_Code (snd e)) = h) g), d))"

definition CodeOf :: "('r, 'c, 'blk, 'tx) env \<Rightarrow> state_lib \<Rightarrow> genesis \<Rightarrow> bytes \<Rightarrow> u64 \<Rightarrow> ('r, 'c) DB \<Rightarrow> bytes option res \<times> ('r, 'c) DB" where
  "CodeOf E A g addr height d =
     (case Account E A g addr height d of
        (Inl e, d) \<Rightarrow> (Inl e, d)
      | (Inr None, d) \<Rightarrow> (Inr None, d)
      | (Inr (Some acc), d) \<Rightarrow> (case CodeByHash E A g (BytesToHash (sa_CodeHash acc)) d of (c, d) \<Rightarrow> (Inr c, d)))"

section \<open>The view handed to the EVM\<close>

datatype Overlay = OverlayAt u64 | OverlayLatest

definition overlayHeight :: "Overlay \<Rightarrow> ('r, 'c) DB \<Rightarrow> u64" where
  "overlayHeight v d = (case v of OverlayAt target \<Rightarrow> target | OverlayLatest \<Rightarrow> (case db_Head d of None \<Rightarrow> 0 | Some h \<Rightarrow> h))"

definition GetAccount :: "('r, 'c, 'blk, 'tx) env \<Rightarrow> state_lib \<Rightarrow> genesis \<Rightarrow> Overlay \<Rightarrow> bytes \<Rightarrow> ('r, 'c) DB \<Rightarrow> StateAccount option res \<times> ('r, 'c) DB" where
  "GetAccount E A g v addr d = Account E A g addr (overlayHeight v d) d"

definition GetStorage :: "('r, 'c, 'blk, 'tx) env \<Rightarrow> state_lib \<Rightarrow> genesis \<Rightarrow> Overlay \<Rightarrow> bytes \<Rightarrow> bytes \<Rightarrow> ('r, 'c) DB \<Rightarrow> bytes option res \<times> ('r, 'c) DB" where
  "GetStorage E A g v addr key d = Storage E A g addr key (overlayHeight v d) d"

end
