(* ===== verification/Blocks.thy ===== *)
theory Blocks
  imports StateDB Recover
begin

text \<open>
  The database as an implementation of a list of blocks.  The specification is the sequence of blocks that were
  written; a window, a run and the whole database represent a stretch of it.
\<close>

section \<open>The specification\<close>

text \<open>The history of a prefix in a stretch of blocks whose first TxNum is \<open>n\<close>; a block owns a slot per transaction and one more.\<close>

definition slots :: "BlockWrite \<Rightarrow> nat" where
  "slots b = length (Txs b) + 1"

definition total_slots :: "BlockWrite list \<Rightarrow> nat" where
  "total_slots bs = sum_list (map slots bs)"

fun spec_hist :: "u64 \<Rightarrow> BlockWrite list \<Rightarrow> bytes \<Rightarrow> history" where
  "spec_hist n [] p = []"
| "spec_hist n (b # bs) p = puts (block_puts n b) p [] @ spec_hist (n + of_nat (slots b)) bs p"

lemma total_slots_simps [simp]: "total_slots [] = 0" "total_slots (b # bs) = slots b + total_slots bs" "total_slots (as @ bs) = total_slots as + total_slots bs"
  by (simp_all add: total_slots_def)

lemma spec_hist_append: "spec_hist n (as @ bs) p = spec_hist n as p @ spec_hist (n + of_nat (total_slots as)) bs p"
  by (induction as arbitrary: n) (simp_all add: add.assoc)

lemma put_hist_append: "\<forall>e \<in> set h. fst e < n \<Longrightarrow> put_hist n v (h @ g) = h @ put_hist n v g"
proof (cases "g = []")
  case True
  assume "\<forall>e \<in> set h. fst e < n"
  then have "h \<noteq> [] \<Longrightarrow> fst (last h) \<noteq> n" using last_in_set by fastforce
  then show ?thesis using True by (auto simp: put_hist_def)
qed (simp add: put_hist_def butlast_append)

lemma puts_above:
  assumes "\<forall>e \<in> set h. fst e < n" and "\<forall>x \<in> set xs. n \<le> fst (snd x)"
  shows "puts xs p (h @ g) = h @ puts xs p g"
  using assms(2)
proof (induction xs arbitrary: g)
  case (Cons x xs)
  obtain k i v where x: "x = (k, i, v)" by (cases x) auto
  have "\<forall>e \<in> set h. fst e < i" using assms(1) Cons.prems by (auto simp: x)
  from put_hist_append [OF this] show ?case using Cons by (simp add: puts_def x)
qed (simp add: puts_def)

section \<open>A window represents the blocks written into it\<close>

text \<open>
  A block as the executor hands it over: its rows name 20-byte addresses and 32-byte slots, its payloads fit the
  log's records, and the TxNums, the height and the log stay within 64 bits.
\<close>

inductive wins :: "('blk, 'tx) rlp_lib \<Rightarrow> hash_lib \<Rightarrow> u64 \<Rightarrow> u64 \<Rightarrow> BlockWrite list \<Rightarrow> memtable \<Rightarrow> bool" for R H tx h where
  wins_nil: "wins R H tx h [] (fresh tx h)"
| wins_add: "wins R H tx h bs m \<Longrightarrow> add_block R H b m = (m', None) \<Longrightarrow> \<not> Height b < nextHeight m \<Longrightarrow>
    wf_block b \<Longrightarrow> block_fits b \<Longrightarrow> unat (nextTx m) + slots b < 2 ^ 64 \<Longrightarrow> length (log m') < 2 ^ 64 \<Longrightarrow>
    wins R H tx h (bs @ [b]) m'"

lemma mem_hist_fresh [simp]: "mem_hist (fresh tx h) p = []"
  by (simp add: mem_hist_def reset_def newMemtableAt_def clear_def)

lemma fresh_fields [simp]:
  "baseTx (fresh tx h) = tx" "nextTx (fresh tx h) = tx" "baseHeight (fresh tx h) = h" "nextHeight (fresh tx h) = h"
  "\<not> started (fresh tx h)" "mstate (fresh tx h) = []" "mnums (fresh tx h) = []" "msets (fresh tx h) = []" "mcode (fresh tx h) = []"
  "mpost (fresh tx h) = []" "pos (fresh tx h) = 0" "flushed (fresh tx h) = 0" "logOpen (fresh tx h)"
  by (simp_all add: reset_def newMemtableAt_def clear_def)

lemma hist_ok_fresh: "hist_ok (fresh tx h)"
  by (simp add: hist_ok_def st_ok_def)

lemma of_nat_add_room: "unat (n :: u64) + k < 2 ^ 64 \<Longrightarrow> unat (n + of_nat k) = unat n + k"
  by (rule unat_add_of_nat)

lemma wins_hist:
  assumes "wins R H tx h bs m"
  shows "hist_ok m" and "baseTx m = tx" and "nextTx m = tx + of_nat (total_slots bs)" and "unat (nextTx m) = unat tx + total_slots bs"
    and "mem_hist m p = spec_hist tx bs p"
  using assms
proof (induction)
  case wins_nil
  { case 1 then show ?case by (rule hist_ok_fresh)
  next case 2 then show ?case by simp
  next case 3 then show ?case by simp
  next case 4 then show ?case by simp
  next case 5 then show ?case by simp }
next
  case (wins_add bs m b m')
  note add = wins_add.hyps(2,3)
  have room: "unat (nextTx m) + length (Txs b) + 1 < 2 ^ 64" using wins_add.hyps(6) by (simp add: slots_def)
  note ok = hist_ok_add [OF add wins_add.IH(1) wins_add.hyps(4) room]
  have nx: "nextTx m' = nextTx m + of_nat (slots b)"
    by (simp add: add_block_state(3) [OF add] slots_def add.assoc add.commute)
  have r: "unat (nextTx m) + length (Txs b) < 2 ^ 64" using room by simp
  have below: "\<forall>e \<in> set (mem_hist m p). fst e < nextTx m" using hist_okD(2) [OF wins_add.IH(1)] by blast
  have above: "\<forall>x \<in> set (block_puts (nextTx m) b). nextTx m \<le> fst (snd x)" using block_puts_facts(2) [OF r wins_add.hyps(4)] by blast
  { case 1 show ?case by (rule ok(1))
  next case 2 show ?case using add_block_state(2) [OF add] wins_add.IH(2) by simp
  next case 3 show ?case using nx wins_add.IH(3) by (simp add: add.assoc)
  next case 4 show ?case using ok(2) wins_add.IH(4) by (simp add: slots_def)
  next
    case 5
    have "mem_hist m' p = mem_hist m p @ puts (block_puts (nextTx m) b) p []"
      using mem_hist_add [OF add, of p] puts_above [OF below above, of p "[]"] by simp
    then show ?case using wins_add.IH(3,5) by (simp add: spec_hist_append) }
qed

section \<open>The chain rows of a window\<close>

text \<open>The rows an index points at in a log; an entry with offset 0 is a hole.\<close>

fun entry_rows :: "u64 \<Rightarrow> (u64 \<times> u32) list \<Rightarrow> bytes \<Rightarrow> (u64 \<times> bytes) list" where
  "entry_rows num [] lg = []"
| "entry_rows num ((off, n) # es) lg =
     (if off = 0 then [] else [(num, take (unat n) (drop (unat off) lg))]) @ entry_rows (num + 1) es lg"

definition entries_in :: "(u64 \<times> u32) list \<Rightarrow> bytes \<Rightarrow> bool" where
  "entries_in es lg = (\<forall>(off, n) \<in> set es. off \<noteq> 0 \<longrightarrow> unat off + unat n \<le> length lg)"

definition idx :: "fam \<Rightarrow> (u64 \<times> bytes) list \<Rightarrow> memtable \<Rightarrow> bool" where
  "idx f rows m = (let c = chainOf f m; es = zip (ci_off c) (ci_n c) in
     length (ci_n c) = length (ci_off c) \<and> (ci_set c \<or> ci_off c = []) \<and> unat (ci_base c) + length (ci_off c) < 2 ^ 64 \<and> entries_in es (log m) \<and> entry_rows (ci_base c) es (log m) = rows)"

definition log_at :: "memtable \<Rightarrow> bool" where
  "log_at m = (pos m = of_nat (length (log m)) \<and> length (chain m) = 6)"

definition writing :: "(fam \<Rightarrow> (u64 \<times> bytes) list) \<Rightarrow> (memtable \<Rightarrow> mres) \<Rightarrow> bool" where
  "writing rows g = (\<forall>m m'. g m = (m', None) \<longrightarrow> (\<exists>x. log m' = log m @ x) \<and>
     (length (log m') < 2 ^ 64 \<longrightarrow> log_at m \<longrightarrow> log_at m' \<and> (\<forall>f rs. idx f rs m \<longrightarrow> idx f (rs @ rows f) m')))"

lemma entries_in_append: "entries_in (es @ es') lg = (entries_in es lg \<and> entries_in es' lg)"
  by (auto simp: entries_in_def)

lemma entries_in_longer: "entries_in es lg \<Longrightarrow> entries_in es (lg @ x)"
  by (fastforce simp: entries_in_def)

lemma entry_rows_longer: "entries_in es lg \<Longrightarrow> entry_rows num es (lg @ x) = entry_rows num es lg"
  by (induction num es lg rule: entry_rows.induct) (auto simp: entries_in_def)

lemma entry_rows_append: "entry_rows num (es @ es') lg = entry_rows num es lg @ entry_rows (num + of_nat (length es)) es' lg"
  by (induction num es lg rule: entry_rows.induct) (simp_all add: add.assoc)

lemma idx_longer: "idx f rs m \<Longrightarrow> chainOf f m' = chainOf f m \<Longrightarrow> log m' = log m @ x \<Longrightarrow> idx f rs m'"
  by (auto simp: idx_def Let_def entries_in_longer entry_rows_longer)

lemma writing_seq:
  assumes "writing xs g" and "writing ys k"
  shows "writing (\<lambda>f. xs f @ ys f) (\<lambda>m. and_then (g m) k)"
  unfolding writing_def
proof (intro allI impI)
  fix m m' assume "and_then (g m) k = (m', None)"
  then obtain m1 where m1: "g m = (m1, None)" "k m1 = (m', None)" by (cases "g m"; cases "snd (g m)") auto
  obtain x y where x: "log m1 = log m @ x" "log m' = log m1 @ y" using assms m1 unfolding writing_def by blast
  have "log_at m' \<and> (\<forall>f rs. idx f rs m \<longrightarrow> idx f (rs @ xs f @ ys f) m')" if "length (log m') < 2 ^ 64" "log_at m"
  proof -
    have "length (log m1) < 2 ^ 64" using that(1) x by simp
    then have 1: "log_at m1" "\<And>f rs. idx f rs m \<Longrightarrow> idx f (rs @ xs f) m1" using assms(1) m1(1) that(2) unfolding writing_def by blast+
    have "log_at m'" "\<And>f rs. idx f rs m1 \<Longrightarrow> idx f (rs @ ys f) m'" using assms(2) m1(2) that(1) 1(1) unfolding writing_def by blast+
    then show ?thesis using 1(2) by (metis append_assoc)
  qed
  then show "(\<exists>x. log m' = log m @ x) \<and> (length (log m') < 2 ^ 64 \<longrightarrow> log_at m \<longrightarrow> log_at m' \<and> (\<forall>f rs. idx f rs m \<longrightarrow> idx f (rs @ xs f @ ys f) m'))"
    using x by simp
qed

lemma writing_for_each:
  assumes "\<And>x. x \<in> set xs \<Longrightarrow> writing (F x) (g x)"
  shows "writing (\<lambda>f. concat (map (\<lambda>x. F x f) xs)) (for_each g xs)"
  using assms
proof (induction xs)
  case Nil
  then show ?case by (simp add: writing_def)
next
  case (Cons x xs)
  then have "writing (\<lambda>f. F x f @ concat (map (\<lambda>x. F x f) xs)) (\<lambda>m. and_then (g x m) (for_each g xs))" by (intro writing_seq) simp_all
  moreover have "for_each g (x # xs) = (\<lambda>m. and_then (g x m) (for_each g xs))" by (rule ext) simp
  ultimately show ?case by simp
qed

lemma writing_none:
  assumes "\<And>x. x \<in> set xs \<Longrightarrow> writing (\<lambda>f. []) (g x)"
  shows "writing (\<lambda>f. []) (for_each g xs)"
proof -
  have "concat (map (\<lambda>_. [] :: (u64 \<times> bytes) list) ys) = []" for ys :: "'x list" by (induction ys) simp_all
  with writing_for_each [of xs "\<lambda>_ _. []" g] assms show ?thesis by (metis (no_types))
qed

text \<open>A record written to the log, with whatever it does to the fields that are not chain rows.\<close>

lemma rec_length: "length (rec_bytes (k, n, p)) = 13 + length p" "rec_bytes (k, n, p) = take 13 (rec_bytes (k, n, p)) @ p"
  by (simp_all add: recHdr_def)

lemma writing_other:
  assumes "\<And>m m'. g m = (m', None) \<Longrightarrow> m' = m \<or> (\<exists>k n ps. log m' = log (fst (write_rec k n ps m)) \<and> pos m' = pos (fst (write_rec k n ps m)) \<and> chain m' = chain m)"
  shows "writing (\<lambda>f. []) g"
  unfolding writing_def
proof (intro allI impI)
  fix m m' assume "g m = (m', None)"
  from assms [OF this] consider "m' = m" | k n ps where "log m' = log (fst (write_rec k n ps m))" "pos m' = pos (fst (write_rec k n ps m))" "chain m' = chain m" by blast
  then show "(\<exists>x. log m' = log m @ x) \<and> (length (log m') < 2 ^ 64 \<longrightarrow> log_at m \<longrightarrow> log_at m' \<and> (\<forall>f rs. idx f rs m \<longrightarrow> idx f (rs @ []) m'))"
  proof cases
    case 2
    obtain a b where w: "write_rec k n ps m = (m\<lparr>logFile := a, logBuf := b, pos := pos m + 13 + of_nat (length (concat ps))\<rparr>, pos m + 13, length (concat ps))"
      and ab: "a @ b = log m @ rec_bytes (k, n, concat ps)" by (rule write_rec_frame)
    have l: "log m' = log m @ rec_bytes (k, n, concat ps)" using 2(1) w ab by (simp add: log_def)
    have "pos m' = pos m + of_nat (length (rec_bytes (k, n, concat ps)))" using 2(2) w by (simp add: rec_length(1) add.assoc)
    moreover have "chainOf f m' = chainOf f m" for f using 2(3) by (simp add: chainOf_def)
    ultimately show ?thesis using l idx_longer [of _ _ m m'] 2(3) by (auto simp: log_at_def)
  qed simp
qed

lemma writing_others:
  "writing (\<lambda>f. []) (numRow key num)" "writing (\<lambda>f. []) (postRow g num pl)" "writing (\<lambda>f. []) (setRow num k)"
  "writing (\<lambda>f. []) (codeRow hb)" "writing (\<lambda>f. []) (stateRow n r)"
proof -
  have w: "chain (fst (write_rec k n ps m)) = chain m" for k n ps m using write_rec_frame [of k n ps m] by fastforce
  show "writing (\<lambda>f. []) (numRow key num)"
    by (rule writing_other) (auto simp: numRow_def Let_def log_def w intro!: exI)
  show "writing (\<lambda>f. []) (postRow g num pl)"
    by (rule writing_other) (auto simp: postRow_def Let_def log_def w intro!: exI)
  show "writing (\<lambda>f. []) (setRow num k)"
    by (rule writing_other) (auto simp: setRow_def Let_def log_def w split: if_splits intro!: exI)
  show "writing (\<lambda>f. []) (codeRow hb)"
    by (rule writing_other) (auto simp: codeRow_def Let_def log_def w split: if_splits intro!: exI)
  show "writing (\<lambda>f. []) (stateRow n r)"
    by (rule writing_other) (auto simp: stateRow_def putState_def Let_def log_def w intro!: exI)
qed

lemma unat_word_bound: "unat (w :: u64) < 18446744073709551616"
  using unsigned_less [of w, where 'a = nat] by simp

lemma unat_max: "unat (-1 :: u64) = 18446744073709551615"
  by (simp add: unsigned_minus_1_eq_mask mask_eq_exp_minus_1)

lemma writing_chainRow:
  assumes "length val < 2 ^ 32" and "num \<noteq> -1"
  shows "writing (\<lambda>g. if g = f then [(num, val)] else []) (chainRow f num val)"
  unfolding writing_def
proof (intro allI impI)
  fix m m' assume e: "chainRow f num val m = (m', None)"
  obtain a b where w: "write_rec (famRec f) num [val] m = (m\<lparr>logFile := a, logBuf := b, pos := pos m + 13 + of_nat (length (concat [val]))\<rparr>, pos m + 13, length (concat [val]))"
    and ab: "a @ b = log m @ rec_bytes (famRec f, num, concat [val])" by (rule write_rec_frame)
  define w1 where "w1 = m\<lparr>logFile := a, logBuf := b, pos := pos m + 13 + of_nat (length val)\<rparr>"
  have same: "chainOf g w1 = chainOf g m" "chain w1 = chain m" for g by (simp_all add: w1_def chainOf_def)
  define c0 where "c0 = (if \<not> ci_set (chainOf f m) then (chainOf f m)\<lparr>ci_base := num, ci_set := True\<rparr> else chainOf f m)"
  define c where "c = c0\<lparr>ci_off := ci_off c0 @ [pos m + 13], ci_n := ci_n c0 @ [of_nat (length val)]\<rparr>"
  have "ci_add num (pos m + 13) (length val) (chainOf f w1) = (if num \<noteq> ci_next c0 then (c0, Some (ChainRowGap num (ci_next c0))) else (c, None))"
    unfolding ci_add_def Let_def same c0_def [symmetric] c_def by (rule refl)
  moreover have "chainRow f num val m = (case ci_add num (pos m + 13) (length val) (chainOf f w1) of (c, e) \<Rightarrow> (setChain f c w1, e))"
    unfolding chainRow_def w by (simp add: Let_def w1_def)
  ultimately have nx: "num = ci_next c0" and m': "m' = setChain f c w1" using e by (auto split: if_splits)
  have l: "log m' = log m @ rec_bytes (famRec f, num, val)" using ab by (simp add: m' w1_def setChain_def log_def del: rec_bytes.simps)
  have ps: "pos m' = pos m + 13 + of_nat (length val)" by (simp add: m' w1_def setChain_def)
  have "log_at m' \<and> (\<forall>g rs. idx g rs m \<longrightarrow> idx g (rs @ (if g = f then [(num, val)] else [])) m')" if room: "length (log m') < 2 ^ 64" and at: "log_at m"
  proof -
    have n6: "length (chain m) = 6" using at by (simp add: log_at_def)
    have "log_at m'" using at ps l by (simp add: log_at_def m' setChain_def w1_def add.assoc)
    moreover have "idx g (rs @ (if g = f then [(num, val)] else [])) m'" if i: "idx g rs m" for g rs
    proof (cases "g = f")
      case True
      have cf: "chainOf f m' = c" using n6 by (cases f) (simp_all add: m' setChain_def chainOf_def w1_def)
      have i0: "length (ci_n c0) = length (ci_off c0)" "ci_set c0" "entries_in (zip (ci_off c0) (ci_n c0)) (log m)" "entry_rows (ci_base c0) (zip (ci_off c0) (ci_n c0)) (log m) = rs"
        "unat (ci_base c0) + length (ci_off c0) < 2 ^ 64"
        using i by (cases "ci_set (chainOf f m)"; simp add: idx_def Let_def True c0_def entries_in_def unat_word_bound)+
      have off: "unat (pos m + 13) = length (log m) + 13" and vn: "unat (of_nat (length val) :: u32) = length val"
        using at room assms(1) l by (simp_all add: log_at_def unat_of_nat unat_add_of_nat [of _ 13, simplified])
      then have ne: "pos m + 13 \<noteq> 0" by (metis add_is_0 unat_0 zero_neq_numeral)
      have un: "unat num = unat (ci_base c0) + length (ci_off c0)" using nx unat_add_of_nat [OF i0(5)] by (simp add: ci_next_def)
      have bound: "unat (ci_base c) + length (ci_off c) < 2 ^ 64"
        using un unat_add1 [OF less_add1_u64 [OF assms(2)]] unat_word_bound [of "num + 1"] by (simp add: c_def)
      have sl: "take (length val) (drop (length (log m) + 13) (log m')) = val" by (simp add: l)
      have z: "zip (ci_off c) (ci_n c) = zip (ci_off c0) (ci_n c0) @ [(pos m + 13, of_nat (length val))]" using i0(1) by (simp add: c_def)
      have b: "ci_base c = ci_base c0" "ci_set c = ci_set c0" "ci_base c0 + of_nat (length (ci_off c0)) = num" using nx by (simp_all add: c_def ci_next_def)
      have li: "length (zip (ci_off c0) (ci_n c0)) = length (ci_off c0)" using i0(1) by simp
      have en: "entries_in (zip (ci_off c0) (ci_n c0)) (log m')" "entry_rows (ci_base c0) (zip (ci_off c0) (ci_n c0)) (log m') = rs"
        using entries_in_longer [OF i0(3)] entry_rows_longer [OF i0(3)] i0(4) by (simp_all only: l)
      have "entries_in [(pos m + 13, of_nat (length val))] (log m')" using off vn by (simp add: entries_in_def l)
      moreover have "entry_rows num [(pos m + 13, of_nat (length val))] (log m') = [(num, val)]" using ne off vn sl by simp
      ultimately show ?thesis
        unfolding idx_def Let_def True cf z entries_in_append entry_rows_append li b(1,3) using en i0(1,2) bound by (simp add: c_def)
    next
      case False
      then have "chainOf g m' = chainOf g m" by (cases f; cases g) (simp_all add: m' setChain_def chainOf_def w1_def)
      then show ?thesis using idx_longer [OF i _ l] False by simp
    qed
    ultimately show ?thesis by blast
  qed
  then show "(\<exists>x. log m' = log m @ x) \<and> (length (log m') < 2 ^ 64 \<longrightarrow> log_at m \<longrightarrow> log_at m' \<and> (\<forall>g rs. idx g rs m \<longrightarrow> idx g (rs @ (if g = f then [(num, val)] else [])) m'))"
    using l by blast
qed

text \<open>The chain rows of a stretch of blocks, in the order of their numbers.\<close>

definition tx_rows :: "fam \<Rightarrow> u64 \<Rightarrow> TxWrite \<Rightarrow> (u64 \<times> bytes) list" where
  "tx_rows f n t = (case f of FamItx \<Rightarrow> [(n, Frames t)] | FamRcpt \<Rightarrow> [(n, Receipt t)] | FamTx \<Rightarrow> [(n, RLP t)] | _ \<Rightarrow> [])"

definition block_rows :: "fam \<Rightarrow> u64 \<Rightarrow> BlockWrite \<Rightarrow> (u64 \<times> bytes) list" where
  "block_rows f first b =
     (case f of FamBlk \<Rightarrow> [(Height b, blkVal first b)] | FamHdr \<Rightarrow> [(Height b, HeaderRLP b)] | FamPvm \<Rightarrow> [(Height b, Pvm b)]
      | _ \<Rightarrow> concat (map (\<lambda>(n, t). tx_rows f n t) (numbered first (Txs b))))"

fun spec_rows :: "fam \<Rightarrow> u64 \<Rightarrow> BlockWrite list \<Rightarrow> (u64 \<times> bytes) list" where
  "spec_rows f n [] = []"
| "spec_rows f n (b # bs) = block_rows f n b @ spec_rows f (n + of_nat (slots b)) bs"

lemma spec_rows_append: "spec_rows f n (as @ bs) = spec_rows f n as @ spec_rows f (n + of_nat (total_slots as)) bs"
  by (induction as arbitrary: n) (simp_all add: add.assoc)

lemma writing_cong: "writing xs g \<Longrightarrow> (\<And>f. xs f = ys f) \<Longrightarrow> writing ys g"
  by (simp add: writing_def)

lemma writing_txRows:
  assumes "tx_fits t" and "n \<noteq> -1"
  shows "writing (\<lambda>f. tx_rows f n t) (txRows (n, t))"
proof (rule writing_cong)
  have l: "length (Frames t) < 2 ^ 32" "length (Receipt t) < 2 ^ 32" "length (RLP t) < 2 ^ 32" using assms(1) by (simp_all add: tx_fits_def)
  show "writing (\<lambda>f. ((((((if f = FamItx then [(n, Frames t)] else []) @ (if f = FamRcpt then [(n, Receipt t)] else [])) @ (if f = FamTx then [(n, RLP t)] else [])) @ []) @ []) @ []) @ []) (txRows (n, t))"
    unfolding txRows_def Let_def fst_conv snd_conv
    by (intro writing_seq writing_chainRow l assms(2) writing_others writing_none)
qed (simp add: tx_rows_def split: fam.split)

lemma writing_cidRow: "writing (\<lambda>f. []) (cidRow R H b)"
  using writing_others(1) by (auto simp: writing_def cidRow_def split: sum.splits)

lemma writing_blockRows:
  assumes "block_fits b" and "blockRows R H b m = (m', None)" and room: "unat (nextTx m) + slots b < 2 ^ 64"
  shows "(\<exists>x. log m' = log m @ x) \<and> (length (log m') < 2 ^ 64 \<longrightarrow> log_at m \<longrightarrow> log_at m' \<and> (\<forall>f rs. idx f rs m \<longrightarrow> idx f (rs @ block_rows f (nextTx m) b) m'))"
proof -
  let ?first = "nextTx m" and ?tail = "nextTx m + of_nat (length (Txs b))"
  have l: "length (blkVal ?first b) < 2 ^ 32" "length (HeaderRLP b) < 2 ^ 32" "length (Pvm b) < 2 ^ 32" "Height b \<noteq> -1"
    using assms(1) by (simp_all add: block_fits_def blkVal_def)
  have tx: "writing (\<lambda>f. tx_rows f (fst nt) (snd nt)) (txRows nt)" if "nt \<in> set (numbered ?first (Txs b))" for nt
  proof -
    have "snd nt \<in> set (Txs b)" using that unfolding numbered_def by (metis set_zip_rightD prod.collapse)
    moreover have "unat (fst nt) < unat ?first + length (Txs b)"
      using numbered_nums(2) [of ?first "Txs b" "fst nt" "snd nt"] that room by (simp add: slots_def)
    then have "fst nt \<noteq> -1" using room by (auto simp: slots_def unat_max)
    ultimately show ?thesis using assms(1) writing_txRows [of "snd nt" "fst nt"] by (simp add: block_fits_def list_all_iff)
  qed
  have "writing (\<lambda>f. (((((((if f = FamBlk then [(Height b, blkVal ?first b)] else []) @ (if f = FamHdr then [(Height b, HeaderRLP b)] else [])) @ (if f = FamPvm then [(Height b, Pvm b)] else [])) @ []) @ []) @ []) @
      concat (map (\<lambda>nt. tx_rows f (fst nt) (snd nt)) (numbered ?first (Txs b)))) @ [])
    (\<lambda>m'. and_then (and_then (and_then (and_then (and_then (and_then (and_then (chainRow FamBlk (Height b) (blkVal ?first b) m')
        (chainRow FamHdr (Height b) (HeaderRLP b)))
        (chainRow FamPvm (Height b) (Pvm b)))
        (numRow (BlkHashKey (Keccak256 H (HeaderRLP b))) (Height b)))
        (cidRow R H b))
        (for_each codeRow (Code b)))
        (for_each txRows (numbered ?first (Txs b))))
        (for_each (stateRow ?tail) (Tail b)))"
    by (intro writing_seq writing_chainRow l writing_others writing_cidRow writing_none writing_for_each tx)
  then have "writing (\<lambda>f. block_rows f ?first b)
    (\<lambda>m'. and_then (and_then (and_then (and_then (and_then (and_then (and_then (chainRow FamBlk (Height b) (blkVal ?first b) m')
        (chainRow FamHdr (Height b) (HeaderRLP b)))
        (chainRow FamPvm (Height b) (Pvm b)))
        (numRow (BlkHashKey (Keccak256 H (HeaderRLP b))) (Height b)))
        (cidRow R H b))
        (for_each codeRow (Code b)))
        (for_each txRows (numbered ?first (Txs b))))
        (for_each (stateRow ?tail) (Tail b)))"
  proof (rule writing_cong)
    fix f
    have none: "concat (map (\<lambda>nt. tx_rows f (fst nt) (snd nt)) ns) = []" if "f = FamBlk \<or> f = FamHdr \<or> f = FamPvm" for ns
      using that by (induction ns) (auto simp: tx_rows_def)
    show "((((((((if f = FamBlk then [(Height b, blkVal ?first b)] else []) @ (if f = FamHdr then [(Height b, HeaderRLP b)] else [])) @ (if f = FamPvm then [(Height b, Pvm b)] else [])) @ []) @ []) @ []) @
      concat (map (\<lambda>nt. tx_rows f (fst nt) (snd nt)) (numbered ?first (Txs b)))) @ []) = block_rows f ?first b"
      using none by (cases f) (simp_all add: block_rows_def case_prod_unfold)
  qed
  then show ?thesis using assms(2) unfolding writing_def blockRows_def Let_def by blast
qed

subsection \<open>The end of a block\<close>

lemma pad_loop_index:
  assumes "unat (ci_base c) + length (ci_off c) < 2 ^ 64"
  shows "\<exists>k. ci_pad_loop nt c = c\<lparr>ci_off := ci_off c @ replicate k 0, ci_n := ci_n c @ replicate k 0\<rparr> \<and> unat (ci_base c) + length (ci_off c) + k < 2 ^ 64"
  using assms
proof (induction nt c rule: ci_pad_loop.induct)
  case (1 nt c)
  show ?case
  proof (cases "ci_next c < nt")
    case True
    have "unat (ci_next c) = unat (ci_base c) + length (ci_off c)" using unat_add_of_nat [OF 1(2)] by (simp add: ci_next_def)
    then have "unat (ci_base c) + length (ci_off c) + 1 < 2 ^ 64" using True unat_word_bound [of nt] by (simp add: word_less_nat_alt)
    then obtain k where "ci_pad_loop nt c = c\<lparr>ci_off := ci_off c @ 0 # replicate k 0, ci_n := ci_n c @ 0 # replicate k 0\<rparr>"
        "unat (ci_base c) + length (ci_off c) + Suc k < 2 ^ 64"
      using 1(1) [OF True] ci_pad_loop.simps [of nt c] True by auto
    then show ?thesis by (intro exI [of _ "Suc k"]) simp
  next
    case False
    then show ?thesis using 1(2) by (intro exI [of _ 0]) (simp add: ci_pad_loop.simps)
  qed
qed

lemma entry_rows_holes: "entry_rows num (replicate k (0, 0)) lg = []"
  by (induction k arbitrary: num) simp_all

lemma idx_pad:
  assumes "idx f rs m" and "length (chain m) = 6"
  shows "idx f rs (padFam nt g m)"
proof (cases "g = f")
  case True
  define c0 where "c0 = (if \<not> ci_set (chainOf f m) then (chainOf f m)\<lparr>ci_base := nt - 1, ci_set := True\<rparr> else chainOf f m)"
  have i0: "length (ci_n c0) = length (ci_off c0)" "ci_set c0" "entries_in (zip (ci_off c0) (ci_n c0)) (log m)" "entry_rows (ci_base c0) (zip (ci_off c0) (ci_n c0)) (log m) = rs"
    "unat (ci_base c0) + length (ci_off c0) < 2 ^ 64"
    using assms(1) by (cases "ci_set (chainOf f m)"; simp add: idx_def Let_def c0_def entries_in_def unat_word_bound)+
  obtain k where k: "ci_padTo nt (chainOf f m) = c0\<lparr>ci_off := ci_off c0 @ replicate k 0, ci_n := ci_n c0 @ replicate k 0\<rparr>"
    and bound: "unat (ci_base c0) + length (ci_off c0) + k < 2 ^ 64"
    using pad_loop_index [OF i0(5), of nt] unfolding ci_padTo_def c0_def by blast
  have cf: "chainOf f (padFam nt f m) = ci_padTo nt (chainOf f m)" using assms(2) by (cases f) (simp_all add: padFam_def setChain_def chainOf_def)
  have lg: "log (padFam nt f m) = log m" by (simp add: padFam_def setChain_def log_def)
  have z: "zip (ci_off c0 @ replicate k 0) (ci_n c0 @ replicate k 0) = zip (ci_off c0) (ci_n c0) @ replicate k (0, 0)" using i0(1) by (simp add: zip_replicate)
  have "entries_in (replicate k (0, 0)) (log m)" by (simp add: entries_in_def)
  then show ?thesis unfolding True idx_def Let_def cf k lg using i0 bound by (simp add: z entries_in_append entry_rows_append entry_rows_holes)
next
  case False
  then have "chainOf f (padFam nt g m) = chainOf f m" by (cases f; cases g) (simp_all add: padFam_def setChain_def chainOf_def)
  then show ?thesis using assms(1) by (simp add: idx_def Let_def padFam_def setChain_def log_def)
qed

lemma idx_endBlock:
  assumes "log_at m" and "length (log (endBlock h nt m)) < 2 ^ 64"
  shows "log_at (endBlock h nt m)" and "idx f rs m \<Longrightarrow> idx f rs (endBlock h nt m)" and "\<exists>x. log (endBlock h nt m) = log m @ x"
proof -
  define p where "p = (padFams nt m)\<lparr>nextTx := nt, nextHeight := h + 1\<rparr>"
  have pp: "log p = log m" "pos p = pos m" "length (chain p) = length (chain m)"
    by (simp_all add: p_def padFams_def txKeyedFams_def padFam_def setChain_def log_def)
  obtain a b where w: "write_rec recEnd h [be64 nt] p = (p\<lparr>logFile := a, logBuf := b, pos := pos p + 13 + of_nat (length (concat [be64 nt]))\<rparr>, pos p + 13, length (concat [be64 nt]))"
    and ab: "a @ b = log p @ rec_bytes (recEnd, h, concat [be64 nt])" by (rule write_rec_frame)
  define q where "q = p\<lparr>logFile := a, logBuf := b, pos := pos p + 13 + 8\<rparr>"
  have e: "endBlock h nt m = flushLocked q" unfolding endBlock_def p_def [symmetric] w by (simp add: q_def)
  have lq: "log q = log m @ rec_bytes (recEnd, h, be64 nt)" using ab pp(1) by (simp add: q_def log_def)
  show "\<exists>x. log (endBlock h nt m) = log m @ x" using lq by (simp add: e)
  have "pos (flushLocked q) = pos q" "chain (flushLocked q) = chain q" by (simp_all add: flushLocked_def bw_Flush_def)
  then show "log_at (endBlock h nt m)" using assms(1) pp lq by (simp add: e log_at_def q_def add.assoc)
  assume i: "idx f rs m"
  have "length (chain m) = 6" using assms(1) by (simp add: log_at_def)
  then have "idx f rs (padFams nt m)" unfolding padFams_def txKeyedFams_def
    using i by (simp add: idx_pad) (intro idx_pad; simp add: padFam_def setChain_def)
  then have "idx f rs p" by (simp add: idx_def Let_def p_def chainOf_def log_def)
  then have "idx f rs q" by (rule idx_longer) (use lq pp(1) in \<open>simp_all add: q_def chainOf_def\<close>)
  then show "idx f rs (endBlock h nt m)" by (simp add: e idx_def Let_def chainOf_def)
qed

subsection \<open>What a block leaves alone\<close>

definition keys_ok :: "memtable \<Rightarrow> bool" where
  "keys_ok m = ((\<forall>k \<in> fst ` set (mnums m). k \<noteq> []) \<and> (\<forall>k \<in> set (msets m). k \<noteq> []))"

definition framed :: "u64 \<Rightarrow> bool \<Rightarrow> memtable \<Rightarrow> bool" where
  "framed x y m = (baseHeight m = x \<and> started m = y \<and> logOpen m \<and> keys_ok m)"

definition keeping :: "(memtable \<Rightarrow> bool) \<Rightarrow> (memtable \<Rightarrow> mres) \<Rightarrow> bool" where
  "keeping P g = (\<forall>m. P m \<longrightarrow> P (fst (g m)))"

lemma keeping_seq: "keeping P g \<Longrightarrow> keeping P k \<Longrightarrow> keeping P (\<lambda>m. and_then (g m) k)"
proof -
  assume a: "keeping P g" "keeping P k"
  have "P (fst (and_then (g m) k))" if "P m" for m
    using a that unfolding keeping_def by (cases "g m"; cases "snd (g m)") fastforce+
  then show ?thesis by (simp add: keeping_def)
qed

lemma keeping_for_each: "(\<And>x. x \<in> set xs \<Longrightarrow> keeping P (g x)) \<Longrightarrow> keeping P (for_each g xs)"
proof (induction xs)
  case (Cons x xs)
  then have "keeping P (\<lambda>m. and_then (g x m) (for_each g xs))" by (intro keeping_seq) simp_all
  moreover have "for_each g (x # xs) = (\<lambda>m. and_then (g x m) (for_each g xs))" by (rule ext) simp
  ultimately show ?case by simp
qed (simp add: keeping_def)

lemma framed_write_rec: "framed x y (fst (write_rec k n ps m)) = framed x y m"
proof -
  obtain a b where "write_rec k n ps m = (m\<lparr>logFile := a, logBuf := b, pos := pos m + 13 + of_nat (length (concat ps))\<rparr>, pos m + 13, length (concat ps))"
    by (rule write_rec_frame)
  then show ?thesis by (simp add: framed_def keys_ok_def)
qed

lemma keeping_framed:
  "keeping (framed x y) (chainRow f num val)" "k \<noteq> [] \<Longrightarrow> keeping (framed x y) (numRow k num)" "keeping (framed x y) (postRow g num pl)"
  "k \<noteq> [] \<Longrightarrow> keeping (framed x y) (setRow num k)" "keeping (framed x y) (codeRow hb)" "keeping (framed x y) (stateRow n r)"
proof -
  note w = framed_write_rec
  show "keeping (framed x y) (chainRow f num val)"
    using w by (auto simp: keeping_def chainRow_def Let_def case_prod_unfold framed_def keys_ok_def setChain_def)
  show "keeping (framed x y) (postRow g num pl)" "keeping (framed x y) (codeRow hb)" "keeping (framed x y) (stateRow n r)"
    using w by (auto simp: keeping_def postRow_def codeRow_def stateRow_def putState_def Let_def framed_def keys_ok_def)
  show "keeping (framed x y) (setRow num k)" if "k \<noteq> []"
    using w that by (auto simp: keeping_def setRow_def Let_def framed_def keys_ok_def)
  show "keeping (framed x y) (numRow k num)" if "k \<noteq> []"
    using w that dom_update [of k num] by (auto simp: keeping_def numRow_def Let_def framed_def keys_ok_def)
qed

lemma keeping_txRows: "keeping (framed x y) (txRows nt)"
  unfolding txRows_def Let_def
  by (intro keeping_seq keeping_for_each keeping_framed) (auto simp: TxHashKey_def PrefixTxHash_def ascii_def logSets_def SetKey_def SetPrefix_def PrefixSet_def join_def)

lemma keeping_cidRow: "keeping (framed x y) (cidRow R H b)"
  using keeping_framed(2) [of "CidKey c" for c] by (auto simp: keeping_def cidRow_def CidKey_def PrefixCid_def ascii_def split: sum.splits)

lemma keeping_blockRows: "keeping (framed x y) (blockRows R H b)"
proof -
  have "keeping (framed x y) (\<lambda>m'. and_then (and_then (and_then (and_then (and_then (and_then (and_then (chainRow FamBlk (Height b) (blkVal first b) m')
        (chainRow FamHdr (Height b) (HeaderRLP b)))
        (chainRow FamPvm (Height b) (Pvm b)))
        (numRow (BlkHashKey (Keccak256 H (HeaderRLP b))) (Height b)))
        (cidRow R H b))
        (for_each codeRow (Code b)))
        (for_each txRows (numbered first (Txs b))))
        (for_each (stateRow tl) (Tail b)))" for first tl
    by (intro keeping_seq keeping_for_each keeping_framed keeping_txRows keeping_cidRow) (simp add: BlkHashKey_def PrefixBlkHash_def ascii_def)
  then show ?thesis unfolding keeping_def blockRows_def Let_def by blast
qed

lemma add_block_frame:
  assumes "add_block R H b m = (m', None)" and "\<not> Height b < nextHeight m" and "framed x y m"
  shows "framed (if y then x else Height b) True m'" and "y \<Longrightarrow> Height b = nextHeight m" and "nextHeight m \<noteq> 0 \<Longrightarrow> Height b = nextHeight m"
proof -
  define m1 where "m1 = (if \<not> started m then m\<lparr>baseHeight := Height b, nextHeight := Height b, started := True\<rparr> else m)"
  have f1: "framed (if y then x else Height b) True m1" using assms(3) by (auto simp: m1_def framed_def keys_ok_def)
  have a: "addStarted R H b m1 = (m', None)" and "\<not> started m \<and> nextHeight m \<noteq> 0 \<longrightarrow> Height b = nextHeight m"
    using assms(1,2) by (auto simp: add_block_def m1_def split: if_splits)
  then have h: "Height b = nextHeight m1" and hs: "\<not> started m \<and> nextHeight m \<noteq> 0 \<longrightarrow> Height b = nextHeight m"
    by (auto simp: addStarted_def split: if_splits)
  then show "y \<Longrightarrow> Height b = nextHeight m" "nextHeight m \<noteq> 0 \<Longrightarrow> Height b = nextHeight m"
    using assms(3) by (auto simp: m1_def framed_def split: if_splits)
  obtain m2 where m2: "blockRows R H b m1 = (m2, None)" "m' = endBlock (Height b) (nextTx m1 + of_nat (length (Txs b)) + 1) m2"
    using a h by (cases "blockRows R H b m1"; cases "snd (blockRows R H b m1)") (auto simp: addStarted_def finishBlock_def)
  have f2: "framed (if y then x else Height b) True m2" using keeping_blockRows f1 m2(1) unfolding keeping_def by (metis fst_conv)
  have e: "framed u v (endBlock h nt m) = framed u v m" for u v h nt m
  proof -
    have "framed u v (endBlock h nt m) = framed u v (fst (write_rec recEnd h [be64 nt] ((padFams nt m)\<lparr>nextTx := nt, nextHeight := h + 1\<rparr>)))"
      by (simp add: endBlock_def flushLocked_def bw_Flush_def framed_def keys_ok_def)
    also have "\<dots> = framed u v m" unfolding framed_write_rec by (simp add: framed_def keys_ok_def padFams_def padFam_def setChain_def txKeyedFams_def)
    finally show ?thesis .
  qed
  show "framed (if y then x else Height b) True m'" unfolding m2(2) e by (rule f2)
qed

subsection \<open>A window and its blocks\<close>

lemma chainOf_fresh: "chainOf f (fresh tx h) = ci_reset ci_empty"
  by (cases f) (simp_all add: chainOf_def reset_def newMemtableAt_def clear_def ci_reset_def eval_nat_numeral)

lemma idx_fresh: "idx f [] (fresh tx h)" "log_at (fresh tx h)" "log_ok (fresh tx h)" "framed h False (fresh tx h)"
  unfolding idx_def chainOf_fresh
  by (simp_all add: Let_def ci_reset_def entries_in_def log_at_def log_ok_def log_def framed_def keys_ok_def reset_def newMemtableAt_def clear_def)

lemma add_block_idx:
  assumes add: "add_block R H b m = (m', None)" "\<not> Height b < nextHeight m" and fits: "block_fits b" and room: "length (log m') < 2 ^ 64"
    and at: "log_at m" and slot: "unat (nextTx m) + slots b < 2 ^ 64"
  shows "log_at m'" and "idx f rs m \<Longrightarrow> idx f (rs @ block_rows f (nextTx m) b) m'"
proof -
  define m1 where "m1 = (if \<not> started m then m\<lparr>baseHeight := Height b, nextHeight := Height b, started := True\<rparr> else m)"
  have same: "nextTx m1 = nextTx m" "log_at m1" "\<And>f rs. idx f rs m \<Longrightarrow> idx f rs m1"
    using at by (auto simp: m1_def log_at_def log_def idx_def Let_def chainOf_def)
  have "addStarted R H b m1 = (m', None)" using add by (auto simp: add_block_def m1_def split: if_splits)
  then obtain m2 where m2: "blockRows R H b m1 = (m2, None)" "m' = endBlock (Height b) (nextTx m1 + of_nat (length (Txs b)) + 1) m2"
    by (cases "blockRows R H b m1"; cases "snd (blockRows R H b m1)") (auto simp: addStarted_def finishBlock_def split: if_splits)
  have "length (log m2) < 2 ^ 64" using room endBlock_appends [of "Height b" _ m2] by (simp add: m2(2))
  moreover have "unat (nextTx m1) + slots b < 2 ^ 64" using slot same(1) by simp
  ultimately have w: "log_at m2" "\<And>f rs. idx f rs m1 \<Longrightarrow> idx f (rs @ block_rows f (nextTx m1) b) m2"
    using writing_blockRows [OF fits m2(1)] same(2) by blast+
  note e = idx_endBlock [OF w(1) room [unfolded m2(2)]]
  show "log_at m'" using e(1) by (simp add: m2(2))
  show "idx f (rs @ block_rows f (nextTx m) b) m'" if "idx f rs m" using e(2) [OF w(2) [OF same(3) [OF that]]] by (simp add: m2(2) same(1))
qed

text \<open>Heights count up without a gap from the first block of the window, and do not wrap.\<close>

definition heights :: "u64 \<Rightarrow> BlockWrite list \<Rightarrow> bool" where
  "heights h bs = (\<forall>i < length bs. unat (Height (bs ! i)) = unat h + i)"

lemma heights_snoc: "heights h (bs @ [b]) = (heights h bs \<and> unat (Height b) = unat h + length bs)"
  by (auto simp: heights_def nth_append less_Suc_eq)

lemma wins_facts:
  assumes "wins R H tx h bs m" and "hash_laws H"
  shows "log_ok m" and "log_at m" and "idx f (spec_rows f tx bs) m"
    and "framed (if bs = [] then h else Height (hd bs)) (bs \<noteq> []) m"
    and "heights (baseHeight m) bs" and "unat (nextHeight m) = unat (baseHeight m) + length bs"
    and "bs = [] \<or> h \<noteq> 0 \<Longrightarrow> baseHeight m = h"
    and "for_each (add_block R H) bs (fresh tx h) = (m, None)"
    and "list_all block_fits bs" and "length (log m) < 2 ^ 64"
  using assms(1)
proof (induction)
  case wins_nil
  { case 1 show ?case by (rule idx_fresh)
  next case 2 show ?case by (rule idx_fresh)
  next case 3 show ?case by (simp add: idx_fresh)
  next case 4 show ?case by (simp add: idx_fresh)
  next case 5 show ?case by (simp add: heights_def)
  next case 6 show ?case by simp
  next case 7 show ?case by simp
  next case 8 show ?case by simp
  next case 9 show ?case by simp
  next case 10 show ?case by (simp add: log_def reset_def newMemtableAt_def clear_def) }
next
  case (wins_add bs m b m')
  note add = wins_add.hyps(2,3) and fits = wins_add.hyps(5) and room = wins_add.hyps(7) and IH = wins_add.IH
  obtain lg: "log_ok m'" and nh: "nextHeight m' = Height b + 1" and st: "started m \<longrightarrow> nextHeight m = Height b"
    using add_block_log [OF add assms(2) fits IH(1) room] by metis
  note i = add_block_idx [OF add fits room IH(2) wins_add.hyps(6)]
  note fr = add_block_frame [OF add IH(4)]
  have bh: "baseHeight m' = (if bs = [] then Height b else baseHeight m)" using fr(1) IH(4) by (auto simp: framed_def)
  have one: "unat (Height b + 1) = unat (Height b) + 1" using fits by (intro unat_add1 [OF less_add1_u64]) (simp add: block_fits_def)
  have hb: "unat (Height b) = unat (baseHeight m') + length bs"
  proof (cases "bs = []")
    case False
    then have "Height b = nextHeight m" using fr(2) by simp
    then show ?thesis using IH(6) bh False by simp
  qed (simp add: bh)
  { case 1 show ?case by (rule lg)
  next case 2 show ?case by (rule i(1))
  next case 3 show ?case using i(2) [OF IH(3)] wins_hist(3) [OF wins_add.hyps(1)] by (simp add: spec_rows_append)
  next case 4 show ?case using fr(1) by (cases "bs = []") simp_all
  next
    case 5
    have "heights (baseHeight m') bs" using IH(5) bh by (cases "bs = []") (simp_all add: heights_def)
    then show ?case using hb by (simp add: heights_snoc)
  next case 6 show ?case using nh one hb by simp
  next
    case 7
    show ?case
    proof (cases "bs = []")
      case True
      then have "unat (nextHeight m) = unat (baseHeight m)" "baseHeight m = h" using IH(6,7) by simp_all
      then have "nextHeight m = h" using unsigned_word_eqI by blast
      then show ?thesis using fr(3) 7 bh True by simp
    next
      case False
      then show ?thesis using IH(7) 7 bh by simp
    qed
  next case 8 show ?case using IH(8) add(1) by (simp add: for_each_append)
  next case 9 show ?case using IH(9) fits by simp
  next case 10 show ?case by (rule room) }
qed

subsection \<open>Reading a window\<close>

lemma entry_rows_bounds:
  assumes "unat num + length es < 2 ^ 64"
  shows "(\<forall>x \<in> set (entry_rows num es lg). num \<le> fst x \<and> unat (fst x) < unat num + length es) \<and> sorted_wrt (<) (map fst (entry_rows num es lg))"
  using assms
proof (induction es arbitrary: num)
  case (Cons e es)
  obtain off n where e: "e = (off, n)" by fastforce
  show ?case
  proof (cases "es = []")
    case False
    then have one: "unat (num + 1) = unat num + 1" using Cons.prems unat_add_of_nat [of num 1] by (cases es) simp_all
    have ih: "\<forall>x \<in> set (entry_rows (num + 1) es lg). num + 1 \<le> fst x \<and> unat (fst x) < unat (num + 1) + length es" "sorted_wrt (<) (map fst (entry_rows (num + 1) es lg))"
      using Cons.IH [of "num + 1"] Cons.prems one by auto
    have lt: "\<forall>x \<in> set (entry_rows (num + 1) es lg). num < fst x \<and> unat (fst x) < unat num + length (e # es)"
      using ih(1) one by (auto simp: word_le_nat_alt word_less_nat_alt)
    show ?thesis using lt ih(2) by (auto simp: e less_imp_le)
  qed (simp add: e)
qed simp

lemma unat_eqI: "unat a = unat b \<Longrightarrow> a = (b :: u64)"
  by (rule unsigned_word_eqI)

lemma entry_rows_find:
  assumes "unat num + length es < 2 ^ 64"
  shows "map_of (entry_rows num es lg) n =
    (if num \<le> n \<and> unat n < unat num + length es then
       (case es ! unat (n - num) of (off, k) \<Rightarrow> if off = 0 then None else Some (take (unat k) (drop (unat off) lg)))
     else None)"
  using assms
proof (induction es arbitrary: num)
  case (Cons e es)
  obtain off k where e: "e = (off, k)" by fastforce
  show ?case
  proof (cases "n = num")
    case True
    have "map_of (entry_rows (num + 1) es lg) num = None"
    proof (cases "es = []")
      case False
      then have one: "unat (num + 1) = unat num + 1" using Cons.prems unat_add_of_nat [of num 1] by (cases es) simp_all
      then have "\<forall>x \<in> set (entry_rows (num + 1) es lg). fst x \<noteq> num"
        using entry_rows_bounds [of "num + 1" es lg] Cons.prems by (fastforce simp: word_le_nat_alt)
      then show ?thesis by (auto simp: map_of_eq_None_iff)
    qed simp
    then show ?thesis using True by (simp add: e)
  next
    case False
    then have nu: "unat num \<noteq> unat n" using unat_eqI by blast
    show ?thesis
    proof (cases "es = []")
      case True
      then show ?thesis using False nu by (auto simp: e word_le_nat_alt)
    next
      case ne: False
      then have one: "unat (num + 1) = unat num + 1" using Cons.prems unat_add_of_nat [of num 1] by (cases es) simp_all
      have nn: "num + 1 \<le> n \<longleftrightarrow> num \<le> n" using one nu by (auto simp: word_le_nat_alt)
      have "unat (n - num) = Suc (unat (n - (num + 1)))" if "num \<le> n"
      proof -
        have "unat (n - num) = unat n - unat num" "unat (n - (num + 1)) = unat n - unat (num + 1)" "unat num < unat n"
          using that nn one by (auto simp: unat_sub word_le_nat_alt)
        then show ?thesis using one by simp
      qed
      then show ?thesis using Cons.IH [of "num + 1"] Cons.prems one nn False by (simp add: e)
    qed
  qed
qed (auto simp: word_le_nat_alt)

lemma idxD:
  assumes "idx f rows m"
  shows "length (ci_n (chainOf f m)) = length (ci_off (chainOf f m))" and "ci_set (chainOf f m) \<or> ci_off (chainOf f m) = []"
    and "unat (ci_base (chainOf f m)) + length (zip (ci_off (chainOf f m)) (ci_n (chainOf f m))) < 2 ^ 64"
    and "entries_in (zip (ci_off (chainOf f m)) (ci_n (chainOf f m))) (log m)"
    and "entry_rows (ci_base (chainOf f m)) (zip (ci_off (chainOf f m)) (ci_n (chainOf f m))) (log m) = rows"
  using assms by (simp_all add: idx_def Let_def)

lemma readRow_entry:
  assumes "logBuf m = []" and "unat off + unat n \<le> length (log m)"
  shows "readRow (Some (off, n)) m = Inr (Some (take (unat n) (drop (unat off) (log m))))"
proof (cases "n = 0")
  case False
  have "log m = logFile m" using assms(1) by (simp add: log_def)
  then show ?thesis using assms(2) False by (simp add: readRow_def)
qed (simp add: readRow_def)

lemma mem_chain_idx:
  assumes i: "idx f rows m" and ok: "log_ok m" "logOpen m" and l: "length (log m) < 2 ^ 64"
  shows "mem_chain f n m = Inr (map_of rows n)"
proof -
  define c where "c = chainOf f m"
  define es where "es = zip (ci_off c) (ci_n c)"
  note d = idxD [OF i, folded c_def, folded es_def]
  have le: "length es = length (ci_off c)" using d(1) by (simp add: es_def)
  have lg: "logBuf m = []" "flushed m = of_nat (length (log m))" using ok(1) by (simp_all add: log_ok_def log_def)
  have nx: "unat (ci_next c) = unat (ci_base c) + length es" using unat_add_of_nat [of "ci_base c" "length es"] d(3) le by (simp add: ci_next_def)
  have find: "ci_find n c = (if ci_base c \<le> n \<and> unat n < unat (ci_base c) + length es then
      (case es ! unat (n - ci_base c) of (off, k) \<Rightarrow> if off = 0 then None else Some (off, k)) else None)"
  proof (cases "ci_base c \<le> n \<and> unat n < unat (ci_base c) + length es")
    case True
    then have "ci_off c \<noteq> []" using le by (auto simp: word_le_nat_alt)
    then have "ci_set c" using d(2) by simp
    have ix: "unat (n - ci_base c) < length es" using True by (auto simp: unat_sub word_le_nat_alt)
    then have "es ! unat (n - ci_base c) = (ci_off c ! unat (n - ci_base c), ci_n c ! unat (n - ci_base c))"
      using le d(1) by (simp add: es_def)
    then show ?thesis using True nx \<open>ci_set c\<close> by (auto simp: ci_find_def Let_def word_le_nat_alt word_less_nat_alt)
  next
    case False
    then show ?thesis using nx by (auto simp: ci_find_def word_le_nat_alt word_less_nat_alt)
  qed
  show ?thesis
  proof (cases "ci_find n c")
    case None
    then have "map_of rows n = None" using find entry_rows_find [OF d(3), of "log m" n] d(5) by (auto split: if_splits prod.splits)
    then show ?thesis using None ok(2) by (simp add: mem_chain_def chainGet_def Let_def c_def readRow_def)
  next
    case (Some ok)
    obtain off k where o: "ok = (off, k)" by fastforce
    have g: "ci_base c \<le> n \<and> unat n < unat (ci_base c) + length es" "es ! unat (n - ci_base c) = (off, k)" "off \<noteq> 0"
      using Some find o by (auto split: if_splits prod.splits)
    have v: "map_of rows n = Some (take (unat k) (drop (unat off) (log m)))" using entry_rows_find [OF d(3), of "log m" n] d(5) g by simp
    have "unat (n - ci_base c) < length es" using g(1) by (auto simp: unat_sub word_le_nat_alt)
    then have "(off, k) \<in> set es" using g(2) nth_mem by metis
    then have b: "unat off + unat k \<le> length (log m)" using d(4) g(3) by (auto simp: entries_in_def)
    have "unat (off + ucast k) = unat off + unat k" using b l by (intro unat_add_of_nat [of off "unat k", simplified of_nat_unat]) simp
    then have "off + ucast k \<le> flushed m" using b l lg(2) by (simp add: word_le_nat_alt unat_of_nat)
    then show ?thesis using Some o v readRow_entry [OF lg(1) b] \<open>logOpen m\<close> by (simp add: mem_chain_def chainGet_def Let_def c_def)
  qed
qed

lemma readRows_entries:
  "logBuf m = [] \<Longrightarrow> entries_in es (log m) \<Longrightarrow> readRows num es m = Inr (entry_rows num es (log m))"
proof (induction es arbitrary: num)
  case (Cons e es)
  obtain off n where e: "e = (off, n)" by fastforce
  have "entries_in es (log m)" using Cons.prems(2) by (simp add: entries_in_def)
  from Cons.IH [OF Cons.prems(1) this, of "num + 1"] show ?case
    using readRow_entry [OF Cons.prems(1), of off n] Cons.prems(2) by (simp add: e entries_in_def)
qed simp

lemma flushLocked_ok: "log_ok m \<Longrightarrow> flushLocked m = m"
  by (simp add: flushLocked_def log_ok_def)

lemma eachChain_idx: "idx f rows m \<Longrightarrow> log_ok m \<Longrightarrow> eachChain f m = (m, Inr rows)"
  using readRows_entries [of m] idxD(4,5) [of f rows m] by (simp add: eachChain_def flushLocked_ok Let_def log_ok_def)

definition fam_section :: "fam \<Rightarrow> (u64 \<times> bytes) list \<Rightarrow> row list" where
  "fam_section f rows = map (\<lambda>(n, v). (numKey (famPrefix f) n, v)) rows"

definition chain_section :: "u64 \<Rightarrow> BlockWrite list \<Rightarrow> row list" where
  "chain_section tx bs = concat (map (\<lambda>f. fam_section f (spec_rows f tx bs)) allFams)"

lemma chainLoop_idx:
  assumes "\<And>f. idx f (rows f) m" and "log_ok m"
  shows "chainLoop fs m w = (m, setRows (concat (map (\<lambda>f. fam_section f (rows f)) fs)) w)"
  using eachChain_idx [OF assms(1) assms(2)]
  by (induction fs arbitrary: w) (auto simp: setRows_append fam_section_def split: sum.split)

lemma be64_nonempty [simp]: "be64 n \<noteq> []"
  using length_be64 [of n] by (metis list.size(3) zero_neq_numeral)

lemma chunkLoop_keys:
  assumes "chunkLoop groups prev nums pay es = Inr rows" and "kv \<in> set rows"
  shows "fst kv \<noteq> []"
proof -
  have fl: "fst kv \<noteq> []" if "flushChunk gs g ns ps = Inr out" "kv \<in> set out" for gs g ns ps out
    using that by (auto simp: flushChunk_def Let_def Suffixed_def split: if_splits sum.splits)
  show ?thesis using assms
  proof (induction es arbitrary: prev nums pay rows)
    case Nil
    then show ?case using fl by (auto split: option.splits)
  next
    case (Cons e es)
    from Cons.prems show ?case
      using fl Cons.IH unfolding chunkLoop.simps Let_def
      by (auto split: sum.split_asm if_split_asm prod.split_asm)
  qed
qed

text \<open>What a cut writes of a window: the chain rows of its blocks, its state rows and its lookup rows, none with an empty key.\<close>

lemma lookupRows_keys:
  assumes "lookupRows m = Inr lk" and "keys_ok m" and "kv \<in> set lk"
  shows "fst kv \<noteq> []"
proof -
  obtain rows where r: "chunks (addAll (mpost m) emptyPostSet) = Inr rows" "lk = sortKV (rows @ map (\<lambda>(k, n). (k, beU64 n)) (mnums m) @ map (\<lambda>k. (k, [])) (msets m))"
    using assms(1) by (auto simp: lookupRows_def split: sum.splits)
  have "fst kv \<noteq> []" if "kv \<in> set rows" using chunkLoop_keys [OF r(1) [unfolded chunks_def] that] .
  then show ?thesis using assms(2,3) by (auto simp: r(2) sortKV_def keys_ok_def)
qed

lemma stateRows_keys: "kv \<in> set (stateRows m) \<Longrightarrow> fst kv \<noteq> []"
  using histRows_mem [of "fst kv" "snd kv" m] by (auto simp: stateRows_def codeRows_def CodeKey_def PrefixCode_def ascii_def Suffixed_def)

lemma chain_section_keys: "kv \<in> set (chain_section tx bs) \<Longrightarrow> fst kv \<noteq> []"
  by (auto simp: chain_section_def fam_section_def numKey_def beU64_def)

lemma writeSections_blocks:
  assumes w: "wins R H tx h bs m" and H: "hash_laws H" and ws: "writeSections T m w = (m', Inr w')"
  shows "m' = m" and "\<exists>lk. lookupRows m = Inr lk \<and> writeRun T [chain_section tx bs, stateRows m, lk] w = Inr w' \<and> (\<forall>rs \<in> set [chain_section tx bs, stateRows m, lk]. \<forall>kv \<in> set rs. fst kv \<noteq> [])"
proof -
  note f = wins_facts [OF w H]
  show m: "m' = m" using writeSections_rows(1) [OF ws] flushLocked_ok [OF f(1)] by simp
  obtain w1 where w1: "Begin 0 w = Inr w1" using ws by (auto simp: writeSections_def split: sum.splits)
  have cl: "chainLoop allFams m w1 = (m, setRows (chain_section tx bs) w1)"
    unfolding chain_section_def by (rule chainLoop_idx [OF f(3) f(1)])
  obtain w2 where w2: "setRows (chain_section tx bs) w1 = Inr w2" using ws w1 cl by (auto simp: writeSections_def split: sum.splits)
  obtain lk where lk: "lookupRows m = Inr lk" using ws w1 cl w2 by (auto simp: writeSections_def split: sum.splits)
  have "writeRun T [chain_section tx bs, codeRows m @ histRows m, lk] w = Inr w'"
    using ws w1 cl w2 lk by (auto simp: writeSections_def writeRun_def writeSection_def setRows_append split: sum.split_asm)
  moreover have "keys_ok m" using f(4) by (simp add: framed_def)
  ultimately show "\<exists>lk. lookupRows m = Inr lk \<and> writeRun T [chain_section tx bs, stateRows m, lk] w = Inr w' \<and> (\<forall>rs \<in> set [chain_section tx bs, stateRows m, lk]. \<forall>kv \<in> set rs. fst kv \<noteq> [])"
    using lk lookupRows_keys [OF lk] stateRows_keys chain_section_keys unfolding stateRows_def [symmetric] by auto
qed

end
