(* ===== verification/Spec2Isabelle.thy ===== *)
theory Spec2Isabelle
  imports Prelude Keys EF Container Memtable Recover Receipts Flat FetchQueue Forward Text Dist Reside Manifest Run Reads GoHeap Merge Postings Window Database DBReads StateDB Blocks
begin

text \<open>
  epochdb storage: a verification development.
\<close>

end
